(* ===== verification/Prelude.thy ===== *)
theory Prelude
  imports Main "HOL-Library.Word" "HOL-Library.AList"
begin

text \<open>
  Shared ground of the development: the machine integers of the Rust code and its
  arithmetic, errors as values, sequencing of fallible state updates, little-endian
  bytes, and the lemmas on maps, sums and association lists that the components use.

  Rust's plain \<open>+\<close> and \<open>-\<close> on unsigned integers depend on the build: with overflow
  checks (the default debug profile) an overflow panics, without them (the default
  release profile) it wraps. \<open>Cargo.toml\<close> sets neither, so the profile is a parameter
  of every definition that uses plain arithmetic. \<open>checked_add\<close> and
  \<open>saturating_sub\<close> do not depend on it.
\<close>

unbundle bit_operations_syntax

section \<open>Integers, errors, build profiles\<close>

type_synonym u8 = "8 word"
type_synonym u32 = "32 word"
type_synonym u64 = "64 word"
type_synonym u128 = "128 word"
type_synonym bytes = "u8 list"

datatype profile = Debug | Release

text \<open>
  A Python-visible failure: a \<open>PyValueError\<close> with its message, one of the two fee
  exceptions, or a panic (which \<open>pyo3\<close> turns into a \<open>PanicException\<close>).
\<close>

datatype error =
    ValueError string
  | ErrFeeOverflow
  | ErrInvalidSelector
  | Panic string

definition is_panic :: "error \<Rightarrow> bool" where
  "is_panic e = (case e of Panic _ \<Rightarrow> True | _ \<Rightarrow> False)"

lemma is_panic_simps [simp]:
  "is_panic (Panic m)"
  "\<not> is_panic (ValueError m)"
  "\<not> is_panic ErrFeeOverflow"
  "\<not> is_panic ErrInvalidSelector"
  by (simp_all add: is_panic_def)

named_theorems rust_arith \<open>exact values of the Rust integer operations\<close>

subsection \<open>Plain, checked and saturating arithmetic\<close>

definition u_add :: "profile \<Rightarrow> 'a::len word \<Rightarrow> 'a word \<Rightarrow> error + 'a word" where
  "u_add p a b =
     (if unat a + unat b < 2 ^ LENGTH('a) then Inr (a + b)
      else (case p of
              Debug \<Rightarrow> Inl (Panic ''attempt to add with overflow'')
            | Release \<Rightarrow> Inr (a + b)))"

definition u_sub :: "profile \<Rightarrow> 'a::len word \<Rightarrow> 'a word \<Rightarrow> error + 'a word" where
  "u_sub p a b =
     (if b \<le> a then Inr (a - b)
      else (case p of
              Debug \<Rightarrow> Inl (Panic ''attempt to subtract with overflow'')
            | Release \<Rightarrow> Inr (a - b)))"

definition checked_add :: "'a::len word \<Rightarrow> 'a word \<Rightarrow> 'a word option" where
  "checked_add a b = (if unat a + unat b < 2 ^ LENGTH('a) then Some (a + b) else None)"

definition saturating_add :: "'a::len word \<Rightarrow> 'a word \<Rightarrow> 'a word" where
  "saturating_add a b = (if unat a + unat b < 2 ^ LENGTH('a) then a + b else - 1)"

definition saturating_sub :: "'a::len word \<Rightarrow> 'a word \<Rightarrow> 'a word" where
  "saturating_sub a b = (if b \<le> a then a - b else 0)"

lemma unat_add_exact:
  "unat (a + b) = unat a + unat b" if "unat a + unat b < 2 ^ LENGTH('a)" for a b :: "'a::len word"
  using that by (simp add: unat_word_ariths)

lemma unat_sub_exact: "b \<le> a \<Longrightarrow> unat (a - b) = unat a - unat b" for a b :: "'a::len word"
  by (simp add: unat_sub)

lemma u_add_exact [rust_arith]:
  "u_add p a b = Inr (a + b)" if "unat a + unat b < 2 ^ LENGTH('a)" for a b :: "'a::len word"
  using that by (simp add: u_add_def)

lemma u_add_Inr_cases:
  fixes a b :: "'a::len word"
  assumes "u_add p a b = Inr c"
  shows "c = a + b" and "p = Debug \<Longrightarrow> unat c = unat a + unat b"
  using assms by (auto simp: u_add_def unat_add_exact split: if_splits profile.splits)

lemma u_add_Debug_iff:
  fixes a b :: "'a::len word"
  shows "u_add Debug a b = Inr c \<longleftrightarrow> unat a + unat b < 2 ^ LENGTH('a) \<and> c = a + b"
  by (auto simp: u_add_def)

lemma u_add_Inl_panic: "u_add p a b = Inl e \<Longrightarrow> is_panic e"
  by (auto simp: u_add_def split: if_splits profile.splits)

lemma u_sub_exact [rust_arith]: "b \<le> a \<Longrightarrow> u_sub p a b = Inr (a - b)"
  by (simp add: u_sub_def)

lemma checked_add_Some [rust_arith]:
  "checked_add a b = Some (a + b)" if "unat a + unat b < 2 ^ LENGTH('a)" for a b :: "'a::len word"
  using that by (simp add: checked_add_def)

lemma checked_add_SomeD:
  fixes a b :: "'a::len word"
  assumes "checked_add a b = Some c"
  shows "unat c = unat a + unat b" and "c = a + b" and "unat a + unat b < 2 ^ LENGTH('a)"
  using assms by (auto simp: checked_add_def unat_add_exact split: if_splits)

lemma unat_saturating_sub [rust_arith, simp]: "unat (saturating_sub a b) = unat a - unat b"
  by (auto simp: saturating_sub_def unat_sub_exact word_le_nat_alt)

lemma unat_saturating_add:
  "unat (saturating_add a b) = min (unat a + unat b) (2 ^ LENGTH('a) - 1)"
  for a b :: "'a::len word"
  by (auto simp: saturating_add_def unat_add_exact unsigned_minus_1_eq_mask
      mask_eq_exp_minus_1)

lemma unat_bound: "unat a < 2 ^ LENGTH('a)" for a :: "'a::len word"
  by simp

lemma unat_bound_le: "unat a < 2 ^ n" if "LENGTH('a) \<le> n" for a :: "'a::len word"
  using unat_bound [of a] power_increasing [OF that, of "2::nat"] by linarith

lemma unat_u64_bound: "unat a < 18446744073709551616" for a :: u64
  using unat_bound [of a] by simp

section \<open>Sequencing fallible steps over a state\<close>

text \<open>
  A method on \<open>&mut self\<close> that returns \<open>PyResult\<close> may fail after it has changed some
  fields: its model returns the result and the state it leaves behind. \<open>and_then\<close> is
  the \<open>?\<close> operator: the rest runs from the state so far, and is skipped after an error.
\<close>

type_synonym ('s, 'a) outcome = "(error + 'a) \<times> 's"

definition and_then :: "('s, 'a) outcome \<Rightarrow> ('a \<Rightarrow> 's \<Rightarrow> ('s, 'b) outcome) \<Rightarrow> ('s, 'b) outcome" where
  "and_then r k = (case r of (Inl e, s) \<Rightarrow> (Inl e, s) | (Inr x, s) \<Rightarrow> k x s)"

definition bind_res :: "'e + 'a \<Rightarrow> ('a \<Rightarrow> 'e + 'b) \<Rightarrow> 'e + 'b" where
  "bind_res r k = (case r of Inl e \<Rightarrow> Inl e | Inr x \<Rightarrow> k x)"

lemma and_then_simps [simp]:
  "and_then (Inl e, s) k = (Inl e, s)"
  "and_then (Inr x, s) k = k x s"
  by (simp_all add: and_then_def)

lemma bind_res_simps [simp]:
  "bind_res (Inl e) k = Inl e"
  "bind_res (Inr x) k = k x"
  by (simp_all add: bind_res_def)

lemma and_then_InrE:
  assumes "and_then r k = (Inr y, t)"
  obtains x s where "r = (Inr x, s)" and "k x s = (Inr y, t)"
  using assms by (auto simp: and_then_def split: prod.splits sum.splits)

lemma bind_res_InrE:
  assumes "bind_res r k = Inr y"
  obtains x where "r = Inr x" and "k x = Inr y"
  using assms by (auto simp: bind_res_def split: sum.splits)

lemma bind_res_cong [fundef_cong]:
  "r = r' \<Longrightarrow> (\<And>x. r' = Inr x \<Longrightarrow> k x = k' x) \<Longrightarrow> bind_res r k = bind_res r' k'"
  by (cases r') auto

section \<open>Little-endian bytes\<close>

text \<open>\<open>to_le_bytes\<close> of a word of \<open>n\<close> bytes, and its inverse.\<close>

definition le_bytes :: "nat \<Rightarrow> 'a::len word \<Rightarrow> bytes" where
  "le_bytes n w = map (\<lambda>i. ucast (drop_bit (8 * i) w)) [0..<n]"

primrec of_le_bytes :: "bytes \<Rightarrow> 'a::len word" where
  "of_le_bytes [] = 0"
| "of_le_bytes (b # bs) = ucast b OR push_bit 8 (of_le_bytes bs)"

lemma length_le_bytes [simp]: "length (le_bytes n w) = n"
  by (simp add: le_bytes_def)

lemma bit_of_le_bytes:
  fixes bs :: bytes
  shows "bit (of_le_bytes bs :: 'a::len word) i \<longleftrightarrow>
    i < LENGTH('a) \<and> i div 8 < length bs \<and> bit (bs ! (i div 8)) (i mod 8)"
proof (induction bs arbitrary: i)
  case Nil
  then show ?case by simp
next
  case (Cons b bs)
  show ?case
  proof (cases "i < 8")
    case True
    then show ?thesis by (auto simp: bit_or_iff bit_push_bit_iff bit_ucast_iff)
  next
    case False
    then have "i div 8 = Suc ((i - 8) div 8)" and "i mod 8 = (i - 8) mod 8"
      by (simp_all add: le_div_geq le_mod_geq)
    moreover have "\<not> bit b i"
      using False by (auto dest: bit_imp_le_length)
    ultimately show ?thesis
      using False Cons.IH [of "i - 8"]
      by (auto simp: bit_or_iff bit_push_bit_iff bit_ucast_iff)
  qed
qed

lemma of_le_bytes_le_bytes:
  fixes w :: "'a::len word"
  assumes "LENGTH('a) \<le> 8 * n"
  shows "of_le_bytes (le_bytes n w) = w"
proof (rule bit_word_eqI)
  fix i assume i: "i < LENGTH('a)"
  with assms have "i div 8 < n" by linarith
  with i show "bit (of_le_bytes (le_bytes n w) :: 'a word) i = bit w i"
    by (simp add: bit_of_le_bytes le_bytes_def bit_ucast_iff bit_drop_bit_eq)
qed

abbreviation u64_le :: "u64 \<Rightarrow> bytes" where
  "u64_le \<equiv> le_bytes 8"

abbreviation u32_le :: "u32 \<Rightarrow> bytes" where
  "u32_le \<equiv> le_bytes 4"

text \<open>Rust strings are UTF-8: a \<open>string\<close> of the model is its sequence of bytes.\<close>

definition as_bytes :: "string \<Rightarrow> bytes" where
  "as_bytes s = map of_char s"

lemma length_as_bytes [simp]: "length (as_bytes s) = length s"
  by (simp add: as_bytes_def)

section \<open>Maps: entries and sums over the values\<close>

text \<open>
  \<open>msum f m\<close> adds \<open>f\<close> over the values of a finite map: the supply of a token is such
  a sum over the accounts. It is used in statements only, never by the model.
\<close>

definition msum :: "('v \<Rightarrow> nat) \<Rightarrow> ('k \<rightharpoonup> 'v) \<Rightarrow> nat" where
  "msum f m = (\<Sum>k\<in>dom m. f (the (m k)))"

lemma msum_empty [simp]: "msum f Map.empty = 0"
  by (simp add: msum_def)

lemma msum_new:
  assumes "finite (dom m)" and "m k = None"
  shows "msum f (m(k \<mapsto> v)) = msum f m + f v"
proof -
  have "k \<notin> dom m" using assms(2) by auto
  then have "(\<Sum>x\<in>dom m. f (the ((m(k \<mapsto> v)) x))) = (\<Sum>x\<in>dom m. f (the (m x)))"
    by (intro sum.cong) auto
  with \<open>k \<notin> dom m\<close> assms(1) show ?thesis by (simp add: msum_def)
qed

lemma msum_remove:
  assumes "finite (dom m)" and "m k = Some v"
  shows "msum f m = f v + (\<Sum>x\<in>dom m - {k}. f (the (m x)))"
  using assms by (simp add: msum_def sum.remove [where x = k] domI)

lemma msum_upd:
  assumes "finite (dom m)" and "m k = Some v"
  shows "msum f (m(k \<mapsto> w)) + f v = msum f m + f w"
proof -
  have "msum f (m(k \<mapsto> w)) = f w + (\<Sum>x\<in>dom m - {k}. f (the ((m(k \<mapsto> w)) x)))"
    using assms by (subst msum_remove [where k = k and v = w]) (auto simp: insert_absorb)
  also have "(\<Sum>x\<in>dom m - {k}. f (the ((m(k \<mapsto> w)) x))) = (\<Sum>x\<in>dom m - {k}. f (the (m x)))"
    by (intro sum.cong) auto
  finally show ?thesis
    using msum_remove [OF assms, of f] by linarith
qed

lemma msum_ge:
  assumes "finite (dom m)" and "m k = Some v"
  shows "f v \<le> msum f m"
  using msum_remove [OF assms, of f] by simp

section \<open>Sums over lists\<close>

lemma sum_list_filter_le: "sum_list (map f (filter P xs)) \<le> sum_list (map f xs)" for f :: "'a \<Rightarrow> nat"
  by (induction xs) auto

lemma sum_list_ge_member: "x \<in> set xs \<Longrightarrow> f x \<le> sum_list (map f xs)" for f :: "'a \<Rightarrow> nat"
  by (induction xs) auto

lemma sum_list_bounded:
  "(\<And>x. x \<in> set xs \<Longrightarrow> f x \<le> b) \<Longrightarrow> sum_list (map f xs) \<le> length xs * b" for f :: "'a \<Rightarrow> nat"
  by (induction xs) (auto intro: add_mono)

end
