(* ===== verification/Fee.thy ===== *)
theory Fee
  imports Prelude
begin

text \<open>
  Fee routing, \<open>src/fee/mod.rs\<close>: the split of a raw fee into a consumer and an
  industrial part, its Python wrapper, and the contract \<open>fee_policy\<close> that the ledger
  relies on (the parts add up to the fee, and an accepted fee is bounded).
\<close>

section \<open>The code\<close>

definition MAX_FEE :: u64 where
  "MAX_FEE = push_bit 63 1 - 1"

datatype fee_error = InvalidSelector | Overflow

text \<open>\<open>u128::div_ceil\<close> of the standard library.\<close>

definition div_ceil_u128 :: "u128 \<Rightarrow> u128 \<Rightarrow> u128" where
  "div_ceil_u128 a b = (if a mod b > 0 then a div b + 1 else a div b)"

definition decompose :: "u8 \<Rightarrow> u64 \<Rightarrow> fee_error + u64 \<times> u64" where
  "decompose selector fee =
     (if fee > MAX_FEE then Inl Overflow
      else if selector = 0 then Inr (fee, 0)
      else if selector = 1 then Inr (0, fee)
      else if selector = 2 then
        (let fee128 = ucast fee :: u128;
             ct = ucast (div_ceil_u128 fee128 2);
             it = ucast (fee128 div 2)
         in Inr (ct, it))
      else Inl InvalidSelector)"

definition decompose_py :: "u8 \<Rightarrow> u64 \<Rightarrow> error + u64 \<times> u64" where
  "decompose_py selector fee =
     (case decompose selector fee of
        Inr p \<Rightarrow> Inr p
      | Inl e \<Rightarrow> Inl (case e of InvalidSelector \<Rightarrow> ErrInvalidSelector | Overflow \<Rightarrow> ErrFeeOverflow))"

text \<open>The \<open>Display\<close> strings that \<open>thiserror\<close> derives for \<open>FeeError\<close>.\<close>

primrec fee_error_message :: "fee_error \<Rightarrow> string" where
  "fee_error_message InvalidSelector = ''invalid selector''"
| "fee_error_message Overflow = ''fee overflow''"

section \<open>What it computes\<close>

lemma unat_MAX_FEE: "unat MAX_FEE = 2 ^ 63 - 1"
  by (simp add: MAX_FEE_def)

lemma fee_in_range: "\<not> fee > MAX_FEE \<longleftrightarrow> unat fee < 2 ^ 63"
proof -
  have "\<not> fee > MAX_FEE \<longleftrightarrow> unat fee \<le> 2 ^ 63 - 1"
    by (simp add: not_less word_le_nat_alt unat_MAX_FEE)
  then show ?thesis by (simp add: less_Suc_eq_le [symmetric])
qed

lemma unat_div_ceil_u128_2: "unat (div_ceil_u128 a 2) = (unat a + 1) div 2"
proof -
  have b: "unat a div 2 + 1 < 2 ^ 128"
    using unat_bound [of a] by simp
  have "unat (a div 2) = unat a div 2" by (simp add: unat_div)
  moreover have "unat (a div 2 + 1) = unat a div 2 + 1"
    using b by (subst unat_add_exact) (simp_all add: unat_div)
  moreover have "a mod 2 > 0 \<longleftrightarrow> unat a mod 2 = 1"
    by (simp add: word_less_nat_alt unat_mod)
  ultimately show ?thesis
    by (simp add: div_ceil_u128_def) presburger
qed

lemma unat_ucast_u64_u128: "unat (ucast (f :: u64) :: u128) = unat f"
proof -
  have "unat f < 2 ^ 128" by (rule unat_bound_le) simp
  then show ?thesis by (simp add: unsigned_ucast_eq take_bit_nat_eq_self)
qed

lemma unat_ucast_u128_u64: "unat (a :: u128) < 2 ^ 64 \<Longrightarrow> unat (ucast a :: u64) = unat a"
  by (simp add: unsigned_ucast_eq take_bit_nat_eq_self)

lemma decompose_split:
  assumes "unat fee < 2 ^ 63"
  shows "\<exists>c i. decompose 2 fee = Inr (c, i) \<and> unat c = (unat fee + 1) div 2 \<and> unat i = unat fee div 2"
proof -
  let ?f = "ucast fee :: u128"
  have f: "unat ?f = unat fee" by (rule unat_ucast_u64_u128)
  have c: "unat (ucast (div_ceil_u128 ?f 2) :: u64) = (unat fee + 1) div 2"
    using assms by (subst unat_ucast_u128_u64) (simp_all add: unat_div_ceil_u128_2 f)
  have i: "unat (ucast (?f div 2) :: u64) = unat fee div 2"
    using assms by (subst unat_ucast_u128_u64) (simp_all add: unat_div f)
  show ?thesis
    using assms fee_in_range [of fee] c i by (simp add: decompose_def Let_def)
qed

lemma decompose_Inr_iff:
  "(\<exists>p. decompose sel fee = Inr p) \<longleftrightarrow> unat fee < 2 ^ 63 \<and> sel \<in> {0, 1, 2}"
  using fee_in_range [of fee] by (auto simp: decompose_def Let_def)

lemma decompose_Inl_cases:
  "decompose sel fee = Inl e \<longleftrightarrow>
     (if unat fee \<ge> 2 ^ 63 then e = Overflow else sel \<notin> {0, 1, 2} \<and> e = InvalidSelector)"
  using fee_in_range [of fee] by (auto simp: decompose_def Let_def)

lemma decompose_sum:
  assumes "decompose sel fee = Inr (c, i)"
  shows "unat c + unat i = unat fee"
proof -
  from assms have "unat fee < 2 ^ 63" and "sel \<in> {0, 1, 2}"
    using decompose_Inr_iff [of sel fee] by auto
  then show ?thesis
    using assms decompose_split [of fee] fee_in_range [of fee]
    by (auto simp: decompose_def split: if_splits)
qed

lemma decompose_cap: "decompose sel fee = Inr (c, i) \<Longrightarrow> unat fee \<le> 2 ^ 63 - 1"
  using decompose_Inr_iff [of sel fee] by auto

section \<open>The contract\<close>

text \<open>
  What the ledger uses of a fee policy, whatever the split. The totals are the sums that
  \<open>mine_block\<close>, \<open>validate_block\<close>, \<open>is_valid_chain_rust\<close>, \<open>import_chain\<close> and
  \<open>open\<close> accumulate in \<open>u128\<close>; \<open>total_fits_u128\<close> says that no machine can overflow
  them, so the model keeps them as natural numbers.
\<close>

locale fee_policy =
  fixes split :: "u8 \<Rightarrow> u64 \<Rightarrow> 'e + u64 \<times> u64"
    and cap :: nat
  assumes split_sum: "split sel fee = Inr (c, i) \<Longrightarrow> unat c + unat i = unat fee"
    and split_cap: "split sel fee = Inr (c, i) \<Longrightarrow> unat fee \<le> cap"
begin

lemma part_le:
  assumes "split sel fee = Inr (c, i)"
  shows "unat c \<le> unat fee" and "unat i \<le> unat fee" and "unat c \<le> cap" and "unat i \<le> cap"
  using split_sum [OF assms] split_cap [OF assms] by simp_all

lemma totals_conserve:
  assumes "\<And>sel fee. (sel, fee) \<in> set xs \<Longrightarrow> \<exists>p. split sel fee = Inr p"
  shows "sum_list (map (\<lambda>(sel, fee). case split sel fee of Inr (c, i) \<Rightarrow> unat c | Inl _ \<Rightarrow> 0) xs) +
         sum_list (map (\<lambda>(sel, fee). case split sel fee of Inr (c, i) \<Rightarrow> unat i | Inl _ \<Rightarrow> 0) xs) =
         sum_list (map (\<lambda>(sel, fee). unat fee) xs)"
  using assms
proof (induction xs)
  case Nil
  then show ?case by simp
next
  case (Cons x xs)
  obtain sel fee where x: "x = (sel, fee)" by (cases x)
  with Cons.prems obtain c i where "split sel fee = Inr (c, i)" by fastforce
  with split_sum [OF this] Cons x show ?case by fastforce
qed

lemma total_bound:
  "sum_list (map (\<lambda>(sel, fee). case split sel fee of Inr (c, i) \<Rightarrow> unat c | Inl _ \<Rightarrow> 0) xs)
     \<le> length xs * cap"
  "sum_list (map (\<lambda>(sel, fee). case split sel fee of Inr (c, i) \<Rightarrow> unat i | Inl _ \<Rightarrow> 0) xs)
     \<le> length xs * cap"
  by (intro sum_list_bounded; auto split: sum.splits dest: part_le)+

lemma total_fits:
  assumes "length xs \<le> 2 ^ 64" and "cap < 2 ^ 63"
  shows "sum_list (map (\<lambda>(sel, fee). case split sel fee of Inr (c, i) \<Rightarrow> unat c | Inl _ \<Rightarrow> 0) xs) < 2 ^ 128"
    and "sum_list (map (\<lambda>(sel, fee). case split sel fee of Inr (c, i) \<Rightarrow> unat i | Inl _ \<Rightarrow> 0) xs) < 2 ^ 128"
proof -
  have "length xs * cap \<le> 2 ^ 64 * 2 ^ 63"
    using assms by (intro mult_le_mono) auto
  then have "length xs * cap < 2 ^ 128" by simp
  with total_bound [of xs] show
    "sum_list (map (\<lambda>(sel, fee). case split sel fee of Inr (c, i) \<Rightarrow> unat c | Inl _ \<Rightarrow> 0) xs) < 2 ^ 128"
    "sum_list (map (\<lambda>(sel, fee). case split sel fee of Inr (c, i) \<Rightarrow> unat i | Inl _ \<Rightarrow> 0) xs) < 2 ^ 128"
    by linarith+
qed

end

interpretation fee: fee_policy decompose "2 ^ 63 - 1"
  by unfold_locales (auto dest: decompose_sum decompose_cap)

section \<open>Properties\<close>

lemma of_nat_unat_u64: "of_nat (unat w) = (w :: u64)"
  by simp

lemma decompose_eq:
  "decompose sel fee =
     (if 2 ^ 63 \<le> unat fee then Inl Overflow
      else if sel = 0 then Inr (fee, 0)
      else if sel = 1 then Inr (0, fee)
      else if sel = 2 then Inr (of_nat ((unat fee + 1) div 2), of_nat (unat fee div 2))
      else Inl InvalidSelector)"
proof (cases "2 ^ 63 \<le> unat fee \<or> sel \<noteq> 2")
  case True
  with fee_in_range [of fee] show ?thesis by (auto simp: decompose_def)
next
  case False
  with decompose_split [of fee] obtain c i where d: "decompose 2 fee = Inr (c, i)"
    "unat c = (unat fee + 1) div 2" "unat i = unat fee div 2" by auto
  from d(2,3) have "c = of_nat ((unat fee + 1) div 2)" "i = of_nat (unat fee div 2)"
    by (metis of_nat_unat_u64)+
  with False d(1) show ?thesis by auto
qed

text \<open>
  C33: The split of a fee is total and exactly as specified: a fee of \<open>2^63\<close> or more is an
  overflow whatever the selector; otherwise selector 0 charges the consumer side, 1 the
  industrial side, 2 splits in two halves with the odd unit on the consumer side (the
  128-bit ceiling division and the casts lose nothing), and every other selector is invalid.
\<close>

theorem decompose_spec:
  "decompose sel fee =
     (if 2 ^ 63 \<le> unat fee then Inl Overflow
      else if sel = 0 then Inr (fee, 0)
      else if sel = 1 then Inr (0, fee)
      else if sel = 2 then Inr (of_nat ((unat fee + 1) div 2), of_nat (unat fee div 2))
      else Inl InvalidSelector)"
  by (rule decompose_eq)

text \<open>
  No fee unit is created or lost by the split, and neither part exceeds the cap
  \<open>2^63 - 1\<close> (rule INV-FEE-02).
\<close>

lemma decompose_conserves:
  assumes "decompose sel fee = Inr (c, i)"
  shows "unat c + unat i = unat fee \<and> unat c \<le> 2 ^ 63 - 1 \<and> unat i \<le> 2 ^ 63 - 1"
  using fee.split_sum [OF assms] fee.part_le [OF assms] by simp

end
