(* ===== verification/Types.thy ===== *)
theory Types
  imports Prelude Fee "HOL-Library.List_Lexorder" "HOL-Library.Product_Lexorder" "HOL-Library.Char_ord"
begin

text \<open>
  The data of the program: amounts, accounts, transactions, blocks, the chain state and
  its on-disk form (\<open>src/lib.rs\<close>, \<open>src/transaction.rs\<close>), the key-value store
  (\<open>src/simple_db.rs\<close>), and the record \<open>env\<close> of everything the program calls that is
  not its own code.
\<close>

section \<open>Amounts and accounts\<close>

datatype token_amount = TokenAmount (tok: u64)

text \<open>The derived \<open>PartialOrd\<close> and \<open>Ord\<close> compare the wrapped integer.\<close>

instantiation token_amount :: linorder
begin

definition less_eq_token_amount :: "token_amount \<Rightarrow> token_amount \<Rightarrow> bool" where
  "less_eq_token_amount a b \<longleftrightarrow> tok a \<le> tok b"

definition less_token_amount :: "token_amount \<Rightarrow> token_amount \<Rightarrow> bool" where
  "less_token_amount a b \<longleftrightarrow> tok a < tok b"

instance
  by intro_classes (auto simp: less_eq_token_amount_def less_token_amount_def intro: token_amount.expand)

end

definition token_saturating_add :: "token_amount \<Rightarrow> token_amount \<Rightarrow> token_amount" where
  "token_saturating_add a b = TokenAmount (saturating_add (tok a) (tok b))"

definition token_saturating_sub :: "token_amount \<Rightarrow> token_amount \<Rightarrow> token_amount" where
  "token_saturating_sub a b = TokenAmount (saturating_sub (tok a) (tok b))"

record token_balance =
  tb_consumer :: u64
  tb_industrial :: u64

record account =
  acc_address :: string
  acc_balance :: token_balance
  acc_nonce :: u64
  acc_pending_consumer :: u64
  acc_pending_industrial :: u64
  acc_pending_nonce :: u64

type_synonym accounts = "string \<rightharpoonup> account"

section \<open>Transactions and blocks\<close>

record raw_tx_payload =
  pl_from :: string
  pl_to :: string
  pl_amount_consumer :: u64
  pl_amount_industrial :: u64
  pl_fee :: u64
  pl_fee_selector :: u8
  pl_nonce :: u64
  pl_memo :: bytes

record signed_transaction =
  tx_payload :: raw_tx_payload
  tx_public_key :: bytes
  tx_signature :: bytes

record block =
  blk_index :: u64
  blk_previous_hash :: string
  blk_transactions :: "signed_transaction list"
  blk_difficulty :: u64
  blk_nonce :: u64
  blk_hash :: string
  blk_coinbase_consumer :: token_amount
  blk_coinbase_industrial :: token_amount
  blk_fee_checksum :: string

abbreviation tx_from :: "signed_transaction \<Rightarrow> string" where
  "tx_from tx \<equiv> pl_from (tx_payload tx)"

abbreviation tx_to :: "signed_transaction \<Rightarrow> string" where
  "tx_to tx \<equiv> pl_to (tx_payload tx)"

abbreviation tx_nonce :: "signed_transaction \<Rightarrow> u64" where
  "tx_nonce tx \<equiv> pl_nonce (tx_payload tx)"

text \<open>The key of a mempool entry, which is also the key that \<open>mine_block\<close> sorts by.\<close>

abbreviation tx_key :: "signed_transaction \<Rightarrow> string \<times> u64" where
  "tx_key tx \<equiv> (tx_from tx, tx_nonce tx)"

section \<open>Chain state\<close>

text \<open>
  \<open>DashMap\<close> iterates in an order it does not specify. The mempool is an association
  list with distinct keys whose order stands for that unspecified order.
\<close>

type_synonym mempool = "((string \<times> u64) \<times> signed_transaction) list"

record simple_db =
  db_map :: "string \<rightharpoonup> bytes"

record chain_disk =
  cd_schema_version :: nat
  cd_chain :: "block list"
  cd_accounts :: accounts
  cd_emission_consumer :: u64
  cd_emission_industrial :: u64
  cd_block_reward_consumer :: token_amount
  cd_block_reward_industrial :: token_amount
  cd_block_height :: u64

record blockchain =
  bc_chain :: "block list"
  bc_accounts :: accounts
  bc_difficulty :: u64
  bc_mempool :: mempool
  bc_db :: simple_db
  bc_emission_consumer :: u64
  bc_emission_industrial :: u64
  bc_block_reward_consumer :: token_amount
  bc_block_reward_industrial :: token_amount
  bc_block_height :: u64

section \<open>Code outside the repository\<close>

text \<open>
  The configuration value that \<open>bincode_config\<close> passes to the serializer.
\<close>

datatype int_encoding = Fixint | Varint
datatype endian = LittleEndian | BigEndian

record bincode_options =
  int_encoding :: int_encoding
  endian :: endian

text \<open>
  \<open>env\<close> holds the build profile and one field per external function the code calls:
  \<^item> \<open>blake3\<close>: a \<open>blake3::Hasher\<close> fed with \<open>update\<close> calls; the digest depends on the
    concatenation of the updates only. \<open>to_hex\<close> and \<open>hex_decode\<close>: \<open>Hash::to_hex\<close> and
    \<open>hex::decode\<close> (\<open>None\<close> for a string that is not hexadecimal);
  \<^item> \<open>ed_*\<close>: \<open>ed25519_dalek\<close>: the public key of a secret key, signing,
    \<open>VerifyingKey::from_bytes\<close> (\<open>False\<close> for an invalid point), verification;
  \<^item> \<open>bincode_*\<close>: \<open>bincode\<close> serialization of a payload under given options (writing to
    a \<open>Vec\<close> does not fail), and \<open>bincode::serialize\<close>/\<open>deserialize\<close> of the stored values.
  What a theorem needs of them is a named hypothesis; nothing else is known of them.
\<close>

record env =
  build :: profile
  blake3 :: "bytes \<Rightarrow> bytes"
  to_hex :: "bytes \<Rightarrow> string"
  hex_decode :: "string \<Rightarrow> bytes option"
  bincode_payload :: "bincode_options \<Rightarrow> raw_tx_payload \<Rightarrow> bytes"
  ed_verifying_key :: "bytes \<Rightarrow> bytes"
  ed_sign :: "bytes \<Rightarrow> bytes \<Rightarrow> bytes"
  ed_vk_from_bytes :: "bytes \<Rightarrow> bool"
  ed_verify :: "bytes \<Rightarrow> bytes \<Rightarrow> bytes \<Rightarrow> bool"
  bincode_disk :: "chain_disk \<Rightarrow> bytes option"
  unbincode_disk :: "bytes \<Rightarrow> chain_disk option"
  bincode_chain :: "block list \<Rightarrow> bytes option"
  unbincode_chain :: "bytes \<Rightarrow> block list option"
  unbincode_accounts :: "bytes \<Rightarrow> accounts option"
  unbincode_emission :: "bytes \<Rightarrow> (u64 \<times> u64 \<times> u64 \<times> u64 \<times> u64) option"

text \<open>Named hypotheses on the external functions.\<close>

definition blake3_digest_32 :: "env \<Rightarrow> bool" where
  "blake3_digest_32 E \<longleftrightarrow> (\<forall>m. length (blake3 E m) = 32)"

definition hex_roundtrip :: "env \<Rightarrow> bool" where
  "hex_roundtrip E \<longleftrightarrow> (\<forall>b. hex_decode E (to_hex E b) = Some b)"

definition ed25519_correct :: "env \<Rightarrow> bool" where
  "ed25519_correct E \<longleftrightarrow>
     (\<forall>sk m. length sk = 32 \<longrightarrow>
        length (ed_verifying_key E sk) = 32 \<and> length (ed_sign E sk m) = 64 \<and>
        ed_vk_from_bytes E (ed_verifying_key E sk) \<and>
        ed_verify E (ed_verifying_key E sk) m (ed_sign E sk m))"

definition disk_roundtrip :: "env \<Rightarrow> bool" where
  "disk_roundtrip E \<longleftrightarrow> (\<forall>d b. bincode_disk E d = Some b \<longrightarrow> unbincode_disk E b = Some d)"

lemma hex_decode_to_hex: "hex_roundtrip E \<Longrightarrow> hex_decode E (to_hex E b) = Some b"
  by (simp add: hex_roundtrip_def)

lemma to_hex_inject: "hex_roundtrip E \<Longrightarrow> to_hex E a = to_hex E b \<longleftrightarrow> a = b"
  by (metis hex_decode_to_hex option.inject)

end
