(* ===== verification/Codec.thy ===== *)
theory Codec
  imports Prelude
begin

text \<open>
  The interface between the byte layouts and the theorems about hashes and signatures:
  an encoder whose output can be read back from the front of any longer input. Its
  lemmas (an encoding determines the value and the rest of the input) are proved once
  and used for every field of a block header or of a payload.
\<close>

locale codec =
  fixes enc :: "'a \<Rightarrow> bytes"
    and dec :: "bytes \<Rightarrow> ('a \<times> bytes) option"
    and ok :: "'a \<Rightarrow> bool"
  assumes dec_enc: "ok x \<Longrightarrow> dec (enc x @ r) = Some (x, r)"
begin

lemma append_inject:
  assumes "ok x" and "ok y" and "enc x @ r = enc y @ s"
  shows "x = y" and "r = s"
proof -
  have "Some (x, r) = dec (enc x @ r)" by (rule dec_enc [OF assms(1), symmetric])
  also have "\<dots> = Some (y, s)" unfolding assms(3) by (rule dec_enc [OF assms(2)])
  finally show "x = y" and "r = s" by blast+
qed

lemma inject:
  assumes "ok x" and "ok y" and "enc x = enc y"
  shows "x = y"
  using append_inject(1) [of x y "[]" "[]"] assms by simp

lemma append_iff:
  assumes "ok x" and "ok y"
  shows "enc x @ r = enc y @ s \<longleftrightarrow> x = y \<and> r = s"
  using append_inject [OF assms, of r s] by auto

lemma concat_inject:
  assumes "\<forall>x\<in>set xs. ok x" and "\<forall>y\<in>set ys. ok y" and "\<forall>x. ok x \<longrightarrow> enc x \<noteq> []"
    and "concat (map enc xs) = concat (map enc ys)"
  shows "xs = ys"
  using assms
proof (induction xs arbitrary: ys)
  case Nil
  then show ?case by (cases ys) auto
next
  case (Cons x xs)
  from Cons.prems have "ys \<noteq> []" by auto
  then obtain y ys' where ys: "ys = y # ys'" by (cases ys) auto
  with Cons.prems have "enc x @ concat (map enc xs) = enc y @ concat (map enc ys')"
    by simp
  then have xy: "x = y" and rest: "concat (map enc xs) = concat (map enc ys')"
    by (rule append_inject [rotated 2]; use Cons.prems ys in simp)+
  have "xs = ys'"
    by (rule Cons.IH [OF _ _ Cons.prems(3) rest]; use Cons.prems ys in simp)
  with xy ys show ?case by simp
qed

end

section \<open>Fixed-width fields\<close>

definition dec_word :: "nat \<Rightarrow> bytes \<Rightarrow> ('a::len word \<times> bytes) option" where
  "dec_word n bs = (if length bs < n then None else Some (of_le_bytes (take n bs), drop n bs))"

definition dec_raw :: "nat \<Rightarrow> bytes \<Rightarrow> (bytes \<times> bytes) option" where
  "dec_raw n bs = (if length bs < n then None else Some (take n bs, drop n bs))"

definition of_bytes :: "bytes \<Rightarrow> string" where
  "of_bytes b = map (\<lambda>w. char_of (unat w)) b"

definition dec_ascii :: "nat \<Rightarrow> bytes \<Rightarrow> (string \<times> bytes) option" where
  "dec_ascii n bs = map_option (apfst of_bytes) (dec_raw n bs)"

lemma char_of_unat: "char_of (unat (of_char c :: u8)) = c"
proof -
  have "unat (of_char c :: u8) = of_char c"
    unfolding of_nat_of_char [where 'a = u8, symmetric] by (simp add: unat_of_nat)
  then show ?thesis by simp
qed

lemma of_bytes_as_bytes [simp]: "of_bytes (as_bytes s) = s"
  by (simp add: of_bytes_def as_bytes_def char_of_unat comp_def)

lemma as_bytes_inject [simp]: "as_bytes s = as_bytes t \<longleftrightarrow> s = t"
  by (metis of_bytes_as_bytes)

interpretation u64_codec: codec "u64_le" "dec_word 8" "\<lambda>_. True"
  by unfold_locales (simp add: dec_word_def of_le_bytes_le_bytes)

interpretation u8_codec: codec "\<lambda>w :: u8. [w]" "dec_word 1" "\<lambda>_. True"
  by unfold_locales (simp add: dec_word_def)

interpretation id_codec: codec "\<lambda>b. b" "dec_raw 32" "\<lambda>b. length b = 32"
  by unfold_locales (simp add: dec_raw_def)

interpretation hash_codec: codec as_bytes "dec_ascii 64" "\<lambda>s. length s = 64"
  by unfold_locales (simp add: dec_ascii_def dec_raw_def)

section \<open>Length-prefixed fields\<close>

definition prefixed :: "bytes \<Rightarrow> bytes" where
  "prefixed b = u64_le (of_nat (length b)) @ b"

definition dec_prefixed :: "bytes \<Rightarrow> (bytes \<times> bytes) option" where
  "dec_prefixed bs =
     (case dec_word 8 bs of
        None \<Rightarrow> None
      | Some (n :: u64, r) \<Rightarrow> dec_raw (unat n) r)"

lemma dec_prefixed: "length b < 2 ^ 64 \<Longrightarrow> dec_prefixed (prefixed b @ r) = Some (b, r)"
  by (simp add: dec_prefixed_def prefixed_def u64_codec.dec_enc dec_raw_def unat_of_nat
      take_bit_nat_eq_self)

interpretation blob_codec: codec prefixed dec_prefixed "\<lambda>b. length b < 2 ^ 64"
  by unfold_locales (rule dec_prefixed)

interpretation str_codec: codec
  "\<lambda>s. prefixed (as_bytes s)"
  "\<lambda>bs. map_option (apfst of_bytes) (dec_prefixed bs)"
  "\<lambda>s. length s < 2 ^ 64"
  by unfold_locales (simp add: dec_prefixed)

end
