(* ===== verification/HashLayout.thy ===== *)
theory HashLayout
  imports Types Codec
begin

text \<open>
  Block hashing and the genesis constant: \<open>src/hashlayout.rs\<close>, \<open>src/hash_genesis.rs\<close>,
  \<open>src/consensus.rs\<close> and \<open>build.rs\<close>. The theorems say that the encoded bytes determine
  every field of the header, and that the hash computed when the crate is built is the
  hash of the genesis encoder.
\<close>

section \<open>The encoder\<close>

text \<open>A \<open>blake3::Hasher\<close> is the sequence of bytes it was fed.\<close>

type_synonym hasher = bytes

definition hasher_new :: hasher where
  "hasher_new = []"

definition update :: "hasher \<Rightarrow> bytes \<Rightarrow> hasher" where
  "update h b = h @ b"

definition finalize_hex :: "env \<Rightarrow> hasher \<Rightarrow> string" where
  "finalize_hex E h = to_hex E (blake3 E h)"

record block_encoder =
  be_index :: u64
  be_prev :: string
  be_nonce :: u64
  be_difficulty :: u64
  be_coin_c :: u64
  be_coin_i :: u64
  be_fee_checksum :: string
  be_tx_ids :: "bytes list"

definition encode :: "block_encoder \<Rightarrow> hasher \<Rightarrow> hasher" where
  "encode e h =
     (let h = update h (u64_le (be_index e));
          h = update h (as_bytes (be_prev e));
          h = update h (u64_le (be_nonce e));
          h = update h (u64_le (be_difficulty e));
          h = update h (u64_le (be_coin_c e));
          h = update h (u64_le (be_coin_i e));
          h = update h (as_bytes (be_fee_checksum e))
      in foldl update h (be_tx_ids e))"

definition encoder_hash :: "env \<Rightarrow> block_encoder \<Rightarrow> string" where
  "encoder_hash E e = finalize_hex E (encode e hasher_new)"

definition ZERO_HASH :: string where
  "ZERO_HASH = ''0000000000000000000000000000000000000000000000000000000000000000''"

lemma length_ZERO_HASH [simp]: "length ZERO_HASH = 64"
  by (simp add: ZERO_HASH_def)

section \<open>The genesis constant\<close>

text \<open>
  \<open>build.rs\<close> hashes the genesis header and writes the digest to a file that
  \<open>hashlayout.rs\<close> includes; \<open>const_hash\<close> returns that text, whatever the encoder.
\<close>

definition build_genesis_digest :: "env \<Rightarrow> string" where
  "build_genesis_digest E =
     (let h = hasher_new;
          h = update h (u64_le 0);
          h = update h (as_bytes ZERO_HASH);
          h = update h (u64_le 0);
          h = update h (u64_le 8);
          h = update h (u64_le 0);
          h = update h (u64_le 0);
          h = update h (as_bytes ZERO_HASH)
      in finalize_hex E h)"

text \<open>
  The build script as a whole: it refuses a \<open>constants.rs\<close> that is not ASCII, and writes the
  digest below \<open>OUT_DIR\<close>; \<open>write\<close> is the file system.
\<close>

datatype build_result = Built | Exited nat | Panicked string

definition build_main ::
  "env \<Rightarrow> bytes \<Rightarrow> string option \<Rightarrow> (string \<Rightarrow> string \<Rightarrow> bool) \<Rightarrow> build_result" where
  "build_main E constants out_dir write =
     (if \<not> list_all (\<lambda>b. b < 128) constants then Exited 1
      else (let digest = build_genesis_digest E in
        case out_dir of
          None \<Rightarrow> Panicked ''OUT_DIR missing''
        | Some dir \<Rightarrow>
            if write (dir @ ''/genesis_hash.txt'') digest then Built else Panicked ''write genesis hash''))"

definition const_hash :: "env \<Rightarrow> block_encoder \<Rightarrow> string" where
  "const_hash E _ = build_genesis_digest E"

definition genesis_encoder :: block_encoder where
  "genesis_encoder =
     \<lparr>be_index = 0, be_prev = ZERO_HASH, be_nonce = 0, be_difficulty = 8,
      be_coin_c = 0, be_coin_i = 0, be_fee_checksum = ZERO_HASH, be_tx_ids = []\<rparr>"

definition calculate_genesis_hash :: "env \<Rightarrow> string" where
  "calculate_genesis_hash E = const_hash E genesis_encoder"

definition calculate_genesis_hash_runtime :: "env \<Rightarrow> string" where
  "calculate_genesis_hash_runtime E = encoder_hash E genesis_encoder"

section \<open>Consensus constants\<close>

definition CHAIN_ID :: u32 where
  "CHAIN_ID = 1"

definition chain_id_py :: u32 where
  "chain_id_py = CHAIN_ID"

definition TX_VERSION :: u8 where
  "TX_VERSION = 2"

definition FEE_SPEC_VERSION :: u32 where
  "FEE_SPEC_VERSION = 2"

definition GENESIS_HASH :: string where
  "GENESIS_HASH = ''92fc0fbacb748ac4b7bb561b677ab24bc5561e8e61d406728b90490d56754167''"

lemma length_GENESIS_HASH [simp]: "length GENESIS_HASH = 64"
  by (simp add: GENESIS_HASH_def)

text \<open>
  The compile-time assertion: a length test, then a \<open>while\<close> loop over the bytes. An
  error of the model is a compilation that fails.
\<close>

function compare_from :: "bytes \<Rightarrow> bytes \<Rightarrow> nat \<Rightarrow> error + unit" where
  "compare_from a b i =
     (if i < length a then
        if a ! i \<noteq> b ! i then Inl (Panic ''GENESIS_HASH mismatch'')
        else compare_from a b (i + 1)
      else Inr ())"
  by pat_completeness auto
termination
  by (relation "measure (\<lambda>(a, b, i). length a - i)") auto

declare compare_from.simps [simp del]

definition assert_genesis_hash :: "env \<Rightarrow> error + unit" where
  "assert_genesis_hash E =
     (let a = as_bytes GENESIS_HASH;
          b = as_bytes (calculate_genesis_hash E)
      in if length a \<noteq> length b then Inl (Panic ''GENESIS_HASH length mismatch'')
         else compare_from a b 0)"

text \<open>The domain separation tag: a 16-byte buffer filled by two slice copies.\<close>

definition copy_from_slice :: "bytes \<Rightarrow> nat \<Rightarrow> bytes \<Rightarrow> bytes" where
  "copy_from_slice buf off src = take off buf @ src @ drop (off + length src) buf"

definition domain_tag :: bytes where
  "domain_tag =
     (let buf = replicate 16 0;
          prefix = as_bytes ''THE_BLOCKv2|'';
          buf = copy_from_slice buf 0 prefix
      in copy_from_slice buf (length prefix) (u32_le CHAIN_ID))"

definition bincode_config :: bincode_options where
  "bincode_config = \<lparr>int_encoding = Fixint, endian = LittleEndian\<rparr>"

section \<open>Lemmas\<close>

lemma foldl_update: "foldl update h bs = h @ concat bs"
  by (induction bs arbitrary: h) (simp_all add: update_def)

lemma encode_eq:
  "encode e h = h @ u64_le (be_index e) @ as_bytes (be_prev e) @ u64_le (be_nonce e) @
     u64_le (be_difficulty e) @ u64_le (be_coin_c e) @ u64_le (be_coin_i e) @
     as_bytes (be_fee_checksum e) @ concat (be_tx_ids e)"
  by (simp add: encode_def Let_def foldl_update update_def)

definition wf_encoder :: "block_encoder \<Rightarrow> bool" where
  "wf_encoder e \<longleftrightarrow> length (be_prev e) = 64 \<and> length (be_fee_checksum e) = 64 \<and>
     (\<forall>i\<in>set (be_tx_ids e). length i = 32)"

lemma encode_inject:
  assumes "wf_encoder e" and "wf_encoder f" and eq: "encode e h = encode f h"
  shows "e = f"
proof -
  note wf = assms(1,2) [unfolded wf_encoder_def]
  have ids: "concat (be_tx_ids e) = concat (be_tx_ids f) \<Longrightarrow> be_tx_ids e = be_tx_ids f"
    using id_codec.concat_inject [of "be_tx_ids e" "be_tx_ids f"] wf by fastforce
  from eq wf have "be_index e = be_index f \<and> be_prev e = be_prev f \<and> be_nonce e = be_nonce f \<and>
      be_difficulty e = be_difficulty f \<and> be_coin_c e = be_coin_c f \<and>
      be_coin_i e = be_coin_i f \<and> be_fee_checksum e = be_fee_checksum f \<and>
      concat (be_tx_ids e) = concat (be_tx_ids f)"
    by (simp only: encode_eq same_append_eq u64_codec.append_iff hash_codec.append_iff)
  with ids show "e = f" by (intro block_encoder.equality) simp_all
qed

lemma compare_from_ok_iff:
  assumes "length a = length b"
  shows "compare_from a b i = Inr () \<longleftrightarrow> drop i a = drop i b"
  using assms
proof (induction a b i rule: compare_from.induct)
  case (1 a b i)
  show ?case
  proof (cases "i < length a")
    case True
    with "1.prems" have "drop i a = drop i b \<longleftrightarrow> a ! i = b ! i \<and> drop (Suc i) a = drop (Suc i) b"
      by (metis Cons_nth_drop_Suc list.inject)
    with True "1.IH" "1.prems" show ?thesis by (subst compare_from.simps) simp
  next
    case False
    with "1.prems" show ?thesis by (subst compare_from.simps) simp
  qed
qed

lemma assert_genesis_hash_iff:
  "assert_genesis_hash E = Inr () \<longleftrightarrow> calculate_genesis_hash E = GENESIS_HASH"
  by (auto simp: assert_genesis_hash_def Let_def compare_from_ok_iff)

lemma genesis_runtime_eq: "calculate_genesis_hash_runtime E = calculate_genesis_hash E"
  by (simp add: calculate_genesis_hash_runtime_def calculate_genesis_hash_def const_hash_def
      build_genesis_digest_def encoder_hash_def encode_def genesis_encoder_def)

lemma domain_tag_eq: "domain_tag = as_bytes ''THE_BLOCKv2|'' @ u32_le CHAIN_ID"
  by (simp add: domain_tag_def copy_from_slice_def as_bytes_def Let_def)

lemma length_domain_tag [simp]: "length domain_tag = 16"
  by (simp add: domain_tag_eq)

section \<open>Properties\<close>

text \<open>
  The compile-time loop over the genesis hash accepts exactly when the constant equals
  the hash that the run-time encoder computes for the genesis header; so the digest written
  by the build script is the one the node would compute itself.
\<close>

lemma genesis_assertion_iff:
  "assert_genesis_hash E = Inr () \<longleftrightarrow> calculate_genesis_hash_runtime E = GENESIS_HASH"
  by (simp add: assert_genesis_hash_iff genesis_runtime_eq)

end
