(* ===== verification/Transaction.thy ===== *)
theory Transaction
  imports HashLayout
begin

text \<open>
  Transactions, \<open>src/transaction.rs\<close>, and the signing helpers of \<open>src/lib.rs\<close>: the
  canonical payload bytes, transaction ids, signing and verification with the domain tag,
  and the plain message API. The layout that the Python interoperability test
  \<open>tests/test_interop.py\<close> requires of the payload bytes is a definition here
  (\<open>encode_py\<close>) and a hypothesis on \<open>bincode\<close> (\<open>bincode_interop\<close>).
\<close>

section \<open>The code\<close>

definition to_array_32 :: "bytes \<Rightarrow> bytes option" where
  "to_array_32 b = (if length b = 32 then Some b else None)"

definition to_array_64 :: "bytes \<Rightarrow> bytes option" where
  "to_array_64 b = (if length b = 64 then Some b else None)"

definition hex_to_bytes :: "env \<Rightarrow> string \<Rightarrow> error + bytes" where
  "hex_to_bytes E hex =
     (case hex_decode E hex of
        Some b \<Rightarrow> Inr b
      | None \<Rightarrow> Inl (Panic ''Invalid hex string''))"

definition canonical_payload_bytes :: "env \<Rightarrow> raw_tx_payload \<Rightarrow> bytes" where
  "canonical_payload_bytes E payload = bincode_payload E bincode_config payload"

definition tx_id :: "env \<Rightarrow> signed_transaction \<Rightarrow> bytes" where
  "tx_id E tx =
     (let h = hasher_new;
          h = update h (as_bytes ''TX'');
          h = update h [TX_VERSION];
          h = update h (canonical_payload_bytes E (tx_payload tx));
          h = update h (tx_public_key tx)
      in blake3 E h)"

definition sign_tx :: "env \<Rightarrow> bytes \<Rightarrow> raw_tx_payload \<Rightarrow> signed_transaction option" where
  "sign_tx E sk_bytes payload =
     (case to_array_32 sk_bytes of
        None \<Rightarrow> None
      | Some sk \<Rightarrow>
          (let msg = domain_tag @ canonical_payload_bytes E payload;
               sig = ed_sign E sk msg
           in Some \<lparr>tx_payload = payload, tx_public_key = ed_verifying_key E sk,
                    tx_signature = sig\<rparr>))"

definition verify_signed_tx :: "env \<Rightarrow> signed_transaction \<Rightarrow> bool" where
  "verify_signed_tx E tx =
     (case (to_array_32 (tx_public_key tx), to_array_64 (tx_signature tx)) of
        (Some pk, Some sig) \<Rightarrow>
          (if ed_vk_from_bytes E pk then
             (let m = domain_tag @ canonical_payload_bytes E (tx_payload tx)
              in ed_verify E pk m sig)
           else False)
      | _ \<Rightarrow> False)"

definition sign_tx_py :: "env \<Rightarrow> bytes \<Rightarrow> raw_tx_payload \<Rightarrow> error + signed_transaction" where
  "sign_tx_py E sk_bytes payload =
     (case sign_tx E sk_bytes payload of
        Some tx \<Rightarrow> Inr tx
      | None \<Rightarrow> Inl (ValueError ''Invalid private key length''))"

definition verify_signed_tx_py :: "env \<Rightarrow> signed_transaction \<Rightarrow> bool" where
  "verify_signed_tx_py E tx = verify_signed_tx E tx"

definition canonical_payload_py :: "env \<Rightarrow> raw_tx_payload \<Rightarrow> bytes" where
  "canonical_payload_py E payload = canonical_payload_bytes E payload"

text \<open>
  The message API of \<open>src/lib.rs\<close>. The 32 random bytes that \<open>OsRng\<close> fills in are an
  argument of the model.
\<close>

definition generate_keypair :: "env \<Rightarrow> bytes \<Rightarrow> bytes \<times> bytes" where
  "generate_keypair E rng = (rng, ed_verifying_key E rng)"

definition sign_message :: "env \<Rightarrow> bytes \<Rightarrow> bytes \<Rightarrow> error + bytes" where
  "sign_message E private message =
     (case to_array_32 private of
        None \<Rightarrow> Inl (ValueError ''Invalid private key length'')
      | Some sk \<Rightarrow> Inr (ed_sign E sk message))"

definition verify_signature :: "env \<Rightarrow> bytes \<Rightarrow> bytes \<Rightarrow> bytes \<Rightarrow> bool" where
  "verify_signature E public message signature =
     (case (to_array_32 public, to_array_64 signature) of
        (Some pk, Some sig) \<Rightarrow> (if ed_vk_from_bytes E pk then ed_verify E pk message sig else False)
      | _ \<Rightarrow> False)"

section \<open>The payload layout\<close>

text \<open>
  \<open>encode_py\<close> of the interoperability test: \<open>struct.pack\<close> with \<open><Q\<close> and \<open><B\<close>, strings
  and the memo prefixed with their length.
\<close>

definition encode_py :: "raw_tx_payload \<Rightarrow> bytes" where
  "encode_py p =
     prefixed (as_bytes (pl_from p)) @
     prefixed (as_bytes (pl_to p)) @
     u64_le (pl_amount_consumer p) @
     u64_le (pl_amount_industrial p) @
     u64_le (pl_fee p) @
     [pl_fee_selector p] @
     u64_le (pl_nonce p) @
     prefixed (pl_memo p)"

text \<open>No Rust string or vector is longer than \<open>isize::MAX\<close> bytes.\<close>

definition wf_payload :: "raw_tx_payload \<Rightarrow> bool" where
  "wf_payload p \<longleftrightarrow>
     length (pl_from p) < 2 ^ 64 \<and> length (pl_to p) < 2 ^ 64 \<and> length (pl_memo p) < 2 ^ 64"

definition bincode_interop :: "env \<Rightarrow> bool" where
  "bincode_interop E \<longleftrightarrow> (\<forall>p. wf_payload p \<longrightarrow> bincode_payload E bincode_config p = encode_py p)"

lemma encode_py_append_iff:
  assumes "wf_payload p" and "wf_payload q"
  shows "encode_py p @ r = encode_py q @ s \<longleftrightarrow> p = q \<and> r = s"
proof
  assume eq: "encode_py p @ r = encode_py q @ s"
  note wf = assms [unfolded wf_payload_def]
  from eq wf have "pl_from p = pl_from q \<and> pl_to p = pl_to q \<and>
      pl_amount_consumer p = pl_amount_consumer q \<and>
      pl_amount_industrial p = pl_amount_industrial q \<and> pl_fee p = pl_fee q \<and>
      pl_fee_selector p = pl_fee_selector q \<and> pl_nonce p = pl_nonce q \<and>
      pl_memo p = pl_memo q \<and> r = s"
    by (simp only: encode_py_def append.assoc str_codec.append_iff u64_codec.append_iff
        u8_codec.append_iff blob_codec.append_iff)
  then show "p = q \<and> r = s" by (intro conjI raw_tx_payload.equality) simp_all
qed simp

lemma canonical_append_iff:
  assumes "bincode_interop E" and "wf_payload p" and "wf_payload q"
  shows "canonical_payload_bytes E p @ r = canonical_payload_bytes E q @ s \<longleftrightarrow> p = q \<and> r = s"
  using assms encode_py_append_iff [OF assms(2,3)]
  by (simp add: canonical_payload_bytes_def bincode_interop_def)

section \<open>Lemmas\<close>

lemma tx_id_eq:
  "tx_id E tx = blake3 E (as_bytes ''TX'' @ [TX_VERSION] @
     canonical_payload_bytes E (tx_payload tx) @ tx_public_key tx)"
  by (simp add: tx_id_def update_def hasher_new_def Let_def)

lemma length_tx_id: "blake3_digest_32 E \<Longrightarrow> length (tx_id E tx) = 32"
  by (simp add: tx_id_eq blake3_digest_32_def)

lemma to_array_simps [simp]:
  "to_array_32 b = Some c \<longleftrightarrow> length b = 32 \<and> c = b"
  "to_array_64 b = Some c \<longleftrightarrow> length b = 64 \<and> c = b"
  "to_array_32 b = None \<longleftrightarrow> length b \<noteq> 32"
  "to_array_64 b = None \<longleftrightarrow> length b \<noteq> 64"
  by (auto simp: to_array_32_def to_array_64_def)

lemma verify_signed_tx_iff:
  "verify_signed_tx E tx \<longleftrightarrow>
     length (tx_public_key tx) = 32 \<and> length (tx_signature tx) = 64 \<and>
     ed_vk_from_bytes E (tx_public_key tx) \<and>
     ed_verify E (tx_public_key tx)
       (domain_tag @ canonical_payload_bytes E (tx_payload tx)) (tx_signature tx)"
  by (auto simp: verify_signed_tx_def to_array_32_def to_array_64_def Let_def)

lemma verify_signature_iff:
  "verify_signature E pk m sig \<longleftrightarrow>
     length pk = 32 \<and> length sig = 64 \<and> ed_vk_from_bytes E pk \<and> ed_verify E pk m sig"
  by (auto simp: verify_signature_def to_array_32_def to_array_64_def)

lemma sign_tx_verifies:
  assumes "ed25519_correct E" and "length sk = 32"
  shows "\<exists>tx. sign_tx E sk p = Some tx \<and> tx_payload tx = p \<and> verify_signed_tx E tx"
  using assms by (auto simp: sign_tx_def verify_signed_tx_iff ed25519_correct_def to_array_32_def)

section \<open>An instance of the external functions\<close>

text \<open>
  A concrete environment, used to evaluate the definitions and to show that the named
  hypotheses can hold. Its digest is the length and the sum of the bytes and its signatures are
  checksums of key and message: it has the laws that the theorems ask for and no
  cryptographic strength.
\<close>

definition sample_digest :: "bytes \<Rightarrow> bytes" where
  "sample_digest m =
     u64_le (of_nat (length m)) @ u64_le (sum_list (map ucast m)) @ replicate 16 0"

definition sample_payload :: raw_tx_payload where
  "sample_payload =
     \<lparr>pl_from = ''alice'', pl_to = ''bob'', pl_amount_consumer = 10, pl_amount_industrial = 5,
      pl_fee = 3, pl_fee_selector = 2, pl_nonce = 1, pl_memo = []\<rparr>"

definition sample_hex_digits :: string where
  "sample_hex_digits = ''0123456789abcdef''"

definition sample_to_hex :: "bytes \<Rightarrow> string" where
  "sample_to_hex m =
     concat (map (\<lambda>b. [sample_hex_digits ! (unat b div 16), sample_hex_digits ! (unat b mod 16)]) m)"

definition sample_nibble :: "char \<Rightarrow> nat option" where
  "sample_nibble c =
     (let n = length (takeWhile (\<lambda>d. d \<noteq> c) sample_hex_digits) in if n < 16 then Some n else None)"

fun sample_hex_decode :: "string \<Rightarrow> bytes option" where
  "sample_hex_decode [] = Some []"
| "sample_hex_decode [_] = None"
| "sample_hex_decode (c # d # cs) =
     (case (sample_nibble c, sample_nibble d, sample_hex_decode cs) of
        (Some a, Some b, Some bs) \<Rightarrow> Some (of_nat (16 * a + b) # bs)
      | _ \<Rightarrow> None)"

definition sample_sign :: "bytes \<Rightarrow> bytes \<Rightarrow> bytes" where
  "sample_sign key m = sample_digest (key @ m) @ sample_digest m"

definition sample_env :: "profile \<Rightarrow> env" where
  "sample_env p =
     \<lparr>build = p, blake3 = sample_digest, to_hex = sample_to_hex, hex_decode = sample_hex_decode,
      bincode_payload = \<lambda>_. encode_py, ed_verifying_key = \<lambda>sk. sk, ed_sign = sample_sign,
      ed_vk_from_bytes = \<lambda>_. True, ed_verify = \<lambda>pk m sig. sig = sample_sign pk m,
      bincode_disk = \<lambda>_. Some [], unbincode_disk = \<lambda>_. None,
      bincode_chain = \<lambda>_. Some [], unbincode_chain = \<lambda>_. None,
      unbincode_accounts = \<lambda>_. None, unbincode_emission = \<lambda>_. None\<rparr>"

lemma sample_env_fields [simp]:
  "build (sample_env p) = p" "blake3 (sample_env p) = sample_digest"
  "to_hex (sample_env p) = sample_to_hex" "hex_decode (sample_env p) = sample_hex_decode"
  "bincode_payload (sample_env p) = (\<lambda>_. encode_py)"
  "bincode_disk (sample_env p) = (\<lambda>_. Some [])" "bincode_chain (sample_env p) = (\<lambda>_. Some [])"
  "unbincode_disk (sample_env p) = (\<lambda>_. None)"
  by (simp_all add: sample_env_def)

lemma sample_nibble_digit: "n < 16 \<Longrightarrow> sample_nibble (sample_hex_digits ! n) = Some n"
proof -
  have "\<forall>k\<in>set [0..<16]. sample_nibble (sample_hex_digits ! k) = Some k" by code_simp
  then show "n < 16 \<Longrightarrow> sample_nibble (sample_hex_digits ! n) = Some n" by simp
qed

lemma sample_hex: "sample_hex_decode (sample_to_hex m) = Some m"
proof (induction m)
  case Nil
  then show ?case by (simp add: sample_to_hex_def)
next
  case (Cons b m)
  have "unat b div 16 < 16" using unat_bound [of b] by (simp add: less_mult_imp_div_less)
  then have "sample_nibble (sample_hex_digits ! (unat b div 16)) = Some (unat b div 16)"
    "sample_nibble (sample_hex_digits ! (unat b mod 16)) = Some (unat b mod 16)"
    by (simp_all add: sample_nibble_digit)
  moreover have "of_nat (16 * (unat b div 16) + unat b mod 16) = b" by simp
  ultimately show ?case using Cons
    by (simp add: sample_to_hex_def del: mult_div_mod_eq of_nat_add of_nat_mult)
qed

lemma sample_laws:
  "blake3_digest_32 (sample_env p)" "hex_roundtrip (sample_env p)" "ed25519_correct (sample_env p)"
  "bincode_interop (sample_env p)"
  by (simp_all add: blake3_digest_32_def sample_digest_def hex_roundtrip_def sample_hex
      ed25519_correct_def sample_env_def sample_sign_def bincode_interop_def)

section \<open>Properties\<close>

text \<open>
  C34: Signing with a 32-byte key succeeds, keeps the payload, and the result is accepted
  both by \<open>verify_signed_tx\<close> and by the plain message check on the domain-tagged bytes;
  a key of another length is refused.
\<close>

theorem sign_verify_roundtrip:
  assumes "ed25519_correct E"
  shows "if length sk = 32
    then \<exists>tx. sign_tx_py E sk p = Inr tx \<and> tx_payload tx = p \<and> verify_signed_tx E tx \<and>
           verify_signature E (tx_public_key tx)
             (domain_tag @ canonical_payload_bytes E p) (tx_signature tx)
    else sign_tx_py E sk p = Inl (ValueError ''Invalid private key length'')"
proof (cases "length sk = 32")
  case True
  from sign_tx_verifies [OF assms True, of p] obtain tx where
    "sign_tx E sk p = Some tx" "tx_payload tx = p" "verify_signed_tx E tx" by blast
  with True show ?thesis by (auto simp: sign_tx_py_def verify_signed_tx_iff verify_signature_iff)
next
  case False
  then show ?thesis by (simp add: sign_tx_py_def sign_tx_def to_array_32_def)
qed

theorem sign_verify_roundtrip_witness:
  "\<exists>tx. sign_tx_py (sample_env Debug) (replicate 32 1) sample_payload = Inr tx \<and>
     verify_signed_tx (sample_env Debug) tx"
  using sign_verify_roundtrip [OF sample_laws(3) [of Debug], of "replicate 32 1" sample_payload] by auto

text \<open>The bytes that a transaction id is the digest of.\<close>

definition tx_preimage :: "env \<Rightarrow> signed_transaction \<Rightarrow> bytes" where
  "tx_preimage E tx =
     as_bytes ''TX'' @ [TX_VERSION] @ canonical_payload_bytes E (tx_payload tx) @ tx_public_key tx"

text \<open>
  C35: A transaction id is the digest of bytes that determine the payload and the public
  key: with the serialization that the interoperability test fixes, equal preimages mean
  equal payloads and equal keys. The signature is not part of the id.
\<close>

theorem tx_id_binds:
  assumes "bincode_interop E" and "wf_payload (tx_payload tx)" and "wf_payload (tx_payload tx')"
  shows "tx_id E tx = blake3 E (tx_preimage E tx) \<and>
    (tx_preimage E tx = tx_preimage E tx' \<longleftrightarrow>
       tx_payload tx = tx_payload tx' \<and> tx_public_key tx = tx_public_key tx')"
  using canonical_append_iff [OF assms]
  by (simp add: tx_id_eq tx_preimage_def)

definition sample_tx :: signed_transaction where
  "sample_tx = \<lparr>tx_payload = sample_payload, tx_public_key = replicate 32 1,
     tx_signature = sample_sign (replicate 32 1) (domain_tag @ encode_py sample_payload)\<rparr>"

lemma sample_tx_simps [simp]:
  "tx_payload sample_tx = sample_payload" "tx_public_key sample_tx = replicate 32 1"
  by (simp_all add: sample_tx_def)

lemma sample_tx_verifies: "verify_signed_tx (sample_env p) sample_tx"
  by (simp add: verify_signed_tx_iff sample_env_def sample_sign_def sample_digest_def
      canonical_payload_bytes_def) (simp add: sample_tx_def sample_sign_def sample_digest_def)

lemma wf_sample_payload [simp]: "wf_payload sample_payload"
  by (simp add: wf_payload_def sample_payload_def)

theorem tx_id_binds_witness:
  "tx_id (sample_env Debug) sample_tx =
     sample_digest (tx_preimage (sample_env Debug) sample_tx)"
  using tx_id_binds [OF sample_laws(4) [of Debug], of "sample_tx" "sample_tx"] by simp

end
