(* ===== verification/Ledger.thy ===== *)
theory Ledger
  imports Transaction "HOL-Library.Multiset"
begin

text \<open>
  The account table and what a mined transaction does to it: the loop body of
  \<open>Blockchain::mine_block\<close> in \<open>src/lib.rs\<close> (debit the sender, release its reservation,
  credit the recipient), account creation and the fee totals of a block. The lemmas say
  how one transaction and a whole list of them move every balance, provided the pending
  reservations back the transactions.
\<close>

section \<open>Accounts\<close>

definition zero_account :: "string \<Rightarrow> account" where
  "zero_account addr =
     \<lparr>acc_address = addr, acc_balance = \<lparr>tb_consumer = 0, tb_industrial = 0\<rparr>, acc_nonce = 0,
      acc_pending_consumer = 0, acc_pending_industrial = 0, acc_pending_nonce = 0\<rparr>"

text \<open>\<open>"0".repeat(34)\<close>: the sender of a coinbase transaction.\<close>

definition COINBASE_ADDR :: string where
  "COINBASE_ADDR = replicate 34 (CHR ''0'')"

text \<open>\<open>accounts.entry(addr).or_insert(..)\<close>.\<close>

definition or_insert :: "accounts \<Rightarrow> string \<Rightarrow> account" where
  "or_insert A addr = (case A addr of Some a \<Rightarrow> a | None \<Rightarrow> zero_account addr)"

definition set_consumer :: "u64 \<Rightarrow> account \<Rightarrow> account" where
  "set_consumer v a = a\<lparr>acc_balance := (acc_balance a)\<lparr>tb_consumer := v\<rparr>\<rparr>"

definition set_industrial :: "u64 \<Rightarrow> account \<Rightarrow> account" where
  "set_industrial v a = a\<lparr>acc_balance := (acc_balance a)\<lparr>tb_industrial := v\<rparr>\<rparr>"

text \<open>
  Adding to both balances of an entry, consumer first. The two additions are parameters:
  a recipient is credited with plain \<open>+=\<close>, the miner with \<open>checked_add(..).expect(..)\<close>.
  A failure keeps what was written before it, the inserted entry included.
\<close>

definition credit_with ::
  "(u64 \<Rightarrow> u64 \<Rightarrow> error + u64) \<Rightarrow> (u64 \<Rightarrow> u64 \<Rightarrow> error + u64) \<Rightarrow>
   string \<Rightarrow> u64 \<Rightarrow> u64 \<Rightarrow> accounts \<Rightarrow> (accounts, unit) outcome" where
  "credit_with add_c add_i addr c i A =
     (let r = or_insert A addr; A = A(addr \<mapsto> r)
      in and_then (add_c (tb_consumer (acc_balance r)) c, A) (\<lambda>v A.
         let r = set_consumer v r; A = A(addr \<mapsto> r)
         in and_then (add_i (tb_industrial (acc_balance r)) i, A) (\<lambda>v A.
            (Inr (), A(addr \<mapsto> set_industrial v r)))))"

definition credit :: "env \<Rightarrow> string \<Rightarrow> u64 \<Rightarrow> u64 \<Rightarrow> accounts \<Rightarrow> (accounts, unit) outcome" where
  "credit E = credit_with (u_add (build E)) (u_add (build E))"

definition checked_add_expect :: "string \<Rightarrow> u64 \<Rightarrow> u64 \<Rightarrow> error + u64" where
  "checked_add_expect msg a b =
     (case checked_add a b of Some v \<Rightarrow> Inr v | None \<Rightarrow> Inl (Panic msg))"

definition credit_miner :: "string \<Rightarrow> u64 \<Rightarrow> u64 \<Rightarrow> accounts \<Rightarrow> (accounts, unit) outcome" where
  "credit_miner =
     credit_with (checked_add_expect ''miner consumer overflow'')
       (checked_add_expect ''miner industrial overflow'')"

section \<open>Fees\<close>

text \<open>\<open>fee::decompose(..).unwrap_or((0, 0))\<close>.\<close>

definition tx_fees :: "signed_transaction \<Rightarrow> u64 \<times> u64" where
  "tx_fees tx =
     (case decompose (pl_fee_selector (tx_payload tx)) (pl_fee (tx_payload tx)) of
        Inr p \<Rightarrow> p | Inl _ \<Rightarrow> (0, 0))"

abbreviation fee_c :: "signed_transaction \<Rightarrow> u64" where "fee_c tx \<equiv> fst (tx_fees tx)"
abbreviation fee_i :: "signed_transaction \<Rightarrow> u64" where "fee_i tx \<equiv> snd (tx_fees tx)"

text \<open>
  The loop that sums the fees of a list of transactions and skips those that do not
  decompose. The accumulators are \<open>u128\<close>; by \<open>fee.total_fits\<close> no list that fits in
  memory overflows them, so they are natural numbers here.
\<close>

definition fee_totals :: "signed_transaction list \<Rightarrow> nat \<times> nat" where
  "fee_totals txs =
     foldl (\<lambda>(c, i) tx.
        case decompose (pl_fee_selector (tx_payload tx)) (pl_fee (tx_payload tx)) of
          Inr (fc, fi) \<Rightarrow> (c + unat fc, i + unat fi)
        | Inl _ \<Rightarrow> (c, i)) (0, 0) txs"

text \<open>\<open>u64::try_from\<close> of a \<open>u128\<close>.\<close>

definition u64_try_from :: "nat \<Rightarrow> u64 option" where
  "u64_try_from n = (if n < 2 ^ 64 then Some (of_nat n) else None)"

section \<open>One mined transaction\<close>

definition debit_mined :: "env \<Rightarrow> signed_transaction \<Rightarrow> account \<Rightarrow> error + account" where
  "debit_mined E tx s =
     bind_res (u_add (build E) (pl_amount_consumer (tx_payload tx)) (fee_c tx)) (\<lambda>total_c.
     bind_res (u_add (build E) (pl_amount_industrial (tx_payload tx)) (fee_i tx)) (\<lambda>total_i.
       let s = set_consumer (saturating_sub (tb_consumer (acc_balance s)) total_c) s;
           s = set_industrial (saturating_sub (tb_industrial (acc_balance s)) total_i) s;
           s = s\<lparr>acc_pending_consumer := saturating_sub (acc_pending_consumer s) total_c\<rparr>;
           s = s\<lparr>acc_pending_industrial := saturating_sub (acc_pending_industrial s) total_i\<rparr>;
           s = s\<lparr>acc_pending_nonce := saturating_sub (acc_pending_nonce s) 1\<rparr>
       in Inr (s\<lparr>acc_nonce := tx_nonce tx\<rparr>)))"

definition debit_sender :: "env \<Rightarrow> signed_transaction \<Rightarrow> accounts \<Rightarrow> (accounts, unit) outcome" where
  "debit_sender E tx A =
     (if tx_from tx \<noteq> COINBASE_ADDR then
        (case A (tx_from tx) of
           Some s \<Rightarrow> and_then (debit_mined E tx s, A) (\<lambda>s A. (Inr (), A(tx_from tx \<mapsto> s)))
         | None \<Rightarrow> (Inr (), A))
      else (Inr (), A))"

definition apply_mined_tx :: "env \<Rightarrow> signed_transaction \<Rightarrow> accounts \<Rightarrow> (accounts, unit) outcome" where
  "apply_mined_tx E tx A =
     and_then (debit_sender E tx A) (\<lambda>_ A.
       credit E (tx_to tx) (pl_amount_consumer (tx_payload tx))
         (pl_amount_industrial (tx_payload tx)) A)"

primrec apply_mined_txs ::
  "env \<Rightarrow> signed_transaction list \<Rightarrow> accounts \<Rightarrow> (accounts, unit) outcome" where
  "apply_mined_txs E [] A = (Inr (), A)"
| "apply_mined_txs E (tx # txs) A =
     and_then (apply_mined_tx E tx A) (\<lambda>_ A. apply_mined_txs E txs A)"

section \<open>Reservations\<close>

text \<open>
  What a transaction reserves of its sender, as a natural number, and the load that a
  list of transactions puts on one address.
\<close>

definition tx_total_c :: "signed_transaction \<Rightarrow> nat" where
  "tx_total_c tx = unat (pl_amount_consumer (tx_payload tx)) + unat (fee_c tx)"

definition tx_total_i :: "signed_transaction \<Rightarrow> nat" where
  "tx_total_i tx = unat (pl_amount_industrial (tx_payload tx)) + unat (fee_i tx)"

definition load :: "(signed_transaction \<Rightarrow> nat) \<Rightarrow> string \<Rightarrow> signed_transaction list \<Rightarrow> nat" where
  "load f addr txs = sum_list (map f (filter (\<lambda>tx. tx_from tx = addr) txs))"

definition paid_to :: "(signed_transaction \<Rightarrow> nat) \<Rightarrow> string \<Rightarrow> signed_transaction list \<Rightarrow> nat" where
  "paid_to f addr txs = sum_list (map f (filter (\<lambda>tx. tx_to tx = addr) txs))"

definition reservable :: "signed_transaction \<Rightarrow> bool" where
  "reservable tx \<longleftrightarrow>
     (\<exists>p. decompose (pl_fee_selector (tx_payload tx)) (pl_fee (tx_payload tx)) = Inr p) \<and>
     tx_total_c tx < 2 ^ 64 \<and> tx_total_i tx < 2 ^ 64"

definition acc_ok :: "signed_transaction list \<Rightarrow> string \<Rightarrow> account \<Rightarrow> bool" where
  "acc_ok txs addr a \<longleftrightarrow>
     acc_address a = addr \<and>
     unat (acc_pending_consumer a) = load tx_total_c addr txs \<and>
     unat (acc_pending_industrial a) = load tx_total_i addr txs \<and>
     unat (acc_pending_nonce a) = load (\<lambda>_. 1) addr txs \<and>
     unat (acc_pending_consumer a) \<le> unat (tb_consumer (acc_balance a)) \<and>
     unat (acc_pending_industrial a) \<le> unat (tb_industrial (acc_balance a))"

definition ledger_inv :: "accounts \<Rightarrow> signed_transaction list \<Rightarrow> bool" where
  "ledger_inv A txs \<longleftrightarrow>
     finite (dom A) \<and>
     (\<forall>addr a. A addr = Some a \<longrightarrow> acc_ok txs addr a) \<and>
     (\<forall>tx\<in>set txs. reservable tx \<and> tx_from tx \<in> dom A)"

definition acc_c :: "account \<Rightarrow> nat" where "acc_c a = unat (tb_consumer (acc_balance a))"
definition acc_i :: "account \<Rightarrow> nat" where "acc_i a = unat (tb_industrial (acc_balance a))"

definition supply_c :: "accounts \<Rightarrow> nat" where "supply_c A = msum acc_c A"
definition supply_i :: "accounts \<Rightarrow> nat" where "supply_i A = msum acc_i A"

definition bal_c :: "accounts \<Rightarrow> string \<Rightarrow> nat" where
  "bal_c A addr = (case A addr of None \<Rightarrow> 0 | Some a \<Rightarrow> acc_c a)"

definition bal_i :: "accounts \<Rightarrow> string \<Rightarrow> nat" where
  "bal_i A addr = (case A addr of None \<Rightarrow> 0 | Some a \<Rightarrow> acc_i a)"

section \<open>Crediting\<close>

definition credited :: "u64 \<Rightarrow> u64 \<Rightarrow> account \<Rightarrow> account" where
  "credited c i a =
     set_industrial (tb_industrial (acc_balance a) + i)
       (set_consumer (tb_consumer (acc_balance a) + c) a)"

named_theorems acc_simps \<open>fields of an updated account\<close>

lemma set_balance_simps [simp, acc_simps]:
  "acc_c (set_consumer v a) = unat v"
  "acc_i (set_consumer v a) = acc_i a"
  "acc_c (set_industrial v a) = acc_c a"
  "acc_i (set_industrial v a) = unat v"
  "tb_consumer (acc_balance (set_consumer v a)) = v"
  "tb_industrial (acc_balance (set_consumer v a)) = tb_industrial (acc_balance a)"
  "tb_consumer (acc_balance (set_industrial v a)) = tb_consumer (acc_balance a)"
  "tb_industrial (acc_balance (set_industrial v a)) = v"
  "acc_address (set_consumer v a) = acc_address a"
  "acc_address (set_industrial v a) = acc_address a"
  "acc_nonce (set_consumer v a) = acc_nonce a"
  "acc_nonce (set_industrial v a) = acc_nonce a"
  "acc_pending_consumer (set_consumer v a) = acc_pending_consumer a"
  "acc_pending_consumer (set_industrial v a) = acc_pending_consumer a"
  "acc_pending_industrial (set_consumer v a) = acc_pending_industrial a"
  "acc_pending_industrial (set_industrial v a) = acc_pending_industrial a"
  "acc_pending_nonce (set_consumer v a) = acc_pending_nonce a"
  "acc_pending_nonce (set_industrial v a) = acc_pending_nonce a"
  by (simp_all add: set_consumer_def set_industrial_def acc_c_def acc_i_def)

lemma zero_account_simps [simp, acc_simps]:
  "acc_address (zero_account addr) = addr"
  "acc_c (zero_account addr) = 0"
  "acc_i (zero_account addr) = 0"
  "tb_consumer (acc_balance (zero_account addr)) = 0"
  "tb_industrial (acc_balance (zero_account addr)) = 0"
  "acc_nonce (zero_account addr) = 0"
  "acc_pending_consumer (zero_account addr) = 0"
  "acc_pending_industrial (zero_account addr) = 0"
  "acc_pending_nonce (zero_account addr) = 0"
  by (simp_all add: zero_account_def acc_c_def acc_i_def)

lemma credit_with_eq:
  assumes "add_c (tb_consumer (acc_balance (or_insert A addr))) c =
             Inr (tb_consumer (acc_balance (or_insert A addr)) + c)"
    and "add_i (tb_industrial (acc_balance (or_insert A addr))) i =
             Inr (tb_industrial (acc_balance (or_insert A addr)) + i)"
  shows "credit_with add_c add_i addr c i A = (Inr (), A(addr \<mapsto> credited c i (or_insert A addr)))"
  using assms by (simp add: credit_with_def Let_def credited_def)

lemma acc_or_insert [simp]:
  "acc_c (or_insert A addr) = bal_c A addr"
  "acc_i (or_insert A addr) = bal_i A addr"
  by (auto simp: or_insert_def bal_c_def bal_i_def split: option.split)

text \<open>The addition does not overflow: the assumption under which credits are exact.\<close>

definition room :: "accounts \<Rightarrow> string \<Rightarrow> u64 \<Rightarrow> u64 \<Rightarrow> bool" where
  "room A addr c i \<longleftrightarrow> bal_c A addr + unat c < 2 ^ 64 \<and> bal_i A addr + unat i < 2 ^ 64"

lemma roomD:
  assumes "room A addr c i"
  shows "unat (tb_consumer (acc_balance (or_insert A addr))) + unat c < 2 ^ LENGTH(64)"
    and "unat (tb_industrial (acc_balance (or_insert A addr))) + unat i < 2 ^ LENGTH(64)"
  using assms acc_or_insert [of A addr] by (simp_all add: room_def acc_c_def acc_i_def)

lemma credit_eq:
  assumes "room A addr c i"
  shows "credit E addr c i A = (Inr (), A(addr \<mapsto> credited c i (or_insert A addr)))"
  unfolding credit_def using roomD [OF assms]
  by (intro credit_with_eq) (auto intro: u_add_exact)

lemma credit_miner_eq:
  assumes "room A addr c i"
  shows "credit_miner addr c i A = (Inr (), A(addr \<mapsto> credited c i (or_insert A addr)))"
  unfolding credit_miner_def using roomD [OF assms]
  by (intro credit_with_eq) (auto simp: checked_add_expect_def checked_add_Some)

lemma acc_credited:
  assumes "room A addr c i"
  shows "acc_c (credited c i (or_insert A addr)) = bal_c A addr + unat c"
    and "acc_i (credited c i (or_insert A addr)) = bal_i A addr + unat i"
  using roomD [OF assms] acc_or_insert [of A addr]
  by (simp_all add: credited_def unat_add_exact acc_c_def acc_i_def)

lemma credited_simps [simp, acc_simps]:
  "acc_address (credited c i a) = acc_address a"
  "acc_nonce (credited c i a) = acc_nonce a"
  "acc_pending_consumer (credited c i a) = acc_pending_consumer a"
  "acc_pending_industrial (credited c i a) = acc_pending_industrial a"
  "acc_pending_nonce (credited c i a) = acc_pending_nonce a"
  by (simp_all add: credited_def)

text \<open>A balance moved at one address moves the supply by the same amount.\<close>

lemma msum_point:
  assumes "finite (dom A)"
  shows "msum f (A(addr \<mapsto> a)) + (case A addr of None \<Rightarrow> 0 | Some b \<Rightarrow> f b) = msum f A + f a"
  using assms by (cases "A addr") (simp_all add: msum_new msum_upd)

lemma supply_point:
  assumes "finite (dom A)"
  shows "supply_c (A(addr \<mapsto> a)) + bal_c A addr = supply_c A + acc_c a"
    and "supply_i (A(addr \<mapsto> a)) + bal_i A addr = supply_i A + acc_i a"
  using msum_point [OF assms, of acc_c addr a] msum_point [OF assms, of acc_i addr a]
  by (simp_all add: supply_c_def supply_i_def bal_c_def bal_i_def)

lemma bal_le_supply:
  assumes "finite (dom A)"
  shows "bal_c A addr \<le> supply_c A" and "bal_i A addr \<le> supply_i A"
  using msum_ge [OF assms, of addr _ acc_c] msum_ge [OF assms, of addr _ acc_i]
  by (auto simp: bal_c_def bal_i_def supply_c_def supply_i_def split: option.split)

lemma bal_point [simp]:
  "bal_c (A(addr \<mapsto> a)) x = (if x = addr then acc_c a else bal_c A x)"
  "bal_i (A(addr \<mapsto> a)) x = (if x = addr then acc_i a else bal_i A x)"
  by (simp_all add: bal_c_def bal_i_def)

lemma supply_credited:
  assumes "finite (dom A)" and "room A addr c i"
  shows "supply_c (A(addr \<mapsto> credited c i (or_insert A addr))) = supply_c A + unat c"
    and "supply_i (A(addr \<mapsto> credited c i (or_insert A addr))) = supply_i A + unat i"
  using supply_point [OF assms(1), of addr "credited c i (or_insert A addr)"] acc_credited [OF assms(2)]
  by simp_all

section \<open>Loads\<close>

lemma load_simps [simp]:
  "load f addr [] = 0"
  "load f addr (tx # txs) = (if tx_from tx = addr then f tx else 0) + load f addr txs"
  "load f addr (xs @ ys) = load f addr xs + load f addr ys"
  by (simp_all add: load_def)

lemma paid_to_simps [simp]:
  "paid_to f addr [] = 0"
  "paid_to f addr (tx # txs) = (if tx_to tx = addr then f tx else 0) + paid_to f addr txs"
  by (simp_all add: paid_to_def)

lemma load_zero: "(\<And>tx. tx \<in> set txs \<Longrightarrow> tx_from tx \<noteq> addr) \<Longrightarrow> load f addr txs = 0"
  by (induction txs) auto

lemma load_member: "tx \<in> set txs \<Longrightarrow> f tx \<le> load f (tx_from tx) txs"
  by (induction txs) auto

lemma load_perm: "mset xs = mset ys \<Longrightarrow> load f addr xs = load f addr ys"
proof -
  assume "mset xs = mset ys"
  then have "mset (map f (filter (\<lambda>tx. tx_from tx = addr) xs)) =
      mset (map f (filter (\<lambda>tx. tx_from tx = addr) ys))"
    by simp
  then show ?thesis
    unfolding load_def by (metis sum_mset_sum_list)
qed

lemma acc_ok_perm: "mset xs = mset ys \<Longrightarrow> acc_ok xs addr a = acc_ok ys addr a"
  by (simp add: acc_ok_def load_perm [of xs ys])

lemma ledger_inv_perm: "mset xs = mset ys \<Longrightarrow> ledger_inv A xs = ledger_inv A ys"
  by (simp add: ledger_inv_def acc_ok_perm [of xs ys] mset_eq_setD [of xs ys])

lemma ledger_invD:
  assumes "ledger_inv A txs"
  shows "finite (dom A)"
    and "A addr = Some a \<Longrightarrow> acc_ok txs addr a"
    and "tx \<in> set txs \<Longrightarrow> reservable tx"
    and "tx \<in> set txs \<Longrightarrow> \<exists>s. A (tx_from tx) = Some s"
  using assms by (auto simp: ledger_inv_def)

lemma ledger_inv_upd:
  "ledger_inv A txs \<Longrightarrow> acc_ok txs addr a \<Longrightarrow> ledger_inv (A(addr \<mapsto> a)) txs"
  by (auto simp: ledger_inv_def)

lemma acc_ok_credited: "acc_ok txs addr (credited c i (or_insert A addr))"
  if "ledger_inv A txs" and "room A addr c i"
proof (cases "A addr")
  case None
  with that(1) have "load f addr txs = 0" for f
    by (intro load_zero) (auto simp: ledger_inv_def)
  with None show ?thesis by (simp add: acc_ok_def or_insert_def)
next
  case (Some a)
  with that(1) have "acc_ok txs addr a" by (auto simp: ledger_inv_def)
  with Some acc_credited [OF that(2)] show ?thesis
    by (simp add: acc_ok_def or_insert_def bal_c_def bal_i_def acc_c_def acc_i_def)
qed

lemma ledger_inv_credited:
  assumes "ledger_inv A txs" and "room A addr c i"
  shows "ledger_inv (A(addr \<mapsto> credited c i (or_insert A addr))) txs"
  by (rule ledger_inv_upd [OF assms(1) acc_ok_credited [OF assms]])

section \<open>Debiting\<close>

definition debited :: "signed_transaction \<Rightarrow> account \<Rightarrow> account" where
  "debited tx s =
     (let tc = pl_amount_consumer (tx_payload tx) + fee_c tx;
          ti = pl_amount_industrial (tx_payload tx) + fee_i tx
      in (set_industrial (saturating_sub (tb_industrial (acc_balance s)) ti)
           (set_consumer (saturating_sub (tb_consumer (acc_balance s)) tc) s))
         \<lparr>acc_pending_consumer := saturating_sub (acc_pending_consumer s) tc,
          acc_pending_industrial := saturating_sub (acc_pending_industrial s) ti,
          acc_pending_nonce := saturating_sub (acc_pending_nonce s) 1,
          acc_nonce := tx_nonce tx\<rparr>)"

lemma reservableD:
  assumes "reservable tx"
  shows "unat (pl_amount_consumer (tx_payload tx)) + unat (fee_c tx) < 2 ^ LENGTH(64)"
    and "unat (pl_amount_industrial (tx_payload tx)) + unat (fee_i tx) < 2 ^ LENGTH(64)"
    and "unat (pl_amount_consumer (tx_payload tx) + fee_c tx) = tx_total_c tx"
    and "unat (pl_amount_industrial (tx_payload tx) + fee_i tx) = tx_total_i tx"
  using assms by (simp_all add: reservable_def tx_total_c_def tx_total_i_def unat_add_exact)

lemma debit_mined_eq: "reservable tx \<Longrightarrow> debit_mined E tx s = Inr (debited tx s)"
  using reservableD [of tx]
  by (simp add: debit_mined_def debited_def u_add_exact Let_def)

lemma debited_simps:
  assumes "reservable tx"
  shows "acc_address (debited tx s) = acc_address s"
    and "acc_nonce (debited tx s) = tx_nonce tx"
    and "acc_c (debited tx s) = acc_c s - tx_total_c tx"
    and "acc_i (debited tx s) = acc_i s - tx_total_i tx"
    and "unat (acc_pending_consumer (debited tx s)) = unat (acc_pending_consumer s) - tx_total_c tx"
    and "unat (acc_pending_industrial (debited tx s)) = unat (acc_pending_industrial s) - tx_total_i tx"
    and "unat (acc_pending_nonce (debited tx s)) = unat (acc_pending_nonce s) - 1"
  using reservableD(3,4) [OF assms]
  by (simp_all add: debited_def Let_def acc_c_def acc_i_def set_consumer_def set_industrial_def)

lemma acc_ok_debited:
  assumes "acc_ok (tx # txs) (tx_from tx) s" and "reservable tx"
  shows "acc_ok txs (tx_from tx) (debited tx s)"
  using assms debited_simps [OF assms(2), of s]
  by (simp add: acc_ok_def acc_c_def acc_i_def) linarith

lemma acc_ok_backed:
  assumes "acc_ok (tx # txs) (tx_from tx) s"
  shows "tx_total_c tx \<le> acc_c s" and "tx_total_i tx \<le> acc_i s"
  using assms by (simp_all add: acc_ok_def acc_c_def acc_i_def)

lemma ledger_inv_debited:
  assumes "ledger_inv A (tx # txs)" and "A (tx_from tx) = Some s"
  shows "ledger_inv (A(tx_from tx \<mapsto> debited tx s)) txs"
proof -
  have "reservable tx" and "acc_ok (tx # txs) (tx_from tx) s"
    using assms by (auto simp: ledger_inv_def)
  then have "acc_ok txs (tx_from tx) (debited tx s)" by (rule acc_ok_debited [rotated])
  moreover have "acc_ok txs x a" if "x \<noteq> tx_from tx" and "A x = Some a" for x a
    using ledger_invD(2) [OF assms(1) that(2)] that(1) by (auto simp: acc_ok_def)
  ultimately show ?thesis using assms(1) by (auto simp: ledger_inv_def)
qed

section \<open>Settlement\<close>

text \<open>
  The state transition of \<open>CONSENSUS.md\<close> for a list of transactions: every sender loses
  its amounts and fees, every recipient gains the amounts, nonces advance to the last
  transaction of each sender, and the fees are what leaves the accounts.
\<close>

definition amt_c :: "signed_transaction \<Rightarrow> nat" where
  "amt_c tx = unat (pl_amount_consumer (tx_payload tx))"

definition amt_i :: "signed_transaction \<Rightarrow> nat" where
  "amt_i tx = unat (pl_amount_industrial (tx_payload tx))"

definition fees_c :: "signed_transaction list \<Rightarrow> nat" where
  "fees_c txs = sum_list (map (\<lambda>tx. unat (fee_c tx)) txs)"

definition fees_i :: "signed_transaction list \<Rightarrow> nat" where
  "fees_i txs = sum_list (map (\<lambda>tx. unat (fee_i tx)) txs)"

definition nonce_of :: "accounts \<Rightarrow> string \<Rightarrow> u64" where
  "nonce_of A addr = (case A addr of None \<Rightarrow> 0 | Some a \<Rightarrow> acc_nonce a)"

primrec nonce_after :: "u64 \<Rightarrow> string \<Rightarrow> signed_transaction list \<Rightarrow> u64" where
  "nonce_after n addr [] = n"
| "nonce_after n addr (tx # txs) =
     nonce_after (if tx_from tx = addr then tx_nonce tx else n) addr txs"

definition settles :: "accounts \<Rightarrow> signed_transaction list \<Rightarrow> accounts \<Rightarrow> bool" where
  "settles A txs B \<longleftrightarrow>
     (\<forall>x. bal_c B x + load tx_total_c x txs = bal_c A x + paid_to amt_c x txs) \<and>
     (\<forall>x. bal_i B x + load tx_total_i x txs = bal_i A x + paid_to amt_i x txs) \<and>
     (\<forall>x. nonce_of B x = nonce_after (nonce_of A x) x txs) \<and>
     supply_c B + fees_c txs = supply_c A \<and>
     supply_i B + fees_i txs = supply_i A \<and>
     dom B = dom A \<union> tx_to ` set txs"

lemma settles_Nil: "settles A [] A"
  by (simp add: settles_def fees_c_def fees_i_def)

lemma settles_Cons:
  assumes "settles A [tx] B" and "settles B txs C"
  shows "settles A (tx # txs) C"
proof -
  have "bal_c C x + load tx_total_c x (tx # txs) = bal_c A x + paid_to amt_c x (tx # txs)"
    and "bal_i C x + load tx_total_i x (tx # txs) = bal_i A x + paid_to amt_i x (tx # txs)"
    and "nonce_of C x = nonce_after (nonce_of A x) x (tx # txs)" for x
    using assms [unfolded settles_def, THEN conjunct1, THEN spec, of x]
      assms [unfolded settles_def, THEN conjunct2, THEN conjunct1, THEN spec, of x]
      assms [unfolded settles_def, THEN conjunct2, THEN conjunct2, THEN conjunct1, THEN spec, of x]
    by (simp_all split: if_splits)
  with assms show ?thesis
    by (auto simp: settles_def fees_c_def fees_i_def)
qed

lemma settles_transfer:
  assumes inv: "ledger_inv A (tx # txs)" and s: "A (tx_from tx) = Some s"
    and sc: "supply_c A < 2 ^ 64" and si: "supply_i A < 2 ^ 64"
  defines "D \<equiv> A(tx_from tx \<mapsto> debited tx s)"
  defines "c \<equiv> pl_amount_consumer (tx_payload tx)" and "i \<equiv> pl_amount_industrial (tx_payload tx)"
  shows "room D (tx_to tx) c i"
    and "settles A [tx] (D(tx_to tx \<mapsto> credited c i (or_insert D (tx_to tx))))"
proof -
  have fin: "finite (dom A)" and res: "reservable tx" and ok: "acc_ok (tx # txs) (tx_from tx) s"
    using ledger_invD [OF inv] s by auto
  have finD: "finite (dom D)" using fin by (simp add: D_def)
  have tot: "tx_total_c tx = unat c + unat (fee_c tx)" "tx_total_i tx = unat i + unat (fee_i tx)"
    by (simp_all add: tx_total_c_def tx_total_i_def c_def i_def)
  note backed = acc_ok_backed [OF ok]
  have balA: "bal_c A (tx_from tx) = acc_c s" "bal_i A (tx_from tx) = acc_i s"
    using s by (simp_all add: bal_c_def bal_i_def)
  have supD: "supply_c D + tx_total_c tx = supply_c A" "supply_i D + tx_total_i tx = supply_i A"
    using supply_point [OF fin, of "tx_from tx" "debited tx s"] debited_simps [OF res, of s] backed balA
    by (simp_all add: D_def)
  show room: "room D (tx_to tx) c i"
    using bal_le_supply [OF finD, of "tx_to tx"] supD tot sc si by (simp add: room_def)
  note cr = supply_credited [OF finD room] acc_credited [OF room]
  have nz: "nonce_of (D(tx_to tx \<mapsto> credited c i (or_insert D (tx_to tx)))) x = nonce_of D x" for x
    by (simp add: nonce_of_def or_insert_def split: option.split)
  have nD: "nonce_of D x = (if x = tx_from tx then tx_nonce tx else nonce_of A x)" for x
    using debited_simps(2) [OF res] by (simp add: D_def nonce_of_def)
  have bD: "bal_c D x + (if tx_from tx = x then tx_total_c tx else 0) = bal_c A x"
    "bal_i D x + (if tx_from tx = x then tx_total_i tx else 0) = bal_i A x" for x
    using debited_simps [OF res, of s] backed balA by (auto simp: D_def)
  show "settles A [tx] (D(tx_to tx \<mapsto> credited c i (or_insert D (tx_to tx))))"
    unfolding settles_def
  proof (intro conjI allI)
    fix x
    show "bal_c (D(tx_to tx \<mapsto> credited c i (or_insert D (tx_to tx)))) x + load tx_total_c x [tx] =
        bal_c A x + paid_to amt_c x [tx]"
      using bD(1) [of x] cr(3) by (auto simp: amt_c_def c_def)
    show "bal_i (D(tx_to tx \<mapsto> credited c i (or_insert D (tx_to tx)))) x + load tx_total_i x [tx] =
        bal_i A x + paid_to amt_i x [tx]"
      using bD(2) [of x] cr(4) by (auto simp: amt_i_def i_def)
    show "nonce_of (D(tx_to tx \<mapsto> credited c i (or_insert D (tx_to tx)))) x =
        nonce_after (nonce_of A x) x [tx]"
      using nz [of x] nD [of x] by auto
  next
    show "supply_c (D(tx_to tx \<mapsto> credited c i (or_insert D (tx_to tx)))) + fees_c [tx] = supply_c A"
      using cr(1) supD(1) tot(1) by (simp add: fees_c_def)
    show "supply_i (D(tx_to tx \<mapsto> credited c i (or_insert D (tx_to tx)))) + fees_i [tx] = supply_i A"
      using cr(2) supD(2) tot(2) by (simp add: fees_i_def)
    show "dom (D(tx_to tx \<mapsto> credited c i (or_insert D (tx_to tx)))) = dom A \<union> tx_to ` set [tx]"
      using s by (auto simp: D_def)
  qed
qed

lemma apply_mined_tx_ok:
  assumes inv: "ledger_inv A (tx # txs)" and nz: "tx_from tx \<noteq> COINBASE_ADDR"
    and sc: "supply_c A < 2 ^ 64" and si: "supply_i A < 2 ^ 64"
  shows "\<exists>B. apply_mined_tx E tx A = (Inr (), B) \<and> ledger_inv B txs \<and> settles A [tx] B"
proof -
  obtain s where s: "A (tx_from tx) = Some s" using ledger_invD(4) [OF inv] by auto
  have res: "reservable tx" using ledger_invD(3) [OF inv] by simp
  note tr = settles_transfer [OF inv s sc si]
  have "debit_sender E tx A = (Inr (), A(tx_from tx \<mapsto> debited tx s))"
    using s nz by (simp add: debit_sender_def debit_mined_eq [OF res])
  then show ?thesis
    using tr(2) ledger_inv_credited [OF ledger_inv_debited [OF inv s] tr(1)]
    by (auto simp: apply_mined_tx_def credit_eq [OF tr(1)])
qed

lemma apply_mined_txs_ok:
  assumes "ledger_inv A txs" and "\<forall>tx\<in>set txs. tx_from tx \<noteq> COINBASE_ADDR"
    and "supply_c A < 2 ^ 64" and "supply_i A < 2 ^ 64"
  shows "\<exists>B. apply_mined_txs E txs A = (Inr (), B) \<and> ledger_inv B [] \<and> settles A txs B"
  using assms
proof (induction txs arbitrary: A)
  case Nil
  then show ?case by (auto intro: settles_Nil)
next
  case (Cons tx txs)
  from apply_mined_tx_ok [OF Cons.prems(1), of E] Cons.prems(2-4)
  obtain B where B: "apply_mined_tx E tx A = (Inr (), B)" "ledger_inv B txs" "settles A [tx] B"
    by auto
  from B(3) Cons.prems(3,4) have "supply_c B < 2 ^ 64" and "supply_i B < 2 ^ 64"
    by (simp_all add: settles_def)
  with Cons.IH [OF B(2)] Cons.prems(2) obtain C where
    "apply_mined_txs E txs B = (Inr (), C)" "ledger_inv C []" "settles B txs C"
    by auto
  with B settles_Cons [OF B(3)] show ?case by auto
qed

lemma fee_totals_eq: "fee_totals txs = (fees_c txs, fees_i txs)"
proof -
  have "foldl (\<lambda>(c, i) tx.
        case decompose (pl_fee_selector (tx_payload tx)) (pl_fee (tx_payload tx)) of
          Inr (fc, fi) \<Rightarrow> (c + unat fc, i + unat fi)
        | Inl _ \<Rightarrow> (c, i)) (a, b) txs = (a + fees_c txs, b + fees_i txs)" for a b
    by (induction txs arbitrary: a b)
      (auto simp: fees_c_def fees_i_def tx_fees_def split: sum.splits prod.splits)
  then show ?thesis by (simp add: fee_totals_def)
qed

section \<open>Properties\<close>

text \<open>
  The two fee totals of a block split the fees its transactions declare: when every
  fee decomposes, consumer total plus industrial total is the sum of the declared fees.
\<close>

lemma fee_totals_conserve:
  assumes "\<forall>tx\<in>set txs. \<exists>p. decompose (pl_fee_selector (tx_payload tx)) (pl_fee (tx_payload tx)) = Inr p"
  shows "fst (fee_totals txs) + snd (fee_totals txs) =
           sum_list (map (\<lambda>tx. unat (pl_fee (tx_payload tx))) txs)"
proof -
  let ?pairs = "map (\<lambda>tx. (pl_fee_selector (tx_payload tx), pl_fee (tx_payload tx))) txs"
  have "fees_c txs = sum_list (map (\<lambda>(sel, fee). case decompose sel fee of Inr (c, i) \<Rightarrow> unat c | Inl _ \<Rightarrow> 0) ?pairs)"
    "fees_i txs = sum_list (map (\<lambda>(sel, fee). case decompose sel fee of Inr (c, i) \<Rightarrow> unat i | Inl _ \<Rightarrow> 0) ?pairs)"
    unfolding fees_c_def fees_i_def
    by (intro arg_cong [where f = sum_list];
        auto simp: tx_fees_def split: sum.split prod.split)+
  with fee.totals_conserve [of ?pairs] assms show ?thesis
    by (force simp: fee_totals_eq comp_def)
qed

end
