(* ===== verification/Chain.thy ===== *)
theory Chain
  imports Ledger
begin

text \<open>
  Block-level helpers of \<open>src/lib.rs\<close>: the block hash, the fee checksum, the proof-of-work
  measure, the decay of the block reward, and the read-only accessors of \<open>Blockchain\<close>.
\<close>

section \<open>The code\<close>

definition MAX_SUPPLY_CONSUMER :: u64 where "MAX_SUPPLY_CONSUMER = 20000000000000"
definition MAX_SUPPLY_INDUSTRIAL :: u64 where "MAX_SUPPLY_INDUSTRIAL = 20000000000000"
definition INITIAL_BLOCK_REWARD_CONSUMER :: u64 where "INITIAL_BLOCK_REWARD_CONSUMER = 60000"
definition INITIAL_BLOCK_REWARD_INDUSTRIAL :: u64 where "INITIAL_BLOCK_REWARD_INDUSTRIAL = 30000"
definition DECAY_NUMERATOR :: u64 where "DECAY_NUMERATOR = 99995"
definition DECAY_DENOMINATOR :: u64 where "DECAY_DENOMINATOR = 100000"

definition calculate_hash ::
  "env \<Rightarrow> u64 \<Rightarrow> string \<Rightarrow> u64 \<Rightarrow> u64 \<Rightarrow> token_amount \<Rightarrow> token_amount \<Rightarrow> string \<Rightarrow>
   signed_transaction list \<Rightarrow> string" where
  "calculate_hash E index prev nonce difficulty coin_c coin_i fee_checksum txs =
     (let ids = map (tx_id E) txs
      in encoder_hash E
           \<lparr>be_index = index, be_prev = prev, be_nonce = nonce, be_difficulty = difficulty,
            be_coin_c = tok coin_c, be_coin_i = tok coin_i, be_fee_checksum = fee_checksum,
            be_tx_ids = ids\<rparr>)"

text \<open>The hash of a block's own fields, with a given nonce.\<close>

definition block_hash_at :: "env \<Rightarrow> block \<Rightarrow> u64 \<Rightarrow> string" where
  "block_hash_at E b nonce =
     calculate_hash E (blk_index b) (blk_previous_hash b) nonce (blk_difficulty b)
       (blk_coinbase_consumer b) (blk_coinbase_industrial b) (blk_fee_checksum b)
       (blk_transactions b)"

definition fee_checksum :: "env \<Rightarrow> u64 \<Rightarrow> u64 \<Rightarrow> string" where
  "fee_checksum E fc fi =
     (let h = hasher_new;
          h = update h (u64_le fc);
          h = update h (u64_le fi)
      in finalize_hex E h)"

text \<open>\<open>u8::leading_zeros\<close>.\<close>

definition u8_leading_zeros :: "u8 \<Rightarrow> nat" where
  "u8_leading_zeros b = length (takeWhile (\<lambda>i. \<not> bit b i) [7, 6, 5, 4, 3, 2, 1, 0])"

fun leading_zero_bits :: "bytes \<Rightarrow> nat" where
  "leading_zero_bits [] = 0"
| "leading_zero_bits (b # bs) =
     (if b = 0 then 8 + leading_zero_bits bs else u8_leading_zeros b)"

text \<open>\<open>difficulty as u32\<close>, as the number it is compared with.\<close>

definition target_bits :: "u64 \<Rightarrow> nat" where
  "target_bits difficulty = unat (ucast difficulty :: u32)"

definition decay :: "token_amount \<Rightarrow> token_amount" where
  "decay r =
     TokenAmount (ucast ((ucast (tok r) :: u128) * ucast DECAY_NUMERATOR div ucast DECAY_DENOMINATOR))"

definition zero_prev_hash :: string where
  "zero_prev_hash = replicate 64 (CHR ''0'')"

definition circulating_supply :: "blockchain \<Rightarrow> u64 \<times> u64" where
  "circulating_supply s = (bc_emission_consumer s, bc_emission_industrial s)"

definition current_chain_length :: "blockchain \<Rightarrow> nat" where
  "current_chain_length s = length (bc_chain s)"

definition get_account_balance :: "blockchain \<Rightarrow> string \<Rightarrow> error + token_balance" where
  "get_account_balance s address =
     (case bc_accounts s address of
        Some a \<Rightarrow> Inr (acc_balance a)
      | None \<Rightarrow> Inl (ValueError ''Account not found''))"

definition add_account ::
  "string \<Rightarrow> u64 \<Rightarrow> u64 \<Rightarrow> blockchain \<Rightarrow> (blockchain, unit) outcome" where
  "add_account address consumer industrial s =
     (if bc_accounts s address \<noteq> None then (Inl (ValueError ''Account already exists''), s)
      else
        (let acc = \<lparr>acc_address = address,
                    acc_balance = \<lparr>tb_consumer = consumer, tb_industrial = industrial\<rparr>,
                    acc_nonce = 0, acc_pending_consumer = 0, acc_pending_industrial = 0,
                    acc_pending_nonce = 0\<rparr>
         in (Inr (), s\<lparr>bc_accounts := (bc_accounts s)(address \<mapsto> acc)\<rparr>)))"

section \<open>Lemmas\<close>

lemma length_zero_prev_hash [simp]: "length zero_prev_hash = 64"
  by (simp add: zero_prev_hash_def)

lemma leading_zero_bits_le: "leading_zero_bits bs \<le> 8 * length bs"
proof (induction bs rule: leading_zero_bits.induct)
  case (2 b bs)
  have "u8_leading_zeros b \<le> 8"
    unfolding u8_leading_zeros_def by (rule order.trans [OF length_takeWhile_le]) simp
  with 2 show ?case by simp
qed simp

lemma unat_decay: "unat (tok (decay r)) = unat (tok r) * 99995 div 100000"
proof -
  let ?r = "ucast (tok r) :: u128"
  have r: "unat ?r = unat (tok r)" by (rule unat_ucast_u64_u128)
  have b: "unat (tok r) < 2 ^ 64" using unat_bound [of "tok r"] by simp
  have "unat (?r * 99995) = unat (tok r) * 99995"
    using b by (simp add: unat_word_ariths r)
  then have "unat (?r * 99995 div 100000) = unat (tok r) * 99995 div 100000"
    by (simp add: unat_div)
  then show ?thesis
    using b by (simp add: decay_def DECAY_NUMERATOR_def DECAY_DENOMINATOR_def unat_ucast_u128_u64)
qed

lemma decay_le: "decay r \<le> r"
  by (simp add: less_eq_token_amount_def word_le_nat_alt unat_decay)

lemma decay_less: "tok r \<noteq> 0 \<Longrightarrow> decay r < r"
  by (simp add: less_token_amount_def word_less_nat_alt unat_decay unat_gt_0 div_less_iff_less_mult)

lemma wf_block_encoder:
  assumes "blake3_digest_32 E" and "length prev = 64" and "length chk = 64"
  shows "wf_encoder \<lparr>be_index = i, be_prev = prev, be_nonce = n, be_difficulty = d,
     be_coin_c = c, be_coin_i = k, be_fee_checksum = chk, be_tx_ids = map (tx_id E) txs\<rparr>"
  using assms by (auto simp: wf_encoder_def length_tx_id)

section \<open>Properties\<close>

text \<open>The header whose bytes the hash of a block is the digest of.\<close>

definition header_of :: "env \<Rightarrow> block \<Rightarrow> u64 \<Rightarrow> block_encoder" where
  "header_of E b n =
     \<lparr>be_index = blk_index b, be_prev = blk_previous_hash b, be_nonce = n,
      be_difficulty = blk_difficulty b, be_coin_c = tok (blk_coinbase_consumer b),
      be_coin_i = tok (blk_coinbase_industrial b), be_fee_checksum = blk_fee_checksum b,
      be_tx_ids = map (tx_id E) (blk_transactions b)\<rparr>"

lemma block_hash_header: "block_hash_at E b n = encoder_hash E (header_of E b n)"
  by (simp add: block_hash_at_def calculate_hash_def header_of_def Let_def)

lemma wf_header_of:
  assumes "blake3_digest_32 E" and "length (blk_previous_hash b) = 64" and "length (blk_fee_checksum b) = 64"
  shows "wf_encoder (header_of E b n)"
  unfolding header_of_def by (rule wf_block_encoder [OF assms])

text \<open>
  C36: The hash of a block is the digest of bytes that determine its index, previous hash,
  nonce, difficulty, coinbase amounts, fee checksum and the ids of its transactions in order.
\<close>

theorem block_hash_binds:
  assumes "blake3_digest_32 E"
    and "length (blk_previous_hash a) = 64" and "length (blk_fee_checksum a) = 64"
    and "length (blk_previous_hash b) = 64" and "length (blk_fee_checksum b) = 64"
  shows "block_hash_at E a n = to_hex E (blake3 E (encode (header_of E a n) hasher_new)) \<and>
    (encode (header_of E a n) hasher_new = encode (header_of E b m) hasher_new \<longrightarrow>
       blk_index a = blk_index b \<and> blk_previous_hash a = blk_previous_hash b \<and> n = m \<and>
       blk_difficulty a = blk_difficulty b \<and>
       blk_coinbase_consumer a = blk_coinbase_consumer b \<and>
       blk_coinbase_industrial a = blk_coinbase_industrial b \<and>
       blk_fee_checksum a = blk_fee_checksum b \<and>
       map (tx_id E) (blk_transactions a) = map (tx_id E) (blk_transactions b))"
proof -
  have "header_of E a n = header_of E b m"
    if "encode (header_of E a n) hasher_new = encode (header_of E b m) hasher_new"
    using assms that by (intro encode_inject [OF wf_header_of wf_header_of])
  then show ?thesis
    by (auto simp: block_hash_header encoder_hash_def finalize_hex_def header_of_def
        intro: token_amount.expand)
qed

definition sample_block :: block where
  "sample_block =
     \<lparr>blk_index = 0, blk_previous_hash = zero_prev_hash, blk_transactions = [sample_tx],
      blk_difficulty = 0, blk_nonce = 0, blk_hash = '''',
      blk_coinbase_consumer = TokenAmount 5, blk_coinbase_industrial = TokenAmount 6,
      blk_fee_checksum = zero_prev_hash\<rparr>"

lemma sample_block_simps [simp]:
  "blk_index sample_block = 0" "blk_previous_hash sample_block = zero_prev_hash"
  "blk_transactions sample_block = [sample_tx]" "blk_difficulty sample_block = 0"
  by (simp_all add: sample_block_def)

theorem block_hash_binds_witness:
  "encode (header_of (sample_env Debug) sample_block 0) hasher_new \<noteq>
     encode (header_of (sample_env Debug) (sample_block\<lparr>blk_difficulty := 1\<rparr>) 0) hasher_new"
  using block_hash_binds [OF sample_laws(1) [of Debug], of sample_block "sample_block\<lparr>blk_difficulty := 1\<rparr>" 0 0]
  by (auto simp: sample_block_def)

text \<open>
  The block reward decays by exactly 99995/100000, rounded down, on every block: the
  128-bit product never overflows, the reward never grows and strictly shrinks until it is 0.
\<close>

lemma decay_spec:
  "unat (tok (decay r)) = unat (tok r) * 99995 div 100000 \<and> decay r \<le> r \<and>
   (if tok r = 0 then decay r = r else decay r < r)"
proof (cases "tok r = 0")
  case True
  then have "decay r = r" using unat_decay [of r] by (intro token_amount.expand) (simp add: unat_eq_0)
  with True unat_decay [of r] show ?thesis by simp
next
  case False
  with unat_decay [of r] decay_le [of r] decay_less [of r] show ?thesis by simp
qed

text \<open>The bits of a byte, most significant first.\<close>

definition bits_msb :: "u8 \<Rightarrow> bool list" where
  "bits_msb b = map (bit b) [7, 6, 5, 4, 3, 2, 1, 0]"

lemma length_bits_msb [simp]: "length (bits_msb b) = 8"
  by (simp add: bits_msb_def)

lemma bits_msb_zero: "\<not> (\<exists>x\<in>set (bits_msb b). x) \<longleftrightarrow> b = 0"
proof
  assume no: "\<not> (\<exists>x\<in>set (bits_msb b). x)"
  have "\<not> bit b i" for i
  proof (cases "i < 8")
    case True
    then have "i \<in> {7, 6, 5, 4, 3, 2, 1, 0}" by auto
    with no show ?thesis by (auto simp: bits_msb_def)
  next
    case False
    then show ?thesis by (auto dest: bit_imp_le_length)
  qed
  then show "b = 0" by (intro bit_eqI) simp
qed (simp add: bits_msb_def)

lemma u8_leading_zeros_bits: "u8_leading_zeros b = length (takeWhile Not (bits_msb b))"
  unfolding u8_leading_zeros_def bits_msb_def takeWhile_map by (simp add: comp_def)

text \<open>
  C37: The byte-wise count that measures proof of work is the number of leading zero bits
  of the digest read as one string of bits.
\<close>

theorem leading_zero_bits_spec:
  "leading_zero_bits bs = length (takeWhile Not (concat (map bits_msb bs)))"
proof (induction bs rule: leading_zero_bits.induct)
  case 1
  then show ?case by simp
next
  case (2 b bs)
  show ?case
  proof (cases "b = 0")
    case True
    then have no: "\<And>x. x \<in> set (bits_msb b) \<Longrightarrow> Not x" using bits_msb_zero [of b] by blast
    have "takeWhile Not (bits_msb b @ ys) = bits_msb b @ takeWhile Not ys" for ys
      by (rule takeWhile_append2) (rule no)
    with True 2 show ?thesis by simp
  next
    case False
    then obtain x where "x \<in> set (bits_msb b)" "\<not> Not x" using bits_msb_zero [of b] by blast
    with False show ?thesis by (simp add: u8_leading_zeros_bits takeWhile_append1)
  qed
qed

lemma add_account_fresh:
  "bc_accounts s addr = None \<Longrightarrow>
     add_account addr c i s = (Inr (), s\<lparr>bc_accounts := (bc_accounts s)(addr \<mapsto> credited c i (zero_account addr))\<rparr>)"
  by (simp add: add_account_def zero_account_def credited_def set_consumer_def set_industrial_def Let_def)

text \<open>
  \<open>add_account\<close> refuses an address that exists and changes nothing; otherwise it opens
  it with the given balances, and the supply grows by exactly these.
\<close>

lemma add_account_spec:
  assumes "finite (dom (bc_accounts s))"
  shows "if addr \<in> dom (bc_accounts s)
    then add_account addr c i s = (Inl (ValueError ''Account already exists''), s)
    else \<exists>t. add_account addr c i s = (Inr (), t) \<and>
           get_account_balance t addr = Inr \<lparr>tb_consumer = c, tb_industrial = i\<rparr> \<and>
           supply_c (bc_accounts t) = supply_c (bc_accounts s) + unat c \<and>
           supply_i (bc_accounts t) = supply_i (bc_accounts s) + unat i \<and>
           (\<forall>x. x \<noteq> addr \<longrightarrow> bc_accounts t x = bc_accounts s x)"
proof (cases "bc_accounts s addr")
  case None
  let ?a = "credited c i (zero_account addr)"
  have "acc_c ?a = unat c" "acc_i ?a = unat i"
    "acc_balance ?a = \<lparr>tb_consumer = c, tb_industrial = i\<rparr>"
    by (simp_all add: credited_def zero_account_def set_consumer_def set_industrial_def acc_c_def acc_i_def)
  with None supply_point [OF assms, of addr ?a] show ?thesis
    by (auto simp: add_account_fresh get_account_balance_def bal_c_def bal_i_def)
next
  case (Some a)
  then show ?thesis by (auto simp: add_account_def)
qed

definition empty_chain :: "u64 \<Rightarrow> blockchain" where
  "empty_chain difficulty =
     \<lparr>bc_chain = [], bc_accounts = Map.empty, bc_difficulty = difficulty, bc_mempool = [],
      bc_db = \<lparr>db_map = Map.empty\<rparr>, bc_emission_consumer = 0, bc_emission_industrial = 0,
      bc_block_reward_consumer = TokenAmount INITIAL_BLOCK_REWARD_CONSUMER,
      bc_block_reward_industrial = TokenAmount INITIAL_BLOCK_REWARD_INDUSTRIAL,
      bc_block_height = 0\<rparr>"

end
