(* ===== verification/Mempool.thy ===== *)
theory Mempool
  imports Chain
begin

text \<open>
  Admission to and eviction from the mempool: \<open>Blockchain::submit_transaction\<close> and
  \<open>Blockchain::drop_transaction\<close> of \<open>src/lib.rs\<close>. The invariant \<open>mempool_inv\<close> states the
  reservation rules of \<open>docs/ledger_invariants.md\<close>: the pending amounts of an account are
  exactly the sums over its transactions in the mempool (INV-PENDING-003 and -004), and
  they never exceed its balances (INV-PENDING-002).
\<close>

section \<open>The code\<close>

text \<open>The balance test: \<open>||\<close> evaluates the industrial side only after the consumer side passed.\<close>

definition insufficient ::
  "env \<Rightarrow> account \<Rightarrow> signed_transaction \<Rightarrow> u64 \<Rightarrow> u64 \<Rightarrow> error + bool" where
  "insufficient E sender tx fc fi =
     bind_res (u_add (build E) (pl_amount_consumer (tx_payload tx)) fc) (\<lambda>need_c.
       if saturating_sub (tb_consumer (acc_balance sender)) (acc_pending_consumer sender) < need_c
       then Inr True
       else bind_res (u_add (build E) (pl_amount_industrial (tx_payload tx)) fi) (\<lambda>need_i.
         Inr (saturating_sub (tb_industrial (acc_balance sender)) (acc_pending_industrial sender)
                < need_i)))"

definition next_nonce :: "env \<Rightarrow> account \<Rightarrow> error + u64" where
  "next_nonce E sender =
     bind_res (u_add (build E) (acc_nonce sender) (acc_pending_nonce sender)) (\<lambda>n.
       u_add (build E) n 1)"

definition reserve ::
  "env \<Rightarrow> signed_transaction \<Rightarrow> u64 \<Rightarrow> u64 \<Rightarrow> account \<Rightarrow> (account, unit) outcome" where
  "reserve E tx fc fi sender =
     and_then (bind_res (u_add (build E) (pl_amount_consumer (tx_payload tx)) fc)
                 (u_add (build E) (acc_pending_consumer sender)), sender) (\<lambda>v sender.
     let sender = sender\<lparr>acc_pending_consumer := v\<rparr> in
     and_then (bind_res (u_add (build E) (pl_amount_industrial (tx_payload tx)) fi)
                 (u_add (build E) (acc_pending_industrial sender)), sender) (\<lambda>v sender.
     let sender = sender\<lparr>acc_pending_industrial := v\<rparr> in
     and_then (u_add (build E) (acc_pending_nonce sender) 1, sender) (\<lambda>v sender.
     (Inr (), sender\<lparr>acc_pending_nonce := v\<rparr>))))"

definition submit_transaction ::
  "env \<Rightarrow> signed_transaction \<Rightarrow> blockchain \<Rightarrow> (blockchain, unit) outcome" where
  "submit_transaction E tx s =
     (let sender_addr = tx_from tx in
      if map_of (bc_mempool s) (sender_addr, tx_nonce tx) \<noteq> None
      then (Inl (ValueError ''Duplicate transaction''), s)
      else if pl_fee_selector (tx_payload tx) > 2
      then (Inl (ValueError ''Invalid fee selector''), s)
      else case bc_accounts s sender_addr of
        None \<Rightarrow> (Inl (ValueError ''Sender not found''), s)
      | Some sender \<Rightarrow>
      (case decompose (pl_fee_selector (tx_payload tx)) (pl_fee (tx_payload tx)) of
        Inl e \<Rightarrow> (Inl (ValueError (fee_error_message e)), s)
      | Inr (fc, fi) \<Rightarrow>
        and_then (insufficient E sender tx fc fi, s) (\<lambda>short s.
        if short then (Inl (ValueError ''Insufficient balance''), s)
        else and_then (next_nonce E sender, s) (\<lambda>n s.
        if tx_nonce tx \<noteq> n then (Inl (ValueError ''Bad nonce''), s)
        else if \<not> verify_signed_tx E tx
        then (Inl (ValueError ''Signature verification failed''), s)
        else (case reserve E tx fc fi sender of
            (Inl e, sender) \<Rightarrow>
              (Inl e, s\<lparr>bc_accounts := (bc_accounts s)(sender_addr \<mapsto> sender)\<rparr>)
          | (Inr _, sender) \<Rightarrow>
              (Inr (), s\<lparr>bc_accounts := (bc_accounts s)(sender_addr \<mapsto> sender),
                         bc_mempool := AList.update (sender_addr, tx_nonce tx) tx (bc_mempool s)\<rparr>))))))"

definition drop_transaction ::
  "env \<Rightarrow> string \<Rightarrow> u64 \<Rightarrow> blockchain \<Rightarrow> (blockchain, unit) outcome" where
  "drop_transaction E sender nonce s =
     (case map_of (bc_mempool s) (sender, nonce) of
        None \<Rightarrow> (Inl (ValueError ''Transaction not found''), s)
      | Some tx \<Rightarrow>
        (let s = s\<lparr>bc_mempool := AList.delete (sender, nonce) (bc_mempool s)\<rparr> in
         case bc_accounts s sender of
           None \<Rightarrow> (Inr (), s)
         | Some acc \<Rightarrow>
           (case decompose (pl_fee_selector (tx_payload tx)) (pl_fee (tx_payload tx)) of
              Inl _ \<Rightarrow> (Inr (), s)
            | Inr (fc, fi) \<Rightarrow>
              and_then (u_add (build E) (pl_amount_consumer (tx_payload tx)) fc, s) (\<lambda>total_c s.
              and_then (u_add (build E) (pl_amount_industrial (tx_payload tx)) fi, s) (\<lambda>total_i s.
              let acc = acc\<lparr>acc_pending_consumer := saturating_sub (acc_pending_consumer acc) total_c\<rparr>;
                  acc = acc\<lparr>acc_pending_industrial := saturating_sub (acc_pending_industrial acc) total_i\<rparr>;
                  acc = acc\<lparr>acc_pending_nonce := saturating_sub (acc_pending_nonce acc) 1\<rparr>
              in (Inr (), s\<lparr>bc_accounts := (bc_accounts s)(sender \<mapsto> acc)\<rparr>))))))"

section \<open>The reservation invariant\<close>

abbreviation pool_txs :: "blockchain \<Rightarrow> signed_transaction list" where
  "pool_txs s \<equiv> map snd (bc_mempool s)"

definition pool_keys_ok :: "mempool \<Rightarrow> bool" where
  "pool_keys_ok mp \<longleftrightarrow> distinct (map fst mp) \<and> (\<forall>(k, tx)\<in>set mp. k = tx_key tx)"

definition mempool_inv :: "blockchain \<Rightarrow> bool" where
  "mempool_inv s \<longleftrightarrow> pool_keys_ok (bc_mempool s) \<and> ledger_inv (bc_accounts s) (pool_txs s)"

text \<open>
  The sums of one submission stay below \<open>2^64\<close>: what an overflow-checked build enforces
  and what a release build needs its callers to ensure.
\<close>

definition no_wrap :: "account \<Rightarrow> signed_transaction \<Rightarrow> bool" where
  "no_wrap a tx \<longleftrightarrow>
     tx_total_c tx < 2 ^ 64 \<and> tx_total_i tx < 2 ^ 64 \<and>
     unat (acc_nonce a) + unat (acc_pending_nonce a) + 1 < 2 ^ 64"

section \<open>Lemmas on association lists\<close>

lemma pool_update_new:
  "map_of mp k = None \<Longrightarrow> AList.update k v mp = mp @ [(k, v)]"
  by (induction mp) (auto split: if_splits)

lemma pool_keys_ok_Nil [simp]: "pool_keys_ok []"
  by (simp add: pool_keys_ok_def)

lemma pool_keys_ok_snoc:
  assumes "pool_keys_ok mp" and "map_of mp (tx_key tx) = None"
  shows "pool_keys_ok (mp @ [(tx_key tx, tx)])"
  using assms by (auto simp: pool_keys_ok_def map_of_eq_None_iff)

lemma pool_keys_ok_delete: "pool_keys_ok mp \<Longrightarrow> pool_keys_ok (AList.delete k mp)"
  unfolding pool_keys_ok_def
  by (intro conjI distinct_delete) (auto simp: AList.delete_eq)

lemma mset_pool_delete:
  assumes "pool_keys_ok mp" and "map_of mp k = Some tx"
  shows "mset (map snd mp) = mset (tx # map snd (AList.delete k mp))"
  using assms
proof (induction mp)
  case Nil
  then show ?case by simp
next
  case (Cons e mp)
  obtain k' tx' where e: "e = (k', tx')" by (cases e)
  show ?case
  proof (cases "k' = k")
    case True
    with Cons.prems e have "tx' = tx" and "k \<notin> fst ` set mp"
      by (auto simp: pool_keys_ok_def)
    with True e show ?thesis by (simp add: delete_idem)
  next
    case False
    with Cons e show ?thesis by (auto simp: pool_keys_ok_def)
  qed
qed

lemma pool_lookup_key:
  "pool_keys_ok mp \<Longrightarrow> map_of mp k = Some tx \<Longrightarrow> k = tx_key tx"
  by (auto simp: pool_keys_ok_def dest!: map_of_SomeD)

section \<open>Admission\<close>

lemma saturating_room:
  fixes b p n :: u64
  assumes "\<not> saturating_sub b p < n"
  shows "unat p + unat n < 2 ^ 64" and "p \<le> b \<Longrightarrow> unat p + unat n \<le> unat b"
  using assms unat_bound [of b] unat_bound [of p]
  by (auto simp: word_less_nat_alt word_le_nat_alt not_less)

text \<open>
  After the balance and nonce tests nothing in \<open>reserve\<close> can overflow, whatever the build:
  with overflow checks the tests themselves bound the sums, without them nothing panics.
\<close>

definition reserved :: "signed_transaction \<Rightarrow> u64 \<Rightarrow> u64 \<Rightarrow> account \<Rightarrow> account" where
  "reserved tx fc fi a =
     a\<lparr>acc_pending_consumer := acc_pending_consumer a + (pl_amount_consumer (tx_payload tx) + fc),
       acc_pending_industrial := acc_pending_industrial a + (pl_amount_industrial (tx_payload tx) + fi),
       acc_pending_nonce := acc_pending_nonce a + 1\<rparr>"

lemma u_add_Release: "u_add Release a b = Inr (a + b)"
  by (simp add: u_add_def)

lemma insufficient_False:
  assumes "insufficient E a tx fc fi = Inr False"
  shows "u_add (build E) (pl_amount_consumer (tx_payload tx)) fc =
           Inr (pl_amount_consumer (tx_payload tx) + fc)"
    and "u_add (build E) (pl_amount_industrial (tx_payload tx)) fi =
           Inr (pl_amount_industrial (tx_payload tx) + fi)"
    and "\<not> saturating_sub (tb_consumer (acc_balance a)) (acc_pending_consumer a)
           < pl_amount_consumer (tx_payload tx) + fc"
    and "\<not> saturating_sub (tb_industrial (acc_balance a)) (acc_pending_industrial a)
           < pl_amount_industrial (tx_payload tx) + fi"
proof -
  from assms obtain c where c: "u_add (build E) (pl_amount_consumer (tx_payload tx)) fc = Inr c"
    "\<not> saturating_sub (tb_consumer (acc_balance a)) (acc_pending_consumer a) < c"
    and rest: "bind_res (u_add (build E) (pl_amount_industrial (tx_payload tx)) fi) (\<lambda>need_i.
         Inr (saturating_sub (tb_industrial (acc_balance a)) (acc_pending_industrial a) < need_i)) =
         Inr False"
    by (auto simp: insufficient_def elim!: bind_res_InrE split: if_splits)
  from rest obtain i where i: "u_add (build E) (pl_amount_industrial (tx_payload tx)) fi = Inr i"
    "\<not> saturating_sub (tb_industrial (acc_balance a)) (acc_pending_industrial a) < i"
    by (auto elim!: bind_res_InrE)
  from c i u_add_Inr_cases(1) [OF c(1)] u_add_Inr_cases(1) [OF i(1)]
  show "u_add (build E) (pl_amount_consumer (tx_payload tx)) fc =
           Inr (pl_amount_consumer (tx_payload tx) + fc)"
    "u_add (build E) (pl_amount_industrial (tx_payload tx)) fi =
           Inr (pl_amount_industrial (tx_payload tx) + fi)"
    "\<not> saturating_sub (tb_consumer (acc_balance a)) (acc_pending_consumer a)
           < pl_amount_consumer (tx_payload tx) + fc"
    "\<not> saturating_sub (tb_industrial (acc_balance a)) (acc_pending_industrial a)
           < pl_amount_industrial (tx_payload tx) + fi"
    by simp_all
qed

lemma next_nonce_Inr:
  assumes "next_nonce E a = Inr n"
  shows "n = acc_nonce a + acc_pending_nonce a + 1"
    and "build E = Debug \<Longrightarrow> unat (acc_nonce a) + unat (acc_pending_nonce a) + 1 < 2 ^ 64"
proof -
  from assms obtain m where m: "u_add (build E) (acc_nonce a) (acc_pending_nonce a) = Inr m"
    and n: "u_add (build E) m 1 = Inr n"
    by (auto simp: next_nonce_def elim!: bind_res_InrE)
  from u_add_Inr_cases(1) [OF m] u_add_Inr_cases(1) [OF n]
  show "n = acc_nonce a + acc_pending_nonce a + 1" by simp
  show "unat (acc_nonce a) + unat (acc_pending_nonce a) + 1 < 2 ^ 64" if "build E = Debug"
    using m n that by (auto simp: u_add_Debug_iff unat_add_exact)
qed

lemma reserve_total:
  assumes "insufficient E a tx fc fi = Inr False" and "next_nonce E a = Inr n"
  shows "reserve E tx fc fi a = (Inr (), reserved tx fc fi a)"
proof -
  note ins = insufficient_False [OF assms(1)]
  have pc: "u_add (build E) (acc_pending_consumer a) (pl_amount_consumer (tx_payload tx) + fc) =
      Inr (acc_pending_consumer a + (pl_amount_consumer (tx_payload tx) + fc))"
    using saturating_room(1) [OF ins(3)] by (intro u_add_exact) simp
  have pi: "u_add (build E) (acc_pending_industrial a) (pl_amount_industrial (tx_payload tx) + fi) =
      Inr (acc_pending_industrial a + (pl_amount_industrial (tx_payload tx) + fi))"
    using saturating_room(1) [OF ins(4)] by (intro u_add_exact) simp
  have pn: "u_add (build E) (acc_pending_nonce a) 1 = Inr (acc_pending_nonce a + 1)"
  proof (cases "build E")
    case Debug
    from next_nonce_Inr(2) [OF assms(2) Debug] show ?thesis by (intro u_add_exact) simp
  next
    case Release
    then show ?thesis by (simp add: u_add_Release)
  qed
  show ?thesis
    by (simp add: reserve_def ins(1,2) pc pi pn reserved_def Let_def)
qed

text \<open>The effect of an accepted submission.\<close>

definition admit :: "signed_transaction \<Rightarrow> blockchain \<Rightarrow> blockchain" where
  "admit tx s =
     (case bc_accounts s (tx_from tx) of
        None \<Rightarrow> s
      | Some a \<Rightarrow>
          s\<lparr>bc_accounts := (bc_accounts s)(tx_from tx \<mapsto> reserved tx (fee_c tx) (fee_i tx) a),
            bc_mempool := bc_mempool s @ [(tx_key tx, tx)]\<rparr>)"

lemma submit_cases:
  obtains
    (rejected) e where "submit_transaction E tx s = (Inl e, s)"
  | (accepted) a where "submit_transaction E tx s = (Inr (), admit tx s)"
      and "map_of (bc_mempool s) (tx_key tx) = None"
      and "bc_accounts s (tx_from tx) = Some a"
      and "decompose (pl_fee_selector (tx_payload tx)) (pl_fee (tx_payload tx)) =
             Inr (fee_c tx, fee_i tx)"
      and "insufficient E a tx (fee_c tx) (fee_i tx) = Inr False"
      and "next_nonce E a = Inr (tx_nonce tx)"
      and "verify_signed_tx E tx"
proof -
  consider (dup) v where "map_of (bc_mempool s) (tx_key tx) = Some v"
    | (sel) "map_of (bc_mempool s) (tx_key tx) = None" "pl_fee_selector (tx_payload tx) > 2"
    | (nosender) "map_of (bc_mempool s) (tx_key tx) = None" "\<not> pl_fee_selector (tx_payload tx) > 2"
        "bc_accounts s (tx_from tx) = None"
    | (fee) a e where "map_of (bc_mempool s) (tx_key tx) = None"
        "\<not> pl_fee_selector (tx_payload tx) > 2" "bc_accounts s (tx_from tx) = Some a"
        "decompose (pl_fee_selector (tx_payload tx)) (pl_fee (tx_payload tx)) = Inl e"
    | (checks) a where "map_of (bc_mempool s) (tx_key tx) = None"
        "\<not> pl_fee_selector (tx_payload tx) > 2" "bc_accounts s (tx_from tx) = Some a"
        "decompose (pl_fee_selector (tx_payload tx)) (pl_fee (tx_payload tx)) =
           Inr (fee_c tx, fee_i tx)"
    by (cases "map_of (bc_mempool s) (tx_key tx)"; cases "bc_accounts s (tx_from tx)";
        cases "decompose (pl_fee_selector (tx_payload tx)) (pl_fee (tx_payload tx))";
        fastforce simp: tx_fees_def)
  then show ?thesis
  proof cases
    case (checks a)
    show ?thesis
    proof (cases "insufficient E a tx (fee_c tx) (fee_i tx)")
      case (Inl e)
      with checks show ?thesis by (intro rejected) (simp add: submit_transaction_def Let_def case_prod_unfold)
    next
      case ins: (Inr short)
      show ?thesis
      proof (cases "next_nonce E a")
        case (Inl e)
        with checks ins show ?thesis
          by (cases short; intro rejected) (simp_all add: submit_transaction_def Let_def case_prod_unfold)
      next
        case nn: (Inr n)
        show ?thesis
        proof (cases "short \<or> tx_nonce tx \<noteq> n \<or> \<not> verify_signed_tx E tx")
          case True
          with checks ins nn have "\<exists>e. submit_transaction E tx s = (Inl e, s)"
            by (cases short) (auto simp: submit_transaction_def Let_def case_prod_unfold)
          then show ?thesis using rejected by blast
        next
          case False
          with ins nn have ok: "insufficient E a tx (fee_c tx) (fee_i tx) = Inr False"
            "next_nonce E a = Inr (tx_nonce tx)" "verify_signed_tx E tx" by auto
          with checks reserve_total [OF ok(1,2)]
          have "submit_transaction E tx s = (Inr (), admit tx s)"
            by (simp add: submit_transaction_def Let_def case_prod_unfold admit_def pool_update_new)
          with checks ok show ?thesis by (intro accepted)
        qed
      qed
    qed
  qed (simp_all add: rejected submit_transaction_def Let_def case_prod_unfold)
qed

text \<open>Sums that cannot wrap: an overflow-checked build, or a transaction without wrap-around.\<close>

definition exact_sums :: "env \<Rightarrow> account \<Rightarrow> signed_transaction \<Rightarrow> bool" where
  "exact_sums E a tx \<longleftrightarrow> build E = Debug \<or> no_wrap a tx"

lemma accepted_exact:
  assumes "exact_sums E a tx"
    and ins: "insufficient E a tx (fee_c tx) (fee_i tx) = Inr False"
    and nn: "next_nonce E a = Inr (tx_nonce tx)"
  shows "tx_total_c tx < 2 ^ 64" and "tx_total_i tx < 2 ^ 64"
    and "unat (pl_amount_consumer (tx_payload tx) + fee_c tx) = tx_total_c tx"
    and "unat (pl_amount_industrial (tx_payload tx) + fee_i tx) = tx_total_i tx"
    and "unat (tx_nonce tx) = unat (acc_nonce a) + unat (acc_pending_nonce a) + 1"
proof -
  have nw: "no_wrap a tx"
  proof (cases "build E")
    case Debug
    with insufficient_False(1,2) [OF ins] next_nonce_Inr(2) [OF nn] show ?thesis
      by (simp add: no_wrap_def tx_total_c_def tx_total_i_def u_add_Debug_iff)
  next
    case Release
    with assms(1) show ?thesis by (simp add: exact_sums_def)
  qed
  then show t: "tx_total_c tx < 2 ^ 64" "tx_total_i tx < 2 ^ 64" by (simp_all add: no_wrap_def)
  then show "unat (pl_amount_consumer (tx_payload tx) + fee_c tx) = tx_total_c tx"
    "unat (pl_amount_industrial (tx_payload tx) + fee_i tx) = tx_total_i tx"
    by (simp_all add: tx_total_c_def tx_total_i_def unat_add_exact)
  from nw have n: "unat (acc_nonce a) + unat (acc_pending_nonce a) + 1 < 2 ^ LENGTH(64)"
    by (simp add: no_wrap_def)
  then have "unat (acc_nonce a + acc_pending_nonce a) = unat (acc_nonce a) + unat (acc_pending_nonce a)"
    by (intro unat_add_exact) simp
  with n next_nonce_Inr(1) [OF nn] show
    "unat (tx_nonce tx) = unat (acc_nonce a) + unat (acc_pending_nonce a) + 1"
    by (simp add: unat_add_exact)
qed

lemma reserved_simps [simp, acc_simps]:
  "acc_address (reserved tx fc fi a) = acc_address a"
  "acc_balance (reserved tx fc fi a) = acc_balance a"
  "acc_c (reserved tx fc fi a) = acc_c a"
  "acc_i (reserved tx fc fi a) = acc_i a"
  "acc_nonce (reserved tx fc fi a) = acc_nonce a"
  by (simp_all add: reserved_def acc_c_def acc_i_def)

lemma reserved_exact:
  assumes "exact_sums E a tx" and ok: "acc_ok txs (tx_from tx) a"
    and ins: "insufficient E a tx (fee_c tx) (fee_i tx) = Inr False"
    and nn: "next_nonce E a = Inr (tx_nonce tx)"
  shows "unat (acc_pending_consumer (reserved tx (fee_c tx) (fee_i tx) a)) =
           unat (acc_pending_consumer a) + tx_total_c tx"
    and "unat (acc_pending_industrial (reserved tx (fee_c tx) (fee_i tx) a)) =
           unat (acc_pending_industrial a) + tx_total_i tx"
    and "unat (acc_pending_nonce (reserved tx (fee_c tx) (fee_i tx) a)) =
           unat (acc_pending_nonce a) + 1"
    and "unat (acc_pending_consumer a) + tx_total_c tx \<le> acc_c a"
    and "unat (acc_pending_industrial a) + tx_total_i tx \<le> acc_i a"
proof -
  note ex = accepted_exact [OF assms(1) ins nn]
  have le: "acc_pending_consumer a \<le> tb_consumer (acc_balance a)"
    "acc_pending_industrial a \<le> tb_industrial (acc_balance a)"
    using ok by (simp_all add: acc_ok_def word_le_nat_alt)
  note rc = saturating_room [OF insufficient_False(3) [OF ins], unfolded ex(3)]
  note ri = saturating_room [OF insufficient_False(4) [OF ins], unfolded ex(4)]
  show "unat (acc_pending_consumer (reserved tx (fee_c tx) (fee_i tx) a)) =
      unat (acc_pending_consumer a) + tx_total_c tx"
    using rc(1) ex(3) by (simp add: reserved_def unat_add_exact)
  show "unat (acc_pending_industrial (reserved tx (fee_c tx) (fee_i tx) a)) =
      unat (acc_pending_industrial a) + tx_total_i tx"
    using ri(1) ex(4) by (simp add: reserved_def unat_add_exact)
  have "unat (acc_pending_nonce a) + 1 < 2 ^ 64"
    using ex(5) unat_bound [of "tx_nonce tx"] by simp
  then show "unat (acc_pending_nonce (reserved tx (fee_c tx) (fee_i tx) a)) =
      unat (acc_pending_nonce a) + 1"
    by (simp add: reserved_def unat_add_exact)
  show "unat (acc_pending_consumer a) + tx_total_c tx \<le> acc_c a"
    using rc(2) [OF le(1)] by (simp add: acc_c_def)
  show "unat (acc_pending_industrial a) + tx_total_i tx \<le> acc_i a"
    using ri(2) [OF le(2)] by (simp add: acc_i_def)
qed

lemma mempool_inv_admit:
  assumes inv: "mempool_inv s" and new: "map_of (bc_mempool s) (tx_key tx) = None"
    and a: "bc_accounts s (tx_from tx) = Some a"
    and dec: "decompose (pl_fee_selector (tx_payload tx)) (pl_fee (tx_payload tx)) =
      Inr (fee_c tx, fee_i tx)"
    and ins: "insufficient E a tx (fee_c tx) (fee_i tx) = Inr False"
    and nn: "next_nonce E a = Inr (tx_nonce tx)" and ex: "exact_sums E a tx"
  shows "mempool_inv (admit tx s)"
proof -
  let ?r = "reserved tx (fee_c tx) (fee_i tx) a"
  have led: "ledger_inv (bc_accounts s) (pool_txs s)" using inv by (simp add: mempool_inv_def)
  have ok: "acc_ok (pool_txs s) (tx_from tx) a" by (rule ledger_invD(2) [OF led a])
  note r = reserved_exact [OF ex ok ins nn]
  have "acc_ok (pool_txs s @ [tx]) (tx_from tx) ?r"
    using ok r by (simp add: acc_ok_def acc_c_def acc_i_def)
  moreover have "acc_ok (pool_txs s @ [tx]) x b"
    if "x \<noteq> tx_from tx" and "bc_accounts s x = Some b" for x b
    using ledger_invD(2) [OF led that(2)] that(1) by (auto simp: acc_ok_def)
  moreover have "reservable tx"
    using dec accepted_exact(1,2) [OF ex ins nn] by (auto simp: reservable_def)
  ultimately have "ledger_inv ((bc_accounts s)(tx_from tx \<mapsto> ?r)) (pool_txs s @ [tx])"
    using led by (auto simp: ledger_inv_def)
  with inv new a show ?thesis
    by (simp add: mempool_inv_def admit_def pool_keys_ok_snoc)
qed

lemma submit_mempool_inv:
  assumes "mempool_inv s"
    and "\<And>a. bc_accounts s (tx_from tx) = Some a \<Longrightarrow> exact_sums E a tx"
  shows "mempool_inv (snd (submit_transaction E tx s))"
  by (cases rule: submit_cases [of E tx s]) (auto simp: assms intro: mempool_inv_admit)

section \<open>Eviction\<close>

definition released :: "signed_transaction \<Rightarrow> account \<Rightarrow> account" where
  "released tx a =
     a\<lparr>acc_pending_consumer := saturating_sub (acc_pending_consumer a)
         (pl_amount_consumer (tx_payload tx) + fee_c tx),
       acc_pending_industrial := saturating_sub (acc_pending_industrial a)
         (pl_amount_industrial (tx_payload tx) + fee_i tx),
       acc_pending_nonce := saturating_sub (acc_pending_nonce a) 1\<rparr>"

definition evict :: "signed_transaction \<Rightarrow> blockchain \<Rightarrow> blockchain" where
  "evict tx s =
     (case bc_accounts s (tx_from tx) of
        None \<Rightarrow> s
      | Some a \<Rightarrow>
          s\<lparr>bc_accounts := (bc_accounts s)(tx_from tx \<mapsto> released tx a),
            bc_mempool := AList.delete (tx_key tx) (bc_mempool s)\<rparr>)"

lemma drop_cases:
  assumes inv: "mempool_inv s"
  obtains
    (absent) "map_of (bc_mempool s) (sender, nonce) = None"
      and "drop_transaction E sender nonce s = (Inl (ValueError ''Transaction not found''), s)"
  | (dropped) tx a where "map_of (bc_mempool s) (sender, nonce) = Some tx"
      and "tx_key tx = (sender, nonce)" and "bc_accounts s sender = Some a"
      and "drop_transaction E sender nonce s = (Inr (), evict tx s)"
proof (cases "map_of (bc_mempool s) (sender, nonce)")
  case None
  then show ?thesis by (intro absent) (simp_all add: drop_transaction_def)
next
  case (Some tx)
  from inv have keys: "pool_keys_ok (bc_mempool s)"
    and led: "ledger_inv (bc_accounts s) (pool_txs s)"
    by (simp_all add: mempool_inv_def)
  from pool_lookup_key [OF keys Some] have key: "tx_key tx = (sender, nonce)" by simp
  from Some have "tx \<in> set (pool_txs s)" by (force dest: map_of_SomeD)
  with ledger_invD(3,4) [OF led] key obtain a where res: "reservable tx"
    and a: "bc_accounts s sender = Some a" by fastforce
  from res obtain fc fi where
    dec: "decompose (pl_fee_selector (tx_payload tx)) (pl_fee (tx_payload tx)) = Inr (fc, fi)"
    and fees: "tx_fees tx = (fc, fi)"
    by (auto simp: reservable_def tx_fees_def)
  have "drop_transaction E sender nonce s = (Inr (), evict tx s)"
    using Some a dec fees key reservableD(1,2) [OF res]
    by (simp add: drop_transaction_def evict_def released_def u_add_exact Let_def)
  with Some key a show ?thesis by (intro dropped)
qed

lemma acc_ok_released:
  assumes "acc_ok (tx # txs) (tx_from tx) a" and "reservable tx"
  shows "acc_ok txs (tx_from tx) (released tx a)"
  using assms(1) reservableD(3,4) [OF assms(2)]
  by (simp add: acc_ok_def released_def)

lemma mempool_inv_evict:
  assumes inv: "mempool_inv s" and tx: "map_of (bc_mempool s) (tx_key tx) = Some tx"
  shows "mempool_inv (evict tx s)"
proof -
  let ?rest = "map snd (AList.delete (tx_key tx) (bc_mempool s))"
  from inv have keys: "pool_keys_ok (bc_mempool s)" by (simp add: mempool_inv_def)
  with inv mset_pool_delete [OF keys tx] have led: "ledger_inv (bc_accounts s) (tx # ?rest)"
    using ledger_inv_perm by (metis mempool_inv_def)
  from ledger_invD(3,4) [OF led, of tx] obtain a where res: "reservable tx"
    and a: "bc_accounts s (tx_from tx) = Some a" by auto
  have "acc_ok ?rest (tx_from tx) (released tx a)"
    by (rule acc_ok_released [OF ledger_invD(2) [OF led a] res])
  moreover have "acc_ok ?rest x b" if "x \<noteq> tx_from tx" and "bc_accounts s x = Some b" for x b
    using ledger_invD(2) [OF led that(2)] that(1) by (auto simp: acc_ok_def)
  ultimately have "ledger_inv ((bc_accounts s)(tx_from tx \<mapsto> released tx a)) ?rest"
    using led by (auto simp: ledger_inv_def)
  with keys a show ?thesis by (simp add: mempool_inv_def evict_def pool_keys_ok_delete)
qed

lemma drop_mempool_inv:
  assumes "mempool_inv s"
  shows "mempool_inv (snd (drop_transaction E sender nonce s))"
  using assms
  by (cases rule: drop_cases [OF assms, of sender nonce E]) (auto intro: mempool_inv_evict)

lemma add_account_mempool_inv:
  assumes "mempool_inv s"
  shows "mempool_inv (snd (add_account addr c i s))"
proof (cases "bc_accounts s addr")
  case None
  from assms have led: "ledger_inv (bc_accounts s) (pool_txs s)" by (simp add: mempool_inv_def)
  with None have "load f addr (pool_txs s) = 0" for f
    by (intro load_zero) (auto simp: ledger_inv_def)
  with None assms show ?thesis
    unfolding mempool_inv_def
    by (intro conjI ledger_inv_upd) (auto simp: add_account_def Let_def acc_ok_def intro!: ledger_inv_upd)
next
  case (Some a)
  with assms show ?thesis by (simp add: add_account_def)
qed

section \<open>Properties\<close>

text \<open>
  The client's view of an acceptable submission, first with sums of natural numbers, then
  with the sums as the build computes them: exactly when overflow is checked, modulo
  \<open>2^64\<close> in a release build.
\<close>

definition admissible :: "env \<Rightarrow> signed_transaction \<Rightarrow> blockchain \<Rightarrow> bool" where
  "admissible E tx s \<longleftrightarrow>
     map_of (bc_mempool s) (tx_key tx) = None \<and>
     pl_fee_selector (tx_payload tx) \<le> 2 \<and> unat (pl_fee (tx_payload tx)) < 2 ^ 63 \<and>
     (case bc_accounts s (tx_from tx) of
        None \<Rightarrow> False
      | Some a \<Rightarrow>
          unat (acc_pending_consumer a) + tx_total_c tx \<le> acc_c a \<and>
          unat (acc_pending_industrial a) + tx_total_i tx \<le> acc_i a \<and>
          unat (tx_nonce tx) = unat (acc_nonce a) + unat (acc_pending_nonce a) + 1) \<and>
     verify_signed_tx E tx"

definition as_built :: "env \<Rightarrow> nat \<Rightarrow> nat" where
  "as_built E n = (case build E of Debug \<Rightarrow> n | Release \<Rightarrow> n mod 2 ^ 64)"

definition accepts :: "env \<Rightarrow> signed_transaction \<Rightarrow> blockchain \<Rightarrow> bool" where
  "accepts E tx s \<longleftrightarrow>
     map_of (bc_mempool s) (tx_key tx) = None \<and>
     pl_fee_selector (tx_payload tx) \<le> 2 \<and> unat (pl_fee (tx_payload tx)) < 2 ^ 63 \<and>
     (case bc_accounts s (tx_from tx) of
        None \<Rightarrow> False
      | Some a \<Rightarrow>
          unat (acc_pending_consumer a) + as_built E (tx_total_c tx) \<le> acc_c a \<and>
          unat (acc_pending_industrial a) + as_built E (tx_total_i tx) \<le> acc_i a \<and>
          unat (tx_nonce tx) = as_built E (unat (acc_nonce a) + unat (acc_pending_nonce a) + 1)) \<and>
     verify_signed_tx E tx"

lemma as_built_id: "n < 2 ^ 64 \<Longrightarrow> as_built E n = n"
  by (simp add: as_built_def split: profile.split)

lemma as_built_Suc: "as_built E (as_built E n + 1) = as_built E (n + 1)"
  by (simp add: as_built_def mod_Suc_eq split: profile.split)

lemma u_add_as_built:
  fixes a b v :: u64
  shows "u_add (build E) a b = Inr v \<longleftrightarrow>
    v = a + b \<and> unat v = as_built E (unat a + unat b)"
  by (auto simp: u_add_def as_built_def unat_word_ariths unat_add_exact split: profile.split)

lemma u_add_as_built_exact:
  fixes a b :: u64
  assumes "as_built E (unat a + unat b) < 2 ^ 64"
  shows "u_add (build E) a b = Inr (a + b)"
  using assms by (auto simp: u_add_def as_built_def split: profile.split)

lemma next_nonce_iff:
  "next_nonce E a = Inr n \<longleftrightarrow>
     unat n = as_built E (unat (acc_nonce a) + unat (acc_pending_nonce a) + 1)"
proof
  assume "next_nonce E a = Inr n"
  then show "unat n = as_built E (unat (acc_nonce a) + unat (acc_pending_nonce a) + 1)"
    using as_built_Suc [of E] by (auto simp: next_nonce_def u_add_as_built elim!: bind_res_InrE)
next
  let ?k = "unat (acc_nonce a) + unat (acc_pending_nonce a)"
  assume n: "unat n = as_built E (?k + 1)"
  then have lt: "as_built E (?k + 1) < 2 ^ 64" using unat_bound [of n] by simp
  then have "as_built E ?k < 2 ^ 64" by (auto simp: as_built_def split: profile.splits)
  then have m: "u_add (build E) (acc_nonce a) (acc_pending_nonce a) = Inr (acc_nonce a + acc_pending_nonce a)"
    by (rule u_add_as_built_exact)
  then have um: "unat (acc_nonce a + acc_pending_nonce a) = as_built E ?k" by (simp add: u_add_as_built)
  have "as_built E (unat (acc_nonce a + acc_pending_nonce a) + unat (1 :: u64)) = as_built E (?k + 1)"
    unfolding um by (simp only: unat_1 as_built_Suc)
  with lt n have "u_add (build E) (acc_nonce a + acc_pending_nonce a) 1 = Inr n"
    using u_add_as_built_exact [of E "acc_nonce a + acc_pending_nonce a" 1]
    by (simp add: u_add_as_built word_unat_eq_iff)
  with m show "next_nonce E a = Inr n" by (simp add: next_nonce_def)
qed

lemma admissible_accepts:
  assumes "admissible E tx s"
  shows "accepts E tx s"
proof -
  from assms obtain a where a: "bc_accounts s (tx_from tx) = Some a"
    and le: "unat (acc_pending_consumer a) + tx_total_c tx \<le> acc_c a"
      "unat (acc_pending_industrial a) + tx_total_i tx \<le> acc_i a"
    and n: "unat (tx_nonce tx) = unat (acc_nonce a) + unat (acc_pending_nonce a) + 1"
    by (auto simp: admissible_def split: option.splits)
  have "acc_c a < 2 ^ 64" "acc_i a < 2 ^ 64"
    using unat_bound [of "tb_consumer (acc_balance a)"] unat_bound [of "tb_industrial (acc_balance a)"]
    by (simp_all add: acc_c_def acc_i_def)
  with le have "as_built E (tx_total_c tx) = tx_total_c tx" "as_built E (tx_total_i tx) = tx_total_i tx"
    by (simp_all add: as_built_id)
  moreover have "as_built E (unat (tx_nonce tx)) = unat (tx_nonce tx)"
    using unat_bound [of "tx_nonce tx"] by (simp add: as_built_id)
  ultimately show ?thesis using assms a n by (simp add: admissible_def accepts_def)
qed

lemma accepts_admissible:
  assumes "\<forall>a. bc_accounts s (tx_from tx) = Some a \<longrightarrow> exact_sums E a tx"
  shows "accepts E tx s \<longleftrightarrow> admissible E tx s"
proof
  assume acc: "accepts E tx s"
  then obtain a where a: "bc_accounts s (tx_from tx) = Some a" by (auto simp: accepts_def split: option.splits)
  with assms have "exact_sums E a tx" by blast
  then have "as_built E (tx_total_c tx) = tx_total_c tx" "as_built E (tx_total_i tx) = tx_total_i tx"
    "as_built E (unat (acc_nonce a) + unat (acc_pending_nonce a) + 1) =
       unat (acc_nonce a) + unat (acc_pending_nonce a) + 1"
    by (auto simp: exact_sums_def no_wrap_def as_built_def split: profile.split)
  with acc a show "admissible E tx s" by (simp add: admissible_def accepts_def)
qed (rule admissible_accepts)

lemma selector_le_2: "sel \<le> 2 \<longleftrightarrow> sel \<in> {0, 1, 2 :: u8}"
proof -
  have "unat sel = 0 \<longleftrightarrow> sel = 0" "unat sel = 1 \<longleftrightarrow> sel = 1" "unat sel = 2 \<longleftrightarrow> sel = 2"
    by (simp_all add: word_unat_eq_iff)
  moreover have "sel \<le> 2 \<longleftrightarrow> unat sel \<le> 2" by (simp add: word_le_nat_alt)
  ultimately show ?thesis by simp linarith
qed

lemma decompose_ok_iff:
  "decompose (pl_fee_selector (tx_payload tx)) (pl_fee (tx_payload tx)) = Inr (fee_c tx, fee_i tx) \<longleftrightarrow>
     pl_fee_selector (tx_payload tx) \<le> 2 \<and> unat (pl_fee (tx_payload tx)) < 2 ^ 63"
proof (cases "decompose (pl_fee_selector (tx_payload tx)) (pl_fee (tx_payload tx))")
  case (Inl e)
  with decompose_Inr_iff [of "pl_fee_selector (tx_payload tx)" "pl_fee (tx_payload tx)"]
  show ?thesis by (auto simp: selector_le_2)
next
  case (Inr p)
  then have "tx_fees tx = p" by (simp add: tx_fees_def)
  with Inr decompose_Inr_iff [of "pl_fee_selector (tx_payload tx)" "pl_fee (tx_payload tx)"]
  show ?thesis by (simp add: selector_le_2)
qed

lemma pool_delete_new: "map_of mp k = None \<Longrightarrow> AList.delete k (mp @ [(k, v)]) = mp"
  by (induction mp) (auto split: if_splits)

lemma balance_test_passes:
  fixes b p :: u64
  assumes "unat p + t \<le> unat b" and "unat n = t"
  shows "\<not> saturating_sub b p < n"
  using assms by (simp add: word_less_nat_alt)

lemma accepts_accepted:
  assumes "accepts E tx s"
  shows "submit_transaction E tx s = (Inr (), admit tx s)"
proof -
  from assms obtain a where new: "map_of (bc_mempool s) (tx_key tx) = None"
    and sel: "pl_fee_selector (tx_payload tx) \<le> 2"
    and fee: "unat (pl_fee (tx_payload tx)) < 2 ^ 63"
    and a: "bc_accounts s (tx_from tx) = Some a"
    and bc: "unat (acc_pending_consumer a) + as_built E (tx_total_c tx) \<le> unat (tb_consumer (acc_balance a))"
    and bi: "unat (acc_pending_industrial a) + as_built E (tx_total_i tx) \<le> unat (tb_industrial (acc_balance a))"
    and nn: "unat (tx_nonce tx) = as_built E (unat (acc_nonce a) + unat (acc_pending_nonce a) + 1)"
    and sig: "verify_signed_tx E tx"
    by (auto simp: accepts_def acc_c_def acc_i_def split: option.splits)
  have dec: "decompose (pl_fee_selector (tx_payload tx)) (pl_fee (tx_payload tx)) =
      Inr (fee_c tx, fee_i tx)"
    using sel fee by (simp only: decompose_ok_iff)
  have "as_built E (tx_total_c tx) < 2 ^ 64" "as_built E (tx_total_i tx) < 2 ^ 64"
    using bc bi unat_bound [of "tb_consumer (acc_balance a)"] unat_bound [of "tb_industrial (acc_balance a)"]
    by simp_all
  then have add: "u_add (build E) (pl_amount_consumer (tx_payload tx)) (fee_c tx) =
      Inr (pl_amount_consumer (tx_payload tx) + fee_c tx)"
    "u_add (build E) (pl_amount_industrial (tx_payload tx)) (fee_i tx) =
      Inr (pl_amount_industrial (tx_payload tx) + fee_i tx)"
    by (simp_all add: tx_total_c_def tx_total_i_def u_add_as_built_exact)
  then have u: "unat (pl_amount_consumer (tx_payload tx) + fee_c tx) = as_built E (tx_total_c tx)"
    "unat (pl_amount_industrial (tx_payload tx) + fee_i tx) = as_built E (tx_total_i tx)"
    by (simp_all add: u_add_as_built tx_total_c_def tx_total_i_def)
  have ins: "insufficient E a tx (fee_c tx) (fee_i tx) = Inr False"
    using balance_test_passes [OF bc u(1)] balance_test_passes [OF bi u(2)]
    by (simp add: insufficient_def add)
  have nx: "next_nonce E a = Inr (tx_nonce tx)"
    using nn next_nonce_iff by metis
  show ?thesis
    using new a dec ins nx sig sel reserve_total [OF ins nx]
    by (simp add: submit_transaction_def Let_def case_prod_unfold admit_def pool_update_new not_less)
qed

lemma admissible_accepted:
  "admissible E tx s \<Longrightarrow> submit_transaction E tx s = (Inr (), admit tx s)"
  by (rule accepts_accepted [OF admissible_accepts])

lemma accepted_accepts:
  assumes inv: "mempool_inv s" and ok: "fst (submit_transaction E tx s) = Inr ()"
  shows "accepts E tx s"
proof (cases rule: submit_cases [of E tx s])
  case (accepted a)
  have aok: "acc_ok (pool_txs s) (tx_from tx) a"
    using inv ledger_invD(2) accepted(3) by (auto simp: mempool_inv_def)
  then have p: "acc_pending_consumer a \<le> tb_consumer (acc_balance a)"
    "acc_pending_industrial a \<le> tb_industrial (acc_balance a)"
    by (simp_all add: acc_ok_def word_le_nat_alt)
  note ins = insufficient_False [OF accepted(5)]
  from ins(1,2) have u: "unat (pl_amount_consumer (tx_payload tx) + fee_c tx) = as_built E (tx_total_c tx)"
    "unat (pl_amount_industrial (tx_payload tx) + fee_i tx) = as_built E (tx_total_i tx)"
    by (simp_all add: u_add_as_built tx_total_c_def tx_total_i_def)
  have "unat (acc_pending_consumer a) + as_built E (tx_total_c tx) \<le> acc_c a"
    "unat (acc_pending_industrial a) + as_built E (tx_total_i tx) \<le> acc_i a"
    using saturating_room(2) [OF ins(3) p(1)] saturating_room(2) [OF ins(4) p(2)] u
    by (simp_all add: acc_c_def acc_i_def)
  moreover have "unat (tx_nonce tx) = as_built E (unat (acc_nonce a) + unat (acc_pending_nonce a) + 1)"
    using accepted(6) next_nonce_iff by metis
  moreover have "pl_fee_selector (tx_payload tx) \<le> 2 \<and> unat (pl_fee (tx_payload tx)) < 2 ^ 63"
    using accepted(4) by (simp only: decompose_ok_iff)
  ultimately show ?thesis using accepted by (simp add: accepts_def)
qed (use ok in simp)

text \<open>
  C10: Admission to the mempool, in both builds: a transaction is accepted exactly when its
  nonce slot is free, its fee is valid, its sender exists, its signature verifies, the
  balances not yet reserved cover amounts plus fees on both sides, and its nonce is the next
  one after the pending ones, where the build computes the sums: exactly with overflow
  checks, modulo \<open>2^64\<close> in a release build. If so it is added to the mempool and its totals
  to the sender's reservation; if not, the state is unchanged. Where no sum wraps, the
  condition is the one on exact sums.
\<close>

theorem submit_spec:
  assumes "mempool_inv s"
  shows "(if accepts E tx s then submit_transaction E tx s = (Inr (), admit tx s)
          else \<exists>e. submit_transaction E tx s = (Inl e, s)) \<and>
    ((\<forall>a. bc_accounts s (tx_from tx) = Some a \<longrightarrow> exact_sums E a tx) \<longrightarrow>
       accepts E tx s = admissible E tx s)"
proof (intro conjI impI)
  show "if accepts E tx s then submit_transaction E tx s = (Inr (), admit tx s)
      else \<exists>e. submit_transaction E tx s = (Inl e, s)"
    by (cases rule: submit_cases [of E tx s])
      (use accepts_accepted accepted_accepts [OF assms] in auto)
qed (simp add: accepts_admissible)

text \<open>
  A rejected submission changes nothing, in any state and in any build profile: no
  reservation is left behind by an error or by an overflow panic part-way.
\<close>

lemma submit_rejection_atomic:
  assumes "fst (submit_transaction E tx s) = Inl e"
  shows "snd (submit_transaction E tx s) = s"
  by (cases rule: submit_cases [of E tx s]) (use assms in auto)

text \<open>
  C22: Submission keeps the mempool invariant as long as no sum wraps around, which an
  overflow-checked build ensures itself and which in a release build is a condition on the
  transaction (amounts plus fees and the next nonce stay below \<open>2^64\<close>): the pending amounts and the pending count of
  every account stay the sums over its transactions in the mempool, and no account ever
  reserves more than it owns (INV-PENDING-002, -003, -004).
\<close>

theorem submit_preserves_mempool_inv:
  assumes "mempool_inv s"
    and "\<forall>a. bc_accounts s (tx_from tx) = Some a \<longrightarrow> exact_sums E a tx"
  shows "mempool_inv (snd (submit_transaction E tx s))"
  using assms by (intro submit_mempool_inv) auto

text \<open>
  C24: Dropping a transaction right after its submission undoes it: the whole state is what
  it was. Again no sum may wrap in a release build.
\<close>

theorem drop_undoes_submit:
  assumes inv: "mempool_inv s"
    and ex: "\<forall>a. bc_accounts s (tx_from tx) = Some a \<longrightarrow> exact_sums E a tx"
    and ok: "submit_transaction E tx s = (Inr (), t)"
  shows "drop_transaction E (tx_from tx) (tx_nonce tx) t = (Inr (), s)"
proof (cases rule: submit_cases [of E tx s])
  case (accepted a)
  let ?r = "reserved tx (fee_c tx) (fee_i tx) a"
  from accepted(1) ok have t: "t = admit tx s" by simp
  from accepted(2) have key: "map_of (bc_mempool t) (tx_key tx) = Some tx"
    and del: "AList.delete (tx_key tx) (bc_mempool t) = bc_mempool s"
    unfolding t admit_def using accepted(3)
    by (simp_all add: map_add_def pool_delete_new)
  have a: "exact_sums E a tx" using ex accepted(3) by blast
  have aok: "acc_ok (pool_txs s) (tx_from tx) a"
    using inv ledger_invD(2) accepted(3) by (auto simp: mempool_inv_def)
  note r = reserved_exact [OF a aok accepted(5,6)] accepted_exact [OF a accepted(5,6)]
  have "released tx ?r = a"
  proof (rule account.equality)
    show "acc_pending_consumer (released tx ?r) = acc_pending_consumer a"
      "acc_pending_industrial (released tx ?r) = acc_pending_industrial a"
      "acc_pending_nonce (released tx ?r) = acc_pending_nonce a"
      using r by (simp_all add: released_def word_unat_eq_iff)
  qed (simp_all add: released_def reserved_def)
  then have ev: "evict tx t = s"
    using del accepted(3) unfolding t
    by (cases s) (simp add: evict_def admit_def fun_upd_idem)
  have "mempool_inv t"
    unfolding t by (rule mempool_inv_admit [OF inv accepted(2-6) a])
  then show ?thesis
    by (rule drop_cases [of t "tx_from tx" "tx_nonce tx" E]) (use key ev in auto)
qed (use ok in simp)

text \<open>
  C23: Under the mempool invariant, dropping a transaction removes it from the mempool,
  releases exactly its totals and one nonce from its sender, leaves every balance, nonce,
  other account and other part of the state alone, and keeps the invariant; a transaction
  that is not in the mempool is an error without effect.
\<close>

theorem drop_spec:
  assumes inv: "mempool_inv s"
  shows "case map_of (bc_mempool s) (sender, nonce) of
      None \<Rightarrow> drop_transaction E sender nonce s = (Inl (ValueError ''Transaction not found''), s)
    | Some tx \<Rightarrow>
        (\<exists>t a b. drop_transaction E sender nonce s = (Inr (), t) \<and> mempool_inv t \<and>
          t = s\<lparr>bc_accounts := (bc_accounts s)(sender \<mapsto> b),
                bc_mempool := AList.delete (sender, nonce) (bc_mempool s)\<rparr> \<and>
          bc_accounts s sender = Some a \<and> acc_address b = acc_address a \<and>
          acc_balance b = acc_balance a \<and> acc_nonce b = acc_nonce a \<and>
          unat (acc_pending_consumer b) + tx_total_c tx = unat (acc_pending_consumer a) \<and>
          unat (acc_pending_industrial b) + tx_total_i tx = unat (acc_pending_industrial a) \<and>
          unat (acc_pending_nonce b) + 1 = unat (acc_pending_nonce a))"
proof (rule drop_cases [OF inv, of sender nonce E], goal_cases absent dropped)
  case absent
  then show ?thesis by simp
next
  case (dropped tx a)
  let ?rest = "map snd (AList.delete (sender, nonce) (bc_mempool s))"
  from inv have keys: "pool_keys_ok (bc_mempool s)" by (simp add: mempool_inv_def)
  with inv mset_pool_delete [OF keys dropped(1)] have led: "ledger_inv (bc_accounts s) (tx # ?rest)"
    using ledger_inv_perm by (metis mempool_inv_def)
  have res: "reservable tx" and aok: "acc_ok (tx # ?rest) sender a"
    using ledger_invD(3) [OF led, of tx] ledger_invD(2) [OF led dropped(3)] by auto
  have "mempool_inv (evict tx s)"
    using mempool_inv_evict [OF inv, of tx] dropped(1,2) by simp
  moreover have "unat (acc_pending_consumer (released tx a)) + tx_total_c tx = unat (acc_pending_consumer a)"
    "unat (acc_pending_industrial (released tx a)) + tx_total_i tx = unat (acc_pending_industrial a)"
    "unat (acc_pending_nonce (released tx a)) + 1 = unat (acc_pending_nonce a)"
    using reservableD(3,4) [OF res] aok dropped(2) by (simp_all add: released_def acc_ok_def)
  moreover have "acc_address (released tx a) = acc_address a" "acc_balance (released tx a) = acc_balance a"
    "acc_nonce (released tx a) = acc_nonce a" by (simp_all add: released_def)
  ultimately show ?thesis
    using dropped by (auto simp: evict_def)
qed

text \<open>
  C28: The test of the balance adds the fee to the amount with the build's \<open>+\<close>. A consumer
  amount of \<open>2^64 - 1\<close> with a fee of 1 needs \<open>2^64\<close> units, which no account has: an
  overflow-checked build panics and changes nothing, but a release build wraps to 0 and
  admits the transaction from an account of any balance, leaving a mempool that its
  reservations do not back.
\<close>

theorem submit_amount_fee_overflow:
  assumes "bc_accounts s (tx_from tx) = Some a" and "map_of (bc_mempool s) (tx_key tx) = None"
    and "pl_amount_consumer (tx_payload tx) = - 1" and "pl_amount_industrial (tx_payload tx) = 0"
    and "pl_fee (tx_payload tx) = 1" and "pl_fee_selector (tx_payload tx) = 0"
    and "unat (tx_nonce tx) = unat (acc_nonce a) + unat (acc_pending_nonce a) + 1"
    and "verify_signed_tx E tx"
  shows "case build E of
      Debug \<Rightarrow> \<exists>msg. submit_transaction E tx s = (Inl (Panic msg), s)
    | Release \<Rightarrow> submit_transaction E tx s = (Inr (), admit tx s) \<and> \<not> mempool_inv (admit tx s)"
proof -
  have dec: "decompose 0 1 = Inr (1 :: u64, 0 :: u64)" by (simp add: decompose_eq)
  then have fees: "tx_fees tx = (1, 0)" using assms(5,6) by (simp add: tx_fees_def)
  have sum: "unat (- 1 :: u64) + unat (1 :: u64) = 2 ^ 64"
    by (simp add: unsigned_minus_1_eq_mask mask_eq_exp_minus_1)
  show ?thesis
  proof (cases "build E")
    case Debug
    have "\<exists>msg. u_add Debug (- 1 :: u64) 1 = Inl (Panic msg)"
      by (simp add: u_add_def unsigned_minus_1_eq_mask mask_eq_exp_minus_1)
    with Debug assms dec show ?thesis
      by (auto simp: submit_transaction_def insufficient_def Let_def)
  next
    case Release
    have "unat (acc_nonce a) + unat (acc_pending_nonce a) + 1 < 2 ^ LENGTH(64)"
      using assms(7) unat_bound [of "tx_nonce tx"] by simp
    then have "acc_nonce a + acc_pending_nonce a + 1 = tx_nonce tx"
      using assms(7) by (simp add: word_unat_eq_iff unat_add_exact)
    with Release have nx: "next_nonce E a = Inr (tx_nonce tx)"
      by (simp add: next_nonce_def u_add_Release)
    have ins: "insufficient E a tx 1 0 = Inr False"
      using Release assms(3,4) by (simp add: insufficient_def u_add_Release)
    have "submit_transaction E tx s = (Inr (), admit tx s)"
      using assms dec nx ins reserve_total [OF ins nx]
      by (simp add: submit_transaction_def Let_def admit_def fees pool_update_new)
    moreover have "\<not> reservable tx"
      using sum by (simp add: reservable_def tx_total_c_def fees assms(3))
    then have "\<not> mempool_inv (admit tx s)"
      using assms(1) by (auto simp: mempool_inv_def ledger_inv_def admit_def)
    ultimately show ?thesis using Release by simp
  qed
qed

text \<open>
  C39: The public key of a transaction is not tied to its sender. Whoever signs a payload with
  any 32-byte key has it admitted, provided only that the named sender can afford it and
  the nonce is right: the funds of every account can be spent by anyone.
\<close>

theorem any_key_spends:
  assumes "ed25519_correct E" and "length sk = 32"
    and "map_of (bc_mempool s) (pl_from p, pl_nonce p) = None" and "bc_accounts s (pl_from p) = Some a"
    and "decompose (pl_fee_selector p) (pl_fee p) = Inr (fc, fi)"
    and "unat (acc_pending_consumer a) + unat (pl_amount_consumer p) + unat fc \<le> acc_c a"
    and "unat (acc_pending_industrial a) + unat (pl_amount_industrial p) + unat fi \<le> acc_i a"
    and "unat (pl_nonce p) = unat (acc_nonce a) + unat (acc_pending_nonce a) + 1"
  shows "\<exists>tx. sign_tx_py E sk p = Inr tx \<and> tx_payload tx = p \<and>
    submit_transaction E tx s = (Inr (), admit tx s)"
proof -
  from sign_tx_verifies [OF assms(1,2), of p] obtain tx where tx: "sign_tx E sk p = Some tx"
    "tx_payload tx = p" "verify_signed_tx E tx" by blast
  have fees: "fee_c tx = fc" "fee_i tx = fi" using tx(2) assms(5) by (simp_all add: tx_fees_def)
  have "pl_fee_selector p \<le> 2 \<and> unat (pl_fee p) < 2 ^ 63"
    using decompose_ok_iff [of tx] tx(2) assms(5) fees by simp
  then have "admissible E tx s"
    using assms tx fees by (simp add: admissible_def tx_total_c_def tx_total_i_def)
  from admissible_accepted [OF this] tx show ?thesis by (auto simp: sign_tx_py_def)
qed

section \<open>The properties at a concrete state\<close>

definition sample_chain :: blockchain where
  "sample_chain =
     (empty_chain 0)\<lparr>bc_accounts := [''alice'' \<mapsto> credited 100 100 (zero_account ''alice'')]\<rparr>"

lemma sample_chain_simps [simp]:
  "bc_accounts sample_chain = [''alice'' \<mapsto> credited 100 100 (zero_account ''alice'')]"
  "bc_mempool sample_chain = []" "bc_chain sample_chain = []" "bc_difficulty sample_chain = 0"
  "bc_block_height sample_chain = 0"
  "bc_emission_consumer sample_chain = 0" "bc_emission_industrial sample_chain = 0"
  "bc_block_reward_consumer sample_chain = TokenAmount INITIAL_BLOCK_REWARD_CONSUMER"
  "bc_block_reward_industrial sample_chain = TokenAmount INITIAL_BLOCK_REWARD_INDUSTRIAL"
  by (simp_all add: sample_chain_def empty_chain_def)

lemma sample_fees: "tx_fees sample_tx = (2, 1)"
  by (simp add: tx_fees_def sample_payload_def decompose_eq)

text \<open>Alice's sample transaction with another nonce.\<close>

definition nonce_tx :: "u64 \<Rightarrow> signed_transaction" where
  "nonce_tx n =
     (let p = sample_payload\<lparr>pl_nonce := n\<rparr>
      in \<lparr>tx_payload = p, tx_public_key = replicate 32 1,
          tx_signature = sample_sign (replicate 32 1) (domain_tag @ encode_py p)\<rparr>)"

lemma nonce_tx_simps [simp]:
  "tx_payload (nonce_tx n) = sample_payload\<lparr>pl_nonce := n\<rparr>" "tx_fees (nonce_tx n) = (2, 1)"
  "verify_signed_tx (sample_env p) (nonce_tx n)"
  by (simp_all add: nonce_tx_def Let_def tx_fees_def sample_payload_def decompose_eq verify_signed_tx_iff
      sample_env_def sample_sign_def sample_digest_def canonical_payload_bytes_def)

lemma sample_account:
  "acc_c (credited 100 100 (zero_account a)) = 100" "acc_i (credited 100 100 (zero_account a)) = 100"
  by (simp_all add: credited_def)

lemma sample_chain_inv: "mempool_inv sample_chain"
  by (simp add: mempool_inv_def ledger_inv_def acc_ok_def)

lemma sample_admissible: "admissible (sample_env p) sample_tx sample_chain"
  using sample_tx_verifies [of p]
  by (simp add: admissible_def sample_payload_def tx_total_c_def tx_total_i_def sample_fees sample_account)

lemma sample_exact: "exact_sums (sample_env Debug) a tx"
  by (simp add: exact_sums_def)

definition sample_pool :: blockchain where
  "sample_pool = admit sample_tx sample_chain"

lemma sample_submit: "submit_transaction (sample_env p) sample_tx sample_chain = (Inr (), sample_pool)"
  unfolding sample_pool_def by (rule admissible_accepted [OF sample_admissible])

lemma sample_pool_mempool [simp]: "bc_mempool sample_pool = [((''alice'', 1), sample_tx)]"
  by (simp add: sample_pool_def admit_def sample_payload_def)

lemma sample_pool_inv: "mempool_inv sample_pool"
  using submit_mempool_inv [OF sample_chain_inv, of sample_tx "sample_env Debug"] sample_exact sample_submit
  by simp

theorem submit_spec_witness:
  "submit_transaction (sample_env Debug) sample_tx sample_chain = (Inr (), admit sample_tx sample_chain)"
  using submit_spec [OF sample_chain_inv, of "sample_env Debug" sample_tx] admissible_accepts [OF sample_admissible]
  by simp

theorem submit_preserves_mempool_inv_witness:
  "mempool_inv (snd (submit_transaction (sample_env Debug) sample_tx sample_chain))"
  by (rule submit_preserves_mempool_inv [OF sample_chain_inv]) (simp add: sample_exact)

theorem drop_undoes_submit_witness:
  "drop_transaction (sample_env Debug) ''alice'' 1 sample_pool = (Inr (), sample_chain)"
  using drop_undoes_submit [OF sample_chain_inv, of sample_tx "sample_env Debug" sample_pool]
    sample_exact sample_submit
  by (simp add: sample_payload_def)

theorem drop_spec_witness:
  "\<exists>t. drop_transaction (sample_env Release) ''alice'' 1 sample_pool = (Inr (), t) \<and> bc_mempool t = []"
  using drop_spec [OF sample_pool_inv, where sender = "''alice''" and nonce = 1 and E = "sample_env Release"] by auto

theorem any_key_spends_witness:
  "\<exists>tx. sign_tx_py (sample_env Debug) (replicate 32 7) sample_payload = Inr tx \<and>
     fst (submit_transaction (sample_env Debug) tx sample_chain) = Inr ()"
proof -
  have "decompose (pl_fee_selector sample_payload) (pl_fee sample_payload) = Inr (2, 1)"
    by (simp add: sample_payload_def decompose_eq)
  from any_key_spends [OF sample_laws(3) _ _ _ this, of "replicate 32 7" sample_chain _ Debug]
  show ?thesis by (auto simp: sample_account) (auto simp: sample_payload_def sample_account)
qed

definition greedy_tx :: signed_transaction where
  "greedy_tx =
     (let p = sample_payload\<lparr>pl_amount_consumer := - 1, pl_amount_industrial := 0, pl_fee := 1,
                             pl_fee_selector := 0\<rparr>
      in \<lparr>tx_payload = p, tx_public_key = replicate 32 1,
          tx_signature = sample_sign (replicate 32 1) (domain_tag @ encode_py p)\<rparr>)"

theorem submit_amount_fee_overflow_witness:
  "fst (submit_transaction (sample_env Release) greedy_tx sample_chain) = Inr () \<and>
   (\<exists>msg. submit_transaction (sample_env Debug) greedy_tx sample_chain = (Inl (Panic msg), sample_chain))"
proof -
  have v: "verify_signed_tx (sample_env p) greedy_tx" for p
    by (simp add: verify_signed_tx_iff greedy_tx_def sample_env_def sample_sign_def sample_digest_def
        canonical_payload_bytes_def Let_def)
  show ?thesis
    using submit_amount_fee_overflow [of sample_chain greedy_tx _ "sample_env Release", OF _ _ _ _ _ _ _ v]
      submit_amount_fee_overflow [of sample_chain greedy_tx _ "sample_env Debug", OF _ _ _ _ _ _ _ v]
    by (auto simp: greedy_tx_def sample_payload_def Let_def)
qed

end
