(* ===== verification/SimpleDb.thy ===== *)
theory SimpleDb
  imports Types
begin

text \<open>
  The key-value store, \<open>src/simple_db.rs\<close>: an in-memory \<open>HashMap\<close> behind the interface of
  \<open>sled::Db\<close>. Every operation returns \<open>io::Result\<close>; the model keeps that type, with
  \<open>Inl\<close> for an I/O error, although this store never returns one. The contract
  \<open>kv_store\<close> is what the chain relies on when it persists itself.
\<close>

section \<open>The operations\<close>

type_synonym 'a io_result = "string + 'a"

text \<open>\<open>open\<close> ignores its path: the store starts empty.\<close>

definition db_open :: "string \<Rightarrow> simple_db io_result" where
  "db_open _ = Inr \<lparr>db_map = Map.empty\<rparr>"

definition db_get :: "simple_db \<Rightarrow> string \<Rightarrow> bytes option io_result" where
  "db_get d key = Inr (db_map d key)"

definition db_insert :: "simple_db \<Rightarrow> string \<Rightarrow> bytes \<Rightarrow> bytes option io_result \<times> simple_db" where
  "db_insert d key v = (Inr (db_map d key), d\<lparr>db_map := (db_map d)(key \<mapsto> v)\<rparr>)"

definition db_remove :: "simple_db \<Rightarrow> string \<Rightarrow> bytes option io_result \<times> simple_db" where
  "db_remove d key = (Inr (db_map d key), d\<lparr>db_map := (db_map d)(key := None)\<rparr>)"

definition db_flush :: "simple_db \<Rightarrow> unit io_result" where
  "db_flush _ = Inr ()"

text \<open>\<open>db.get(key).ok().flatten()\<close>, the form every reader of the chain uses.\<close>

definition db_get_ok :: "simple_db \<Rightarrow> string \<Rightarrow> bytes option" where
  "db_get_ok d key = (case db_get d key of Inl _ \<Rightarrow> None | Inr v \<Rightarrow> v)"

section \<open>The contract\<close>

locale kv_store =
  fixes lookup :: "'d \<Rightarrow> 'k \<Rightarrow> 'v option"
    and put :: "'d \<Rightarrow> 'k \<Rightarrow> 'v \<Rightarrow> 'd"
    and del :: "'d \<Rightarrow> 'k \<Rightarrow> 'd"
    and fresh :: 'd
  assumes lookup_fresh: "lookup fresh k = None"
    and lookup_put: "lookup (put d k v) k' = (if k' = k then Some v else lookup d k')"
    and lookup_del: "lookup (del d k) k' = (if k' = k then None else lookup d k')"
begin

text \<open>
  Writing one key and removing two others, as \<open>persist_chain\<close> and the migration do,
  leaves exactly the written value among the three.
\<close>

lemma replace_by_one:
  assumes "k \<noteq> a" and "k \<noteq> b"
  shows "lookup (del (del (put d k v) a) b) k = Some v"
    and "lookup (del (del (put d k v) a) b) a = None"
    and "lookup (del (del (put d k v) a) b) b = None"
  using assms by (simp_all add: lookup_put lookup_del)

lemma replace_by_one_frame:
  "k' \<notin> {k, a, b} \<Longrightarrow> lookup (del (del (put d k v) a) b) k' = lookup d k'"
  by (simp add: lookup_put lookup_del)

lemma put_overwrites: "lookup (put (put d k v) k w) k' = lookup (put d k w) k'"
  by (simp add: lookup_put)

end

interpretation db: kv_store
  db_get_ok
  "\<lambda>d k v. snd (db_insert d k v)"
  "\<lambda>d k. snd (db_remove d k)"
  "\<lparr>db_map = Map.empty\<rparr>"
  by unfold_locales (auto simp: db_get_ok_def db_get_def db_insert_def db_remove_def)

lemma db_result_simps [simp]:
  "fst (db_insert d k v) = Inr (db_map d k)"
  "fst (db_remove d k) = Inr (db_map d k)"
  "db_flush d = Inr ()"
  "db_open path = Inr \<lparr>db_map = Map.empty\<rparr>"
  by (simp_all add: db_insert_def db_remove_def db_flush_def db_open_def)

end
