(* ===== verification/Persistence.thy ===== *)
theory Persistence
  imports Chain SimpleDb
begin

text \<open>
  Loading and storing the chain: \<open>Blockchain::open\<close>, \<open>with_difficulty\<close>, \<open>new\<close>,
  \<open>persist_chain\<close> and \<open>genesis_block\<close> of \<open>src/lib.rs\<close>, with the migration of older
  database layouts to schema version 3. \<open>open_db\<close> is the body of \<open>open\<close> after the store
  is opened, so that it can be stated for a store with any content.
\<close>

section \<open>The code\<close>

definition DB_CHAIN :: string where "DB_CHAIN = ''chain''"
definition DB_ACCOUNTS :: string where "DB_ACCOUNTS = ''accounts''"
definition DB_EMISSION :: string where "DB_EMISSION = ''emission''"

definition schema_version :: nat where "schema_version = 3"

definition unwrap :: "'e + 'a \<Rightarrow> error + 'a" where
  "unwrap r = (case r of Inr x \<Rightarrow> Inr x | Inl _ \<Rightarrow> Inl (Panic ''unwrap on an Err value''))"

definition unwrap_opt :: "'a option \<Rightarrow> error + 'a" where
  "unwrap_opt r = (case r of Some x \<Rightarrow> Inr x | None \<Rightarrow> Inl (Panic ''unwrap on an Err value''))"

text \<open>\<open>u64::try_from(total).unwrap_or(0)\<close> on both fee totals, and their checksum.\<close>

definition recomputed_checksum :: "env \<Rightarrow> block \<Rightarrow> string" where
  "recomputed_checksum E b =
     (let (fc, fi) = fee_totals (drop 1 (blk_transactions b));
          fc_u64 = (case u64_try_from fc of Some v \<Rightarrow> v | None \<Rightarrow> 0);
          fi_u64 = (case u64_try_from fi of Some v \<Rightarrow> v | None \<Rightarrow> 0)
      in fee_checksum E fc_u64 fi_u64)"

text \<open>One block of the migration loop (it stands twice in the source).\<close>

definition migrate_block :: "env \<Rightarrow> block \<Rightarrow> block" where
  "migrate_block E b =
     (let b = (case blk_transactions b of
                 [] \<Rightarrow> b
               | cb # _ \<Rightarrow>
                   b\<lparr>blk_coinbase_consumer := TokenAmount (pl_amount_consumer (tx_payload cb)),
                     blk_coinbase_industrial := TokenAmount (pl_amount_industrial (tx_payload cb))\<rparr>);
          b = b\<lparr>blk_fee_checksum := recomputed_checksum E b\<rparr>
      in b\<lparr>blk_hash := block_hash_at E b (blk_nonce b)\<rparr>)"

text \<open>The loop at the end of \<open>open\<close> and of \<open>new\<close>.\<close>

definition fill_checksum :: "env \<Rightarrow> block \<Rightarrow> block" where
  "fill_checksum E b =
     (if blk_fee_checksum b = '''' then b\<lparr>blk_fee_checksum := recomputed_checksum E b\<rparr> else b)"

definition blockchain_of_disk :: "env \<Rightarrow> simple_db \<Rightarrow> chain_disk \<Rightarrow> blockchain" where
  "blockchain_of_disk E db d =
     \<lparr>bc_chain = map (fill_checksum E) (cd_chain d), bc_accounts = cd_accounts d,
      bc_difficulty = 8, bc_mempool = [], bc_db = db,
      bc_emission_consumer = cd_emission_consumer d,
      bc_emission_industrial = cd_emission_industrial d,
      bc_block_reward_consumer = cd_block_reward_consumer d,
      bc_block_reward_industrial = cd_block_reward_industrial d,
      bc_block_height = cd_block_height d\<rparr>"

definition empty_disk :: chain_disk where
  "empty_disk =
     \<lparr>cd_schema_version = schema_version, cd_chain = [], cd_accounts = Map.empty,
      cd_emission_consumer = 0, cd_emission_industrial = 0,
      cd_block_reward_consumer = TokenAmount INITIAL_BLOCK_REWARD_CONSUMER,
      cd_block_reward_industrial = TokenAmount INITIAL_BLOCK_REWARD_INDUSTRIAL,
      cd_block_height = 0\<rparr>"

text \<open>The two older layouts: the chain alone under its key, accounts and emission beside it.\<close>

definition legacy_disk :: "env \<Rightarrow> simple_db \<Rightarrow> bytes \<Rightarrow> chain_disk" where
  "legacy_disk E db raw =
     (let chain = (case unbincode_chain E raw of Some c \<Rightarrow> c | None \<Rightarrow> []);
          accounts = (case Option.bind (db_get_ok db DB_ACCOUNTS) (unbincode_accounts E) of
                        Some a \<Rightarrow> a | None \<Rightarrow> Map.empty);
          (em_c, em_i, br_c, br_i, bh) =
            (case Option.bind (db_get_ok db DB_EMISSION) (unbincode_emission E) of
               Some t \<Rightarrow> t
             | None \<Rightarrow> (0, 0, INITIAL_BLOCK_REWARD_CONSUMER, INITIAL_BLOCK_REWARD_INDUSTRIAL, 0))
      in \<lparr>cd_schema_version = 3, cd_chain = chain, cd_accounts = accounts,
          cd_emission_consumer = em_c, cd_emission_industrial = em_i,
          cd_block_reward_consumer = TokenAmount br_c,
          cd_block_reward_industrial = TokenAmount br_i, cd_block_height = bh\<rparr>)"

text \<open>Writing a chain under its key and dropping the legacy keys.\<close>

definition store_migrated :: "env \<Rightarrow> simple_db \<Rightarrow> chain_disk \<Rightarrow> error + simple_db" where
  "store_migrated E db d =
     bind_res (unwrap_opt (bincode_disk E d)) (\<lambda>bytes.
       let (r, db) = db_insert db DB_CHAIN bytes
       in bind_res (unwrap r) (\<lambda>_.
            let db = snd (db_remove db DB_ACCOUNTS);
                db = snd (db_remove db DB_EMISSION)
            in Inr db))"

definition open_db :: "env \<Rightarrow> simple_db \<Rightarrow> error + blockchain" where
  "open_db E db =
     (case db_get_ok db DB_CHAIN of
        None \<Rightarrow> Inr (blockchain_of_disk E db empty_disk)
      | Some raw \<Rightarrow>
        (case unbincode_disk E raw of
           Some disk \<Rightarrow>
             (if cd_schema_version disk > 3 then Inl (ValueError ''DB schema too new'')
              else if cd_schema_version disk < 3 then
                (let migrated = disk\<lparr>cd_schema_version := 3,
                                     cd_chain := map (migrate_block E) (cd_chain disk)\<rparr>
                 in bind_res (store_migrated E db migrated) (\<lambda>db.
                      Inr (blockchain_of_disk E db migrated)))
              else Inr (blockchain_of_disk E db disk))
         | None \<Rightarrow>
             (let old = legacy_disk E db raw;
                  disk_new = old\<lparr>cd_chain := map (migrate_block E) (cd_chain old)\<rparr>
              in bind_res (store_migrated E db disk_new) (\<lambda>db.
                   Inr (blockchain_of_disk E db disk_new)))))"

definition open_chain :: "env \<Rightarrow> string \<Rightarrow> error + blockchain" where
  "open_chain E path =
     (case db_open path of
        Inl _ \<Rightarrow> Inl (ValueError ''DB open'')
      | Inr db \<Rightarrow> open_db E db)"

definition with_difficulty :: "env \<Rightarrow> string \<Rightarrow> u64 \<Rightarrow> error + blockchain" where
  "with_difficulty E path difficulty =
     bind_res (open_chain E path) (\<lambda>bc. Inr (bc\<lparr>bc_difficulty := difficulty\<rparr>))"

text \<open>\<open>Blockchain::new\<close> reads the same three layouts without migrating them.\<close>

definition new_chain_of_db :: "env \<Rightarrow> simple_db \<Rightarrow> blockchain" where
  "new_chain_of_db E db =
     (case db_get_ok db DB_CHAIN of
        None \<Rightarrow> blockchain_of_disk E db empty_disk
      | Some raw \<Rightarrow>
        (case unbincode_disk E raw of
           Some disk \<Rightarrow> blockchain_of_disk E db disk
         | None \<Rightarrow> blockchain_of_disk E db (legacy_disk E db raw)))"

definition new_blockchain :: "env \<Rightarrow> error + blockchain" where
  "new_blockchain E =
     (case db_open ''temp'' of
        Inl _ \<Rightarrow> Inl (Panic ''DB open'')
      | Inr db \<Rightarrow> Inr (new_chain_of_db E db))"

definition disk_of_blockchain :: "blockchain \<Rightarrow> chain_disk" where
  "disk_of_blockchain s =
     \<lparr>cd_schema_version = schema_version, cd_chain = bc_chain s, cd_accounts = bc_accounts s,
      cd_emission_consumer = bc_emission_consumer s,
      cd_emission_industrial = bc_emission_industrial s,
      cd_block_reward_consumer = bc_block_reward_consumer s,
      cd_block_reward_industrial = bc_block_reward_industrial s,
      cd_block_height = bc_block_height s\<rparr>"

definition persist_chain :: "env \<Rightarrow> blockchain \<Rightarrow> (blockchain, unit) outcome" where
  "persist_chain E s =
     (case bincode_disk E (disk_of_blockchain s) of
        None \<Rightarrow> (Inl (ValueError ''Serialization error''), s)
      | Some bytes \<Rightarrow>
        (case db_insert (bc_db s) DB_CHAIN bytes of
           (Inl _, db) \<Rightarrow> (Inl (ValueError ''DB insert''), s\<lparr>bc_db := db\<rparr>)
         | (Inr _, db) \<Rightarrow>
           (let db = snd (db_remove db DB_ACCOUNTS);
                db = snd (db_remove db DB_EMISSION);
                s = s\<lparr>bc_db := db\<rparr>
            in case db_flush db of
                 Inl _ \<Rightarrow> (Inl (ValueError ''DB flush''), s)
               | Inr _ \<Rightarrow> (Inr (), s))))"

definition genesis_header :: "u64 \<Rightarrow> block" where
  "genesis_header difficulty =
     \<lparr>blk_index = 0, blk_previous_hash = zero_prev_hash, blk_transactions = [],
      blk_difficulty = difficulty, blk_nonce = 0, blk_hash = GENESIS_HASH,
      blk_coinbase_consumer = TokenAmount 0, blk_coinbase_industrial = TokenAmount 0,
      blk_fee_checksum = zero_prev_hash\<rparr>"

definition genesis_block :: "env \<Rightarrow> blockchain \<Rightarrow> (blockchain, unit) outcome" where
  "genesis_block E s =
     (let s = s\<lparr>bc_chain := bc_chain s @ [genesis_header (bc_difficulty s)], bc_block_height := 1\<rparr>
      in and_then (unwrap_opt (bincode_chain E (bc_chain s)), s) (\<lambda>bytes s.
         let (r, db) = db_insert (bc_db s) DB_CHAIN bytes; s = s\<lparr>bc_db := db\<rparr>
         in and_then (unwrap r, s) (\<lambda>_ s.
            and_then (unwrap (db_flush (bc_db s)), s) (\<lambda>_ s. (Inr (), s)))))"

section \<open>Lemmas\<close>

lemma db_keys_distinct [simp]:
  "DB_CHAIN \<noteq> DB_ACCOUNTS" "DB_CHAIN \<noteq> DB_EMISSION" "DB_ACCOUNTS \<noteq> DB_EMISSION"
  by (simp_all add: DB_CHAIN_def DB_ACCOUNTS_def DB_EMISSION_def)

lemma unwrap_simps [simp]:
  "unwrap (Inr x) = Inr x" "unwrap_opt (Some x) = Inr x"
  by (simp_all add: unwrap_def unwrap_opt_def)

text \<open>The store after a persisted write.\<close>

definition db_after :: "simple_db \<Rightarrow> bytes \<Rightarrow> simple_db" where
  "db_after db bytes =
     snd (db_remove (snd (db_remove (snd (db_insert db DB_CHAIN bytes)) DB_ACCOUNTS)) DB_EMISSION)"

lemma db_after_lookup:
  "db_get_ok (db_after db bytes) DB_CHAIN = Some bytes"
  "db_get_ok (db_after db bytes) DB_ACCOUNTS = None"
  "db_get_ok (db_after db bytes) DB_EMISSION = None"
  using db.replace_by_one [of DB_CHAIN DB_ACCOUNTS DB_EMISSION]
  by (simp_all add: db_after_def)

lemma persist_chain_eq:
  "persist_chain E s =
     (case bincode_disk E (disk_of_blockchain s) of
        None \<Rightarrow> (Inl (ValueError ''Serialization error''), s)
      | Some bytes \<Rightarrow> (Inr (), s\<lparr>bc_db := db_after (bc_db s) bytes\<rparr>))"
proof (cases "bincode_disk E (disk_of_blockchain s)")
  case None
  then show ?thesis by (simp add: persist_chain_def)
next
  case (Some bytes)
  then show ?thesis by (simp add: persist_chain_def Let_def db_after_def db_insert_def)
qed

lemma store_migrated_eq:
  "store_migrated E db d =
     (case bincode_disk E d of
        None \<Rightarrow> Inl (Panic ''unwrap on an Err value'')
      | Some bytes \<Rightarrow> Inr (db_after db bytes))"
  by (cases "bincode_disk E d")
    (simp_all add: store_migrated_def unwrap_opt_def db_after_def db_insert_def Let_def)

lemma open_chain_fresh:
  "open_chain E path = Inr (blockchain_of_disk E \<lparr>db_map = Map.empty\<rparr> empty_disk)"
  by (simp add: open_chain_def open_db_def db.lookup_fresh)

lemma new_blockchain_fresh:
  "new_blockchain E = Inr (blockchain_of_disk E \<lparr>db_map = Map.empty\<rparr> empty_disk)"
  by (simp add: new_blockchain_def new_chain_of_db_def db.lookup_fresh)

lemma fill_checksum_id: "blk_fee_checksum b \<noteq> '''' \<Longrightarrow> fill_checksum E b = b"
  by (simp add: fill_checksum_def)

text \<open>What \<open>open\<close> makes of a store that \<open>persist_chain\<close> has just written.\<close>

lemma persist_then_open:
  assumes rt: "disk_roundtrip E" and p: "persist_chain E s = (Inr (), t)"
    and chk: "\<forall>b\<in>set (bc_chain s). blk_fee_checksum b \<noteq> ''''"
  shows "open_db E (bc_db t) = Inr (t\<lparr>bc_difficulty := 8, bc_mempool := []\<rparr>)"
proof -
  from p obtain bytes where bytes: "bincode_disk E (disk_of_blockchain s) = Some bytes"
    and t: "t = s\<lparr>bc_db := db_after (bc_db s) bytes\<rparr>"
    by (auto simp: persist_chain_eq split: option.splits)
  from rt bytes have "unbincode_disk E bytes = Some (disk_of_blockchain s)"
    by (simp add: disk_roundtrip_def)
  moreover have "map (fill_checksum E) (bc_chain s) = bc_chain s"
    using chk by (intro map_idI fill_checksum_id) auto
  ultimately show ?thesis
    by (simp add: open_db_def t db_after_lookup disk_of_blockchain_def schema_version_def
        blockchain_of_disk_def)
qed

section \<open>Properties\<close>

text \<open>
  C31: What \<open>persist_chain\<close> writes, \<open>open\<close> reads back: on the store after a successful
  write it rebuilds the same chain, accounts, emission counters, rewards and height; the
  mempool is not stored and the difficulty becomes the default 8.
\<close>

theorem persist_open_roundtrip:
  assumes "disk_roundtrip E" and "persist_chain E s = (Inr (), t)"
    and "\<forall>b\<in>set (bc_chain s). blk_fee_checksum b \<noteq> ''''"
  shows "open_db E (bc_db t) = Inr (t\<lparr>bc_difficulty := 8, bc_mempool := []\<rparr>)"
  by (rule persist_then_open [OF assms])

text \<open>
  \<open>open\<close>, \<open>with_difficulty\<close> and \<open>new\<close> return a fresh chain for every path: the store
  behind them never holds what an earlier process wrote.
\<close>

lemma open_is_always_fresh:
  "open_chain E path = Inr (empty_chain 8) \<and> with_difficulty E path d = Inr (empty_chain d) \<and>
   new_blockchain E = Inr (empty_chain 8)"
  by (simp add: open_chain_fresh new_blockchain_fresh with_difficulty_def blockchain_of_disk_def
      empty_disk_def empty_chain_def)

lemma migrate_block_simps [simp]:
  "blk_previous_hash (migrate_block E b) = blk_previous_hash b"
  "blk_transactions (migrate_block E b) = blk_transactions b"
  "blk_fee_checksum (migrate_block E b) = recomputed_checksum E b"
  "blk_index (migrate_block E b) = blk_index b" "blk_nonce (migrate_block E b) = blk_nonce b"
  by (auto simp: migrate_block_def Let_def recomputed_checksum_def split: list.split)

lemma recomputed_checksum_cong:
  "blk_transactions b = blk_transactions b' \<Longrightarrow> recomputed_checksum E b = recomputed_checksum E b'"
  by (simp add: recomputed_checksum_def)

lemma block_hash_at_set_hash [simp]: "block_hash_at E (b\<lparr>blk_hash := h\<rparr>) n = block_hash_at E b n"
  by (simp add: block_hash_at_def)

lemma migrate_block_hash: "blk_hash (migrate_block E b) = block_hash_at E (migrate_block E b) (blk_nonce b)"
  by (simp add: migrate_block_def Let_def split: list.split)

lemma fill_migrated: "fill_checksum E (migrate_block E b) = migrate_block E b"
proof -
  have "recomputed_checksum E (migrate_block E b) = blk_fee_checksum (migrate_block E b)"
    by (simp add: recomputed_checksum_cong [of "migrate_block E b" b])
  then show ?thesis by (simp add: fill_checksum_def)
qed

lemma fill_migrated_chain: "map (fill_checksum E) (map (migrate_block E) bs) = map (migrate_block E) bs"
  by (simp add: fill_migrated)

text \<open>
  C32: Opening a store with an older schema rewrites it: the coinbase fields come from the
  coinbase transaction, every checksum and hash is recomputed from the block, the legacy
  keys are gone and opening the rewritten store again gives the same chain. The links
  between blocks are copied as they were, although the hashes they name have changed.
\<close>

theorem open_migrates:
  assumes rt: "disk_roundtrip E" and raw: "db_get_ok db DB_CHAIN = Some raw"
    and d: "unbincode_disk E raw = Some d" and old: "cd_schema_version d < 3"
    and ok: "open_db E db = Inr s"
  shows "(\<forall>b\<in>set (bc_chain s).
       blk_hash b = block_hash_at E b (blk_nonce b) \<and> blk_fee_checksum b = recomputed_checksum E b) \<and>
    map blk_transactions (bc_chain s) = map blk_transactions (cd_chain d) \<and>
    map blk_previous_hash (bc_chain s) = map blk_previous_hash (cd_chain d) \<and>
    bc_accounts s = cd_accounts d \<and>
    db_get_ok (bc_db s) DB_ACCOUNTS = None \<and> db_get_ok (bc_db s) DB_EMISSION = None \<and>
    open_db E (bc_db s) = Inr s"
proof -
  let ?m = "d\<lparr>cd_schema_version := 3, cd_chain := map (migrate_block E) (cd_chain d)\<rparr>"
  from ok raw d old obtain bytes where bytes: "bincode_disk E ?m = Some bytes"
    and s: "s = blockchain_of_disk E (db_after db bytes) ?m"
    by (cases "bincode_disk E ?m") (auto simp: open_db_def store_migrated_eq Let_def)
  have chain: "bc_chain s = map (migrate_block E) (cd_chain d)"
    unfolding s by (simp add: blockchain_of_disk_def fill_migrated)
  have "unbincode_disk E bytes = Some ?m" using rt bytes by (simp add: disk_roundtrip_def)
  then have "open_db E (bc_db s) = Inr s"
    unfolding s by (simp add: open_db_def blockchain_of_disk_def db_after_lookup)
  then show ?thesis
    unfolding chain unfolding s
    by (auto simp: blockchain_of_disk_def db_after_lookup migrate_block_hash comp_def
        intro: recomputed_checksum_cong)
qed

text \<open>A serializer for states without blocks and accounts, with its inverse.\<close>

definition sample_disk_bytes :: "chain_disk \<Rightarrow> bytes option" where
  "sample_disk_bytes d =
     (if cd_chain d = [] \<and> cd_accounts d = Map.empty then
        Some (u64_le (cd_emission_consumer d) @ u64_le (cd_emission_industrial d) @
          u64_le (tok (cd_block_reward_consumer d)) @ u64_le (tok (cd_block_reward_industrial d)) @
          u64_le (cd_block_height d) @ replicate (cd_schema_version d) 0)
      else None)"

definition sample_disk_parse :: "bytes \<Rightarrow> chain_disk option" where
  "sample_disk_parse bs =
     Some \<lparr>cd_schema_version = length bs - 40, cd_chain = [], cd_accounts = Map.empty,
       cd_emission_consumer = of_le_bytes (take 8 bs),
       cd_emission_industrial = of_le_bytes (take 8 (drop 8 bs)),
       cd_block_reward_consumer = TokenAmount (of_le_bytes (take 8 (drop 16 bs))),
       cd_block_reward_industrial = TokenAmount (of_le_bytes (take 8 (drop 24 bs))),
       cd_block_height = of_le_bytes (take 8 (drop 32 bs))\<rparr>"

definition sample_disk_env :: env where
  "sample_disk_env =
     (sample_env Debug)\<lparr>bincode_disk := sample_disk_bytes, unbincode_disk := sample_disk_parse\<rparr>"

lemma sample_disk_roundtrip: "disk_roundtrip sample_disk_env"
  by (auto simp: disk_roundtrip_def sample_disk_env_def sample_disk_bytes_def sample_disk_parse_def
      of_le_bytes_le_bytes split: if_splits intro!: chain_disk.equality)

theorem persist_open_roundtrip_witness:
  "\<exists>t. persist_chain sample_disk_env (empty_chain 3) = (Inr (), t) \<and>
     open_db sample_disk_env (bc_db t) = Inr (t\<lparr>bc_difficulty := 8, bc_mempool := []\<rparr>)"
  using persist_open_roundtrip [OF sample_disk_roundtrip, of "empty_chain 3"]
  by (auto simp: persist_chain_eq sample_disk_env_def sample_disk_bytes_def disk_of_blockchain_def
      empty_chain_def)

text \<open>
  A store of schema 2 with two linked blocks, and a serializer for it and for what the
  migration makes of it.
\<close>

definition old_blocks :: "block list" where
  "old_blocks = [sample_block\<lparr>blk_hash := ''aa''\<rparr>, sample_block\<lparr>blk_index := 1, blk_previous_hash := ''aa''\<rparr>]"

definition old_disk :: chain_disk where
  "old_disk = empty_disk\<lparr>cd_schema_version := 2, cd_chain := old_blocks\<rparr>"

definition new_disk :: chain_disk where
  "new_disk = old_disk\<lparr>cd_schema_version := 3, cd_chain := map (migrate_block (sample_env Debug)) old_blocks\<rparr>"

definition migration_env :: env where
  "migration_env = (sample_env Debug)\<lparr>
     bincode_disk := \<lambda>d. if d = old_disk then Some [2] else if d = new_disk then Some [3] else None,
     unbincode_disk := \<lambda>bs. if bs = [2] then Some old_disk else if bs = [3] then Some new_disk else None\<rparr>"

lemma migration_disk_roundtrip: "disk_roundtrip migration_env"
  by (simp add: disk_roundtrip_def migration_env_def)

lemma migrate_block_disk:
  "migrate_block (E\<lparr>bincode_disk := f, unbincode_disk := g\<rparr>) = migrate_block E"
proof -
  let ?E = "E\<lparr>bincode_disk := f, unbincode_disk := g\<rparr>"
  have "tx_id ?E = tx_id E" by (rule ext) (simp add: tx_id_def canonical_payload_bytes_def)
  then have "block_hash_at ?E = block_hash_at E"
    by (intro ext) (simp add: block_hash_at_def calculate_hash_def encoder_hash_def finalize_hex_def Let_def)
  moreover have "recomputed_checksum ?E = recomputed_checksum E"
    by (rule ext) (simp add: recomputed_checksum_def fee_checksum_def finalize_hex_def Let_def)
  ultimately show ?thesis by (intro ext) (simp add: migrate_block_def)
qed

lemma migrate_block_env: "migrate_block migration_env = migrate_block (sample_env Debug)"
  unfolding migration_env_def by (rule migrate_block_disk)

lemma migration_hash_length: "length (block_hash_at migration_env b n) = 64"
proof -
  have "length (sample_to_hex m) = 2 * length m" for m
    by (induction m) (simp_all add: sample_to_hex_def)
  then show ?thesis
    by (simp add: block_hash_at_def calculate_hash_def encoder_hash_def finalize_hex_def Let_def
        migration_env_def sample_env_def sample_digest_def)
qed

definition sample_old_db :: simple_db where
  "sample_old_db = \<lparr>db_map = [DB_CHAIN \<mapsto> [2], DB_EMISSION \<mapsto> []]\<rparr>"

lemma migration_opens: "\<exists>s. open_db migration_env sample_old_db = Inr s"
proof -
  have "db_get_ok sample_old_db DB_CHAIN = Some [2]"
    by (simp add: sample_old_db_def db_get_ok_def db_get_def)
  moreover have "unbincode_disk migration_env [2] = Some old_disk" by (simp add: migration_env_def)
  moreover have "cd_schema_version old_disk = 2" "cd_chain old_disk = old_blocks" by (simp_all add: old_disk_def)
  moreover have "bincode_disk migration_env new_disk = Some (if new_disk = old_disk then [2] else [3])"
    by (simp add: migration_env_def)
  ultimately show ?thesis
    by (auto simp: open_db_def store_migrated_eq Let_def migrate_block_env new_disk_def)
qed

text \<open>After the opening the second block still names the old hash of the first.\<close>

theorem open_migrates_witness:
  "\<exists>s b0 b1. open_db migration_env sample_old_db = Inr s \<and> bc_chain s = [b0, b1] \<and>
     blk_hash b0 = block_hash_at migration_env b0 (blk_nonce b0) \<and> blk_hash b0 \<noteq> ''aa'' \<and>
     blk_previous_hash b1 = ''aa'' \<and> db_get_ok (bc_db s) DB_EMISSION = None \<and>
     open_db migration_env (bc_db s) = Inr s"
proof -
  have raw: "db_get_ok sample_old_db DB_CHAIN = Some [2]"
    by (simp add: sample_old_db_def db_get_ok_def db_get_def)
  have d: "unbincode_disk migration_env [2] = Some old_disk" "cd_schema_version old_disk < 3"
    "cd_chain old_disk = old_blocks" by (simp_all add: migration_env_def old_disk_def)
  obtain s where s: "open_db migration_env sample_old_db = Inr s" using migration_opens by blast
  note m = open_migrates [OF migration_disk_roundtrip raw d(1,2) s, unfolded d(3)]
  then have "map blk_previous_hash (bc_chain s) = [zero_prev_hash, ''aa'']" by (simp add: old_blocks_def)
  then obtain b0 b1 where c: "bc_chain s = [b0, b1]" "blk_previous_hash b1 = ''aa''" by auto
  with m have h: "blk_hash b0 = block_hash_at migration_env b0 (blk_nonce b0)" by simp
  then have "blk_hash b0 \<noteq> ''aa''" using migration_hash_length [of b0 "blk_nonce b0"] by auto
  with m s c h show ?thesis by blast
qed

end
