(* ===== verification/Mining.thy ===== *)
theory Mining
  imports Mempool Persistence
begin

text \<open>
  \<open>Blockchain::mine_block\<close> of \<open>src/lib.rs\<close>, in the order of the source: decay and cap of
  the reward, sorting of the mempool, fee totals and coinbase, the proof-of-work loop, and
  the commit of the block to the chain, the accounts, the emission counters and the store.

  The nonce is a \<open>u64\<close> that the loop only increments with \<open>checked_add\<close>, so the loop
  ends after at most \<open>2^64\<close> rounds: \<open>pow_search\<close> is a total function.
\<close>

section \<open>The code\<close>

definition cap_reward :: "env \<Rightarrow> u64 \<Rightarrow> u64 \<Rightarrow> token_amount \<Rightarrow> error + token_amount" where
  "cap_reward E max_supply emission reward =
     bind_res (u_add (build E) emission (tok reward)) (\<lambda>total.
       if total > max_supply
       then bind_res (u_sub (build E) max_supply emission) (\<lambda>rest. Inr (TokenAmount rest))
       else Inr reward)"

text \<open>
  The entries of the mempool, sorted by sender and nonce. \<open>sort_unstable_by\<close> leaves the
  order of equal keys open; the keys of a mempool are distinct.
\<close>

definition pending_sorted :: "blockchain \<Rightarrow> signed_transaction list" where
  "pending_sorted s = sort_key (\<lambda>tx. tx_key tx) (pool_txs s)"

definition checked_fee :: "'a option \<Rightarrow> error + 'a" where
  "checked_fee r = (case r of Some v \<Rightarrow> Inr v | None \<Rightarrow> Inl (ValueError ''Fee overflow''))"

text \<open>The \<open>u64\<close> fee totals of the block, and the two coinbase amounts.\<close>

definition coinbase_amounts ::
  "token_amount \<Rightarrow> token_amount \<Rightarrow> signed_transaction list \<Rightarrow> error + u64 \<times> u64 \<times> u64 \<times> u64" where
  "coinbase_amounts reward_c reward_i pending =
     (let (fee_acc_c, fee_acc_i) = fee_totals pending in
      bind_res (checked_fee (u64_try_from fee_acc_c)) (\<lambda>fc.
      bind_res (checked_fee (u64_try_from fee_acc_i)) (\<lambda>fi.
      bind_res (checked_fee (checked_add (tok reward_c) fc)) (\<lambda>cb_c.
      bind_res (checked_fee (checked_add (tok reward_i) fi)) (\<lambda>cb_i.
      Inr (fc, fi, cb_c, cb_i))))))"

definition coinbase_tx :: "string \<Rightarrow> u64 \<Rightarrow> u64 \<Rightarrow> signed_transaction" where
  "coinbase_tx miner_addr cb_c cb_i =
     \<lparr>tx_payload =
        \<lparr>pl_from = COINBASE_ADDR, pl_to = miner_addr, pl_amount_consumer = cb_c,
         pl_amount_industrial = cb_i, pl_fee = 0, pl_fee_selector = 0, pl_nonce = 0,
         pl_memo = []\<rparr>,
      tx_public_key = [], tx_signature = []\<rparr>"

lemma checked_incr_measure:
  fixes n :: u64
  assumes "checked_add n 1 = Some m"
  shows "18446744073709551616 - unat m < 18446744073709551616 - unat n"
  using checked_add_SomeD(1,3) [OF assms] by simp

function pow_search :: "env \<Rightarrow> block \<Rightarrow> u64 \<Rightarrow> error + u64 \<times> string" where
  "pow_search E b nonce =
     (let hash = block_hash_at E b nonce in
      case hex_to_bytes E hash of
        Inl e \<Rightarrow> Inl e
      | Inr bytes \<Rightarrow>
          if leading_zero_bits bytes \<ge> target_bits (blk_difficulty b) then Inr (nonce, hash)
          else (case checked_add nonce 1 of
                  None \<Rightarrow> Inl (ValueError ''Nonce overflow'')
                | Some n \<Rightarrow> pow_search E b n))"
  by pat_completeness auto
termination
  by (relation "measure (\<lambda>(E, b, n). 2 ^ 64 - unat n)") (auto intro: checked_incr_measure)

declare pow_search.simps [simp del]

definition on_accounts ::
  "(accounts \<Rightarrow> (accounts, 'a) outcome) \<Rightarrow> blockchain \<Rightarrow> (blockchain, 'a) outcome" where
  "on_accounts f s = (case f (bc_accounts s) of (r, A) \<Rightarrow> (r, s\<lparr>bc_accounts := A\<rparr>))"

text \<open>
  The body of the commit loop: the ledger step, then the removal of the mempool entry
  (which \<open>mempool.clear()\<close> has already emptied).
\<close>

primrec commit_txs ::
  "env \<Rightarrow> signed_transaction list \<Rightarrow> blockchain \<Rightarrow> (blockchain, unit) outcome" where
  "commit_txs E [] s = (Inr (), s)"
| "commit_txs E (tx # txs) s =
     and_then (on_accounts (apply_mined_tx E tx) s) (\<lambda>_ s.
     let s = s\<lparr>bc_mempool := AList.delete (tx_from tx, tx_nonce tx) (bc_mempool s)\<rparr>
     in commit_txs E txs s)"

definition commit_block ::
  "env \<Rightarrow> string \<Rightarrow> token_amount \<Rightarrow> token_amount \<Rightarrow> block \<Rightarrow> blockchain \<Rightarrow>
   (blockchain, block) outcome" where
  "commit_block E miner_addr reward_c reward_i b s =
     (let s = s\<lparr>bc_chain := bc_chain s @ [b]\<rparr> in
      and_then (commit_txs E (drop 1 (blk_transactions b)) s) (\<lambda>_ s.
      and_then (on_accounts (credit_miner miner_addr (tok (blk_coinbase_consumer b))
                  (tok (blk_coinbase_industrial b))) s) (\<lambda>_ s.
      and_then (u_add (build E) (bc_emission_consumer s) (tok reward_c), s) (\<lambda>v s.
      let s = s\<lparr>bc_emission_consumer := v\<rparr> in
      and_then (u_add (build E) (bc_emission_industrial s) (tok reward_i), s) (\<lambda>v s.
      let s = s\<lparr>bc_emission_industrial := v\<rparr> in
      and_then (u_add (build E) (bc_block_height s) 1, s) (\<lambda>v s.
      let s = s\<lparr>bc_block_height := v\<rparr> in
      and_then (persist_chain E s) (\<lambda>_ s.
      and_then (unwrap (db_flush (bc_db s)), s) (\<lambda>_ s.
      (Inr b, s)))))))))"

definition block_template ::
  "env \<Rightarrow> string \<Rightarrow> string \<Rightarrow> blockchain \<Rightarrow> u64 \<times> u64 \<times> u64 \<times> u64 \<Rightarrow> block" where
  "block_template E prev_hash miner_addr s amounts =
     (case amounts of (fc, fi, cb_c, cb_i) \<Rightarrow>
       \<lparr>blk_index = of_nat (length (bc_chain s)), blk_previous_hash = prev_hash,
        blk_transactions = coinbase_tx miner_addr cb_c cb_i # pending_sorted s,
        blk_difficulty = bc_difficulty s, blk_nonce = 0, blk_hash = '''',
        blk_coinbase_consumer = TokenAmount cb_c, blk_coinbase_industrial = TokenAmount cb_i,
        blk_fee_checksum = fee_checksum E fc fi\<rparr>)"

definition mine_block :: "env \<Rightarrow> string \<Rightarrow> blockchain \<Rightarrow> (blockchain, block) outcome" where
  "mine_block E miner_addr s =
     (let index = of_nat (length (bc_chain s)) :: u64;
          prev_hash = (if index = 0 then zero_prev_hash else blk_hash (last (bc_chain s)));
          s = s\<lparr>bc_block_reward_consumer := decay (bc_block_reward_consumer s)\<rparr>;
          s = s\<lparr>bc_block_reward_industrial := decay (bc_block_reward_industrial s)\<rparr> in
      and_then (cap_reward E MAX_SUPPLY_CONSUMER (bc_emission_consumer s)
                  (bc_block_reward_consumer s), s) (\<lambda>reward_c s.
      and_then (cap_reward E MAX_SUPPLY_INDUSTRIAL (bc_emission_industrial s)
                  (bc_block_reward_industrial s), s) (\<lambda>reward_i s.
      and_then (coinbase_amounts reward_c reward_i (pending_sorted s), s) (\<lambda>amounts s.
      let b = block_template E prev_hash miner_addr s amounts;
          s = s\<lparr>bc_mempool := []\<rparr> in
      and_then (pow_search E b 0, s) (\<lambda>(nonce, hash) s.
      commit_block E miner_addr reward_c reward_i (b\<lparr>blk_nonce := nonce, blk_hash := hash\<rparr>) s)))))"

section \<open>Proof of work\<close>

definition meets_target :: "env \<Rightarrow> block \<Rightarrow> u64 \<Rightarrow> bool" where
  "meets_target E b n \<longleftrightarrow>
     (case hex_decode E (block_hash_at E b n) of
        None \<Rightarrow> False
      | Some bs \<Rightarrow> target_bits (blk_difficulty b) \<le> leading_zero_bits bs)"

lemma pow_search_Inr:
  assumes "pow_search E b n = Inr (m, h)"
  shows "h = block_hash_at E b m \<and> meets_target E b m \<and> n \<le> m \<and>
    (\<forall>k. n \<le> k \<and> k < m \<longrightarrow> \<not> meets_target E b k)"
  using assms
proof (induction E b n rule: pow_search.induct)
  case (1 E b n)
  from "1.prems" obtain bs where bs: "hex_decode E (block_hash_at E b n) = Some bs"
    by (cases "hex_decode E (block_hash_at E b n)")
      (simp_all add: pow_search.simps [of E b n] hex_to_bytes_def)
  then have hb: "hex_to_bytes E (block_hash_at E b n) = Inr bs" by (simp add: hex_to_bytes_def)
  show ?case
  proof (cases "target_bits (blk_difficulty b) \<le> leading_zero_bits bs")
    case True
    with "1.prems" bs hb show ?thesis
      by (auto simp: pow_search.simps [of E b n] meets_target_def)
  next
    case False
    with "1.prems" hb obtain n' where n': "checked_add n 1 = Some n'"
      and rec: "pow_search E b n' = Inr (m, h)"
      by (auto simp: pow_search.simps [of E b n] split: option.splits)
    have unat_n': "unat n' = unat n + 1" using checked_add_SomeD(1) [OF n'] by simp
    from "1.IH" [OF refl hb False n' rec]
    have IH: "h = block_hash_at E b m \<and> meets_target E b m \<and> n' \<le> m \<and>
        (\<forall>k. n' \<le> k \<and> k < m \<longrightarrow> \<not> meets_target E b k)" .
    moreover have "\<not> meets_target E b n" using False bs by (simp add: meets_target_def)
    moreover have "k = n \<or> n' \<le> k" if "n \<le> k" for k
      using that unat_n' by (auto simp: word_le_nat_alt word_unat_eq_iff)
    moreover have "n \<le> m" using IH unat_n' by (simp add: word_le_nat_alt)
    ultimately show ?thesis by blast
  qed
qed

lemma pow_search_finds:
  assumes "\<forall>k. hex_decode E (block_hash_at E b k) \<noteq> None" and "n \<le> m" and "meets_target E b m"
  shows "\<exists>k. pow_search E b n = Inr (k, block_hash_at E b k) \<and> k \<le> m"
  using assms
proof (induction E b n rule: pow_search.induct)
  case (1 E b n)
  from "1.prems"(1) obtain bs where bs: "hex_decode E (block_hash_at E b n) = Some bs" by blast
  then have hb: "hex_to_bytes E (block_hash_at E b n) = Inr bs" by (simp add: hex_to_bytes_def)
  show ?case
  proof (cases "target_bits (blk_difficulty b) \<le> leading_zero_bits bs")
    case True
    with hb "1.prems"(2) show ?thesis by (simp add: pow_search.simps [of E b n])
  next
    case False
    with bs "1.prems"(3) have "n \<noteq> m" by (auto simp: meets_target_def)
    with "1.prems"(2) have lt: "unat n < unat m" by (simp add: word_less_nat_alt [symmetric])
    then have ca: "checked_add n 1 = Some (n + 1)" and u: "unat (n + 1) = unat n + 1"
      using unat_bound [of m] by (simp_all add: checked_add_def unat_add_exact)
    with lt have "n + 1 \<le> m" by (simp add: word_le_nat_alt)
    from "1.IH" [OF refl hb False ca "1.prems"(1) this "1.prems"(3)] hb False ca show ?thesis
      by (simp add: pow_search.simps [of E b n])
  qed
qed

lemma pow_search_gives_up:
  assumes "\<forall>k. hex_decode E (block_hash_at E b k) \<noteq> None"
    and "\<forall>k. n \<le> k \<longrightarrow> \<not> meets_target E b k"
  shows "pow_search E b n = Inl (ValueError ''Nonce overflow'')"
  using assms
proof (induction E b n rule: pow_search.induct)
  case (1 E b n)
  from "1.prems"(1) obtain bs where bs: "hex_decode E (block_hash_at E b n) = Some bs" by blast
  then have hb: "hex_to_bytes E (block_hash_at E b n) = Inr bs" by (simp add: hex_to_bytes_def)
  from "1.prems"(2) bs have no: "\<not> target_bits (blk_difficulty b) \<le> leading_zero_bits bs"
    by (auto simp: meets_target_def)
  show ?case
  proof (cases "checked_add n 1")
    case None
    with hb no show ?thesis by (simp add: pow_search.simps [of E b n])
  next
    case (Some n')
    from checked_add_SomeD(1) [OF Some] have "n \<le> n'" by (simp add: word_le_nat_alt)
    with "1.prems"(2) have "\<forall>k. n' \<le> k \<longrightarrow> \<not> meets_target E b k" by (auto intro: order.trans)
    from "1.IH" [OF refl hb no Some "1.prems"(1) this] hb no Some show ?thesis
      by (simp add: pow_search.simps [of E b n])
  qed
qed

section \<open>Reward and coinbase\<close>

lemma unat_MAX_SUPPLY [simp]:
  "unat MAX_SUPPLY_CONSUMER = 20000000000000"
  "unat MAX_SUPPLY_INDUSTRIAL = 20000000000000"
  by (simp_all add: MAX_SUPPLY_CONSUMER_def MAX_SUPPLY_INDUSTRIAL_def)

lemma cap_reward_ok:
  assumes "unat em \<le> unat cap" and "unat em + unat (tok r) < 2 ^ 64"
  shows "\<exists>rc. cap_reward E cap em r = Inr rc \<and> unat (tok rc) = min (unat (tok r)) (unat cap - unat em)"
proof -
  have add: "u_add (build E) em (tok r) = Inr (em + tok r)"
    using assms(2) by (intro u_add_exact) simp
  have u: "unat (em + tok r) = unat em + unat (tok r)"
    using assms(2) by (simp add: unat_add_exact)
  have le: "em \<le> cap" using assms(1) by (simp add: word_le_nat_alt)
  show ?thesis
  proof (cases "em + tok r > cap")
    case True
    with u have "unat cap < unat em + unat (tok r)" by (simp add: word_less_nat_alt)
    with True add le show ?thesis by (simp add: cap_reward_def u_sub_exact unat_sub_exact)
  next
    case False
    with u have "unat em + unat (tok r) \<le> unat cap" by (simp add: not_less word_le_nat_alt)
    with False add show ?thesis by (simp add: cap_reward_def)
  qed
qed

lemma u64_try_from_exact: "n < 2 ^ 64 \<Longrightarrow> u64_try_from n = Some (of_nat n) \<and> unat (of_nat n :: u64) = n"
  by (simp add: u64_try_from_def unat_of_nat take_bit_nat_eq_self)

lemma u64_try_from_SomeD: "u64_try_from n = Some v \<Longrightarrow> unat v = n"
  by (auto simp: u64_try_from_def unat_of_nat take_bit_nat_eq_self split: if_splits)

lemma coinbase_amounts_ok:
  assumes "unat (tok rc) + fees_c txs < 2 ^ 64" and "unat (tok ri) + fees_i txs < 2 ^ 64"
  obtains fc fi cb_c cb_i where "coinbase_amounts rc ri txs = Inr (fc, fi, cb_c, cb_i)"
    and "unat fc = fees_c txs" and "unat fi = fees_i txs"
    and "unat cb_c = unat (tok rc) + fees_c txs" and "unat cb_i = unat (tok ri) + fees_i txs"
proof -
  let ?fc = "of_nat (fees_c txs) :: u64" and ?fi = "of_nat (fees_i txs) :: u64"
  have c: "u64_try_from (fees_c txs) = Some ?fc" "unat ?fc = fees_c txs"
    and i: "u64_try_from (fees_i txs) = Some ?fi" "unat ?fi = fees_i txs"
    using u64_try_from_exact [of "fees_c txs"] u64_try_from_exact [of "fees_i txs"] assms by auto
  have cc: "checked_add (tok rc) ?fc = Some (tok rc + ?fc)" "unat (tok rc + ?fc) = unat (tok rc) + fees_c txs"
    and ci: "checked_add (tok ri) ?fi = Some (tok ri + ?fi)" "unat (tok ri + ?fi) = unat (tok ri) + fees_i txs"
    using assms c i by (simp_all add: checked_add_def unat_add_exact del: unat_of_nat)
  show ?thesis
    by (rule that [of ?fc ?fi "tok rc + ?fc" "tok ri + ?fi"])
      (simp_all add: coinbase_amounts_def fee_totals_eq checked_fee_def c i cc ci del: unat_of_nat)
qed

lemma mset_pending_sorted: "mset (pending_sorted s) = mset (pool_txs s)"
  by (simp add: pending_sorted_def)

lemma set_pending_sorted: "set (pending_sorted s) = set (pool_txs s)"
  using mset_pending_sorted by (metis set_mset_mset)

section \<open>The outcome of mining\<close>

definition prev_hash_of :: "block list \<Rightarrow> string" where
  "prev_hash_of chain =
     (if (of_nat (length chain) :: u64) = 0 then zero_prev_hash else blk_hash (last chain))"

definition mined_state ::
  "blockchain \<Rightarrow> block \<Rightarrow> accounts \<Rightarrow> token_amount \<Rightarrow> token_amount \<Rightarrow> blockchain" where
  "mined_state s b C rc ri =
     s\<lparr>bc_block_reward_consumer := decay (bc_block_reward_consumer s),
       bc_block_reward_industrial := decay (bc_block_reward_industrial s),
       bc_mempool := [], bc_chain := bc_chain s @ [b], bc_accounts := C,
       bc_emission_consumer := bc_emission_consumer s + tok rc,
       bc_emission_industrial := bc_emission_industrial s + tok ri,
       bc_block_height := bc_block_height s + 1\<rparr>"

definition mined_outcome ::
  "env \<Rightarrow> string \<Rightarrow> blockchain \<Rightarrow> u64 \<times> u64 \<times> u64 \<times> u64 \<Rightarrow> accounts \<Rightarrow> token_amount \<Rightarrow>
   token_amount \<Rightarrow> (blockchain, block) outcome" where
  "mined_outcome E miner s amounts C rc ri =
     (let b0 = block_template E (prev_hash_of (bc_chain s)) miner s amounts in
      case pow_search E b0 0 of
        Inl e \<Rightarrow> (Inl e, s\<lparr>bc_block_reward_consumer := decay (bc_block_reward_consumer s),
                   bc_block_reward_industrial := decay (bc_block_reward_industrial s),
                   bc_mempool := []\<rparr>)
      | Inr (n, h) \<Rightarrow>
          (let b = b0\<lparr>blk_nonce := n, blk_hash := h\<rparr>; t = mined_state s b C rc ri in
           case bincode_disk E (disk_of_blockchain t) of
             None \<Rightarrow> (Inl (ValueError ''Serialization error''), t)
           | Some bytes \<Rightarrow> (Inr b, t\<lparr>bc_db := db_after (bc_db t) bytes\<rparr>)))"

lemma commit_txs_eq:
  assumes "bc_mempool s = []" and "apply_mined_txs E txs (bc_accounts s) = (Inr (), B)"
  shows "commit_txs E txs s = (Inr (), s\<lparr>bc_accounts := B\<rparr>)"
  using assms
proof (induction txs arbitrary: s)
  case Nil
  then show ?case by simp
next
  case (Cons tx txs)
  from Cons.prems(2) obtain A where A: "apply_mined_tx E tx (bc_accounts s) = (Inr (), A)"
    and rest: "apply_mined_txs E txs A = (Inr (), B)"
    by (auto elim!: and_then_InrE)
  have "commit_txs E txs (s\<lparr>bc_accounts := A, bc_mempool := []\<rparr>) =
      (Inr (), s\<lparr>bc_accounts := A, bc_mempool := [], bc_accounts := B\<rparr>)"
    using rest by (intro Cons.IH) simp_all
  with A Cons.prems(1) show ?case by (cases s) (simp add: on_accounts_def)
qed

lemma commit_block_eq:
  assumes mp: "bc_mempool s = []"
    and ap: "apply_mined_txs E (drop 1 (blk_transactions b)) (bc_accounts s) = (Inr (), B)"
    and room: "room B miner (tok (blk_coinbase_consumer b)) (tok (blk_coinbase_industrial b))"
    and ec: "unat (bc_emission_consumer s) + unat (tok rc) < 2 ^ 64"
    and ei: "unat (bc_emission_industrial s) + unat (tok ri) < 2 ^ 64"
    and bh: "unat (bc_block_height s) + 1 < 2 ^ 64"
  defines "t \<equiv> s\<lparr>bc_chain := bc_chain s @ [b],
      bc_accounts := B(miner \<mapsto> credited (tok (blk_coinbase_consumer b))
        (tok (blk_coinbase_industrial b)) (or_insert B miner)),
      bc_emission_consumer := bc_emission_consumer s + tok rc,
      bc_emission_industrial := bc_emission_industrial s + tok ri,
      bc_block_height := bc_block_height s + 1\<rparr>"
  shows "commit_block E miner rc ri b s =
     (case bincode_disk E (disk_of_blockchain t) of
        None \<Rightarrow> (Inl (ValueError ''Serialization error''), t)
      | Some bytes \<Rightarrow> (Inr b, t\<lparr>bc_db := db_after (bc_db t) bytes\<rparr>))"
proof -
  have "commit_txs E (drop 1 (blk_transactions b)) (s\<lparr>bc_chain := bc_chain s @ [b]\<rparr>) =
      (Inr (), s\<lparr>bc_chain := bc_chain s @ [b], bc_accounts := B\<rparr>)"
    using mp ap by (subst commit_txs_eq [where B = B]) simp_all
  moreover have "u_add (build E) (bc_emission_consumer s) (tok rc) = Inr (bc_emission_consumer s + tok rc)"
    "u_add (build E) (bc_emission_industrial s) (tok ri) = Inr (bc_emission_industrial s + tok ri)"
    "u_add (build E) (bc_block_height s) 1 = Inr (bc_block_height s + 1)"
    using ec ei bh by (simp_all add: u_add_exact)
  ultimately show ?thesis
    by (simp add: commit_block_def on_accounts_def credit_miner_eq [OF room] persist_chain_eq
        Let_def t_def split: option.split)
qed

text \<open>
  When mining is safe: reservations back the mempool, no pending transaction claims the
  coinbase address, the emission counters respect their caps, and supply plus reward
  still fits in a \<open>u64\<close>.
\<close>

definition mining_ready :: "blockchain \<Rightarrow> bool" where
  "mining_ready s \<longleftrightarrow>
     mempool_inv s \<and> (\<forall>tx\<in>set (pool_txs s). tx_from tx \<noteq> COINBASE_ADDR) \<and>
     unat (bc_emission_consumer s) \<le> 20000000000000 \<and>
     unat (bc_emission_industrial s) \<le> 20000000000000 \<and>
     unat (tok (bc_block_reward_consumer s)) \<le> 60000 \<and>
     unat (tok (bc_block_reward_industrial s)) \<le> 60000 \<and>
     supply_c (bc_accounts s) + unat (tok (bc_block_reward_consumer s)) < 2 ^ 64 \<and>
     supply_i (bc_accounts s) + unat (tok (bc_block_reward_industrial s)) < 2 ^ 64 \<and>
     unat (bc_block_height s) + 1 < 2 ^ 64"

definition next_reward_c :: "blockchain \<Rightarrow> nat" where
  "next_reward_c s =
     min (unat (tok (decay (bc_block_reward_consumer s))))
         (20000000000000 - unat (bc_emission_consumer s))"

definition next_reward_i :: "blockchain \<Rightarrow> nat" where
  "next_reward_i s =
     min (unat (tok (decay (bc_block_reward_industrial s))))
         (20000000000000 - unat (bc_emission_industrial s))"

definition mining_effect ::
  "blockchain \<Rightarrow> string \<Rightarrow> u64 \<times> u64 \<times> u64 \<times> u64 \<Rightarrow> accounts \<Rightarrow> accounts \<Rightarrow>
   token_amount \<Rightarrow> token_amount \<Rightarrow> bool" where
  "mining_effect s miner amounts B C rc ri \<longleftrightarrow>
     (case amounts of (fc, fi, cb_c, cb_i) \<Rightarrow>
       unat (tok rc) = next_reward_c s \<and> unat (tok ri) = next_reward_i s \<and>
       unat fc = fees_c (pending_sorted s) \<and> unat fi = fees_i (pending_sorted s) \<and>
       unat cb_c = next_reward_c s + fees_c (pending_sorted s) \<and>
       unat cb_i = next_reward_i s + fees_i (pending_sorted s) \<and>
       settles (bc_accounts s) (pending_sorted s) B \<and> ledger_inv B [] \<and>
       room B miner cb_c cb_i \<and> C = B(miner \<mapsto> credited cb_c cb_i (or_insert B miner)))"

lemma next_reward_le:
  "next_reward_c s \<le> unat (tok (bc_block_reward_consumer s))"
  "next_reward_i s \<le> unat (tok (bc_block_reward_industrial s))"
proof -
  have "unat (tok (decay r)) \<le> unat (tok r)" for r
    using decay_le [of r] by (simp add: less_eq_token_amount_def word_le_nat_alt)
  from this [of "bc_block_reward_consumer s"] this [of "bc_block_reward_industrial s"]
  show "next_reward_c s \<le> unat (tok (bc_block_reward_consumer s))"
    "next_reward_i s \<le> unat (tok (bc_block_reward_industrial s))"
    unfolding next_reward_c_def next_reward_i_def by linarith+
qed

lemma rewards_ok:
  assumes "mining_ready s"
  obtains rc ri where
    "cap_reward E MAX_SUPPLY_CONSUMER (bc_emission_consumer s) (decay (bc_block_reward_consumer s)) = Inr rc"
    "cap_reward E MAX_SUPPLY_INDUSTRIAL (bc_emission_industrial s) (decay (bc_block_reward_industrial s)) = Inr ri"
    "unat (tok rc) = next_reward_c s" "unat (tok ri) = next_reward_i s"
proof -
  have d: "unat (tok (decay r)) \<le> unat (tok r)" for r
    using decay_le [of r] by (simp add: less_eq_token_amount_def word_le_nat_alt)
  show ?thesis
    using cap_reward_ok [of "bc_emission_consumer s" MAX_SUPPLY_CONSUMER "decay (bc_block_reward_consumer s)" E]
      cap_reward_ok [of "bc_emission_industrial s" MAX_SUPPLY_INDUSTRIAL "decay (bc_block_reward_industrial s)" E]
      d [of "bc_block_reward_consumer s"] d [of "bc_block_reward_industrial s"] assms that
    by (auto simp: mining_ready_def next_reward_c_def next_reward_i_def)
qed

text \<open>When every computation before and after the search succeeds, the search decides.\<close>

lemma mine_block_reduce:
  assumes rc: "cap_reward E MAX_SUPPLY_CONSUMER (bc_emission_consumer s) (decay (bc_block_reward_consumer s)) = Inr rc"
    and ri: "cap_reward E MAX_SUPPLY_INDUSTRIAL (bc_emission_industrial s) (decay (bc_block_reward_industrial s)) = Inr ri"
    and cb: "coinbase_amounts rc ri (pending_sorted s) = Inr (fc, fi, cb_c, cb_i)"
    and B: "apply_mined_txs E (pending_sorted s) (bc_accounts s) = (Inr (), B)"
    and room: "room B miner cb_c cb_i"
    and em: "unat (bc_emission_consumer s) + unat (tok rc) < 2 ^ 64"
      "unat (bc_emission_industrial s) + unat (tok ri) < 2 ^ 64" "unat (bc_block_height s) + 1 < 2 ^ 64"
  shows "mine_block E miner s =
    mined_outcome E miner s (fc, fi, cb_c, cb_i) (B(miner \<mapsto> credited cb_c cb_i (or_insert B miner))) rc ri"
proof -
  let ?am = "(fc, fi, cb_c, cb_i)"
  let ?s1 = "s\<lparr>bc_block_reward_consumer := decay (bc_block_reward_consumer s),
      bc_block_reward_industrial := decay (bc_block_reward_industrial s), bc_mempool := []\<rparr>"
  let ?b0 = "block_template E (prev_hash_of (bc_chain s)) miner s ?am"
  let ?C = "B(miner \<mapsto> credited cb_c cb_i (or_insert B miner))"
  have step: "mine_block E miner s = and_then (pow_search E ?b0 0, ?s1) (\<lambda>(n, h) s.
      commit_block E miner rc ri (?b0\<lparr>blk_nonce := n, blk_hash := h\<rparr>) s)"
    using rc ri cb
    by (simp add: mine_block_def Let_def prev_hash_of_def block_template_def pending_sorted_def)
  have "commit_block E miner rc ri (?b0\<lparr>blk_nonce := n, blk_hash := h\<rparr>) ?s1 =
      (let b = ?b0\<lparr>blk_nonce := n, blk_hash := h\<rparr>; t = mined_state s b ?C rc ri in
       case bincode_disk E (disk_of_blockchain t) of
         None \<Rightarrow> (Inl (ValueError ''Serialization error''), t)
       | Some bytes \<Rightarrow> (Inr b, t\<lparr>bc_db := db_after (bc_db t) bytes\<rparr>))" for n h
    using B room em
    by (subst commit_block_eq [where B = B])
      (simp_all add: block_template_def mined_state_def Let_def split: option.split)
  then show ?thesis
    by (simp add: step mined_outcome_def Let_def split: sum.split)
qed

lemma mine_block_eval:
  assumes rdy: "mining_ready s"
  obtains amounts B C rc ri where "mining_effect s miner amounts B C rc ri"
    and "mine_block E miner s = mined_outcome E miner s amounts C rc ri"
proof -
  obtain rc ri where
    rc: "cap_reward E MAX_SUPPLY_CONSUMER (bc_emission_consumer s) (decay (bc_block_reward_consumer s)) = Inr rc"
    "unat (tok rc) = next_reward_c s" and
    ri: "cap_reward E MAX_SUPPLY_INDUSTRIAL (bc_emission_industrial s) (decay (bc_block_reward_industrial s)) = Inr ri"
    "unat (tok ri) = next_reward_i s"
    using rewards_ok [OF rdy] by metis
  have led: "ledger_inv (bc_accounts s) (pending_sorted s)"
    using rdy ledger_inv_perm [OF mset_pending_sorted] by (auto simp: mining_ready_def mempool_inv_def)
  have sup: "supply_c (bc_accounts s) < 2 ^ 64" "supply_i (bc_accounts s) < 2 ^ 64"
    using rdy by (auto simp: mining_ready_def)
  have nz: "\<forall>tx\<in>set (pending_sorted s). tx_from tx \<noteq> COINBASE_ADDR"
    using rdy by (simp add: mining_ready_def set_pending_sorted)
  obtain B where B: "apply_mined_txs E (pending_sorted s) (bc_accounts s) = (Inr (), B)"
    "ledger_inv B []" "settles (bc_accounts s) (pending_sorted s) B"
    using apply_mined_txs_ok [OF led nz sup] by blast
  have fees: "supply_c B + fees_c (pending_sorted s) = supply_c (bc_accounts s)"
    "supply_i B + fees_i (pending_sorted s) = supply_i (bc_accounts s)"
    using B(3) by (simp_all add: settles_def)
  have le: "next_reward_c s + supply_c (bc_accounts s) < 2 ^ 64"
    "next_reward_i s + supply_i (bc_accounts s) < 2 ^ 64"
    using rdy next_reward_le [of s] by (auto simp: mining_ready_def)
  have "unat (tok rc) + fees_c (pending_sorted s) < 2 ^ 64"
    and "unat (tok ri) + fees_i (pending_sorted s) < 2 ^ 64"
    using le fees rc(2) ri(2) by linarith+
  from coinbase_amounts_ok [OF this] obtain fc fi cb_c cb_i where
    cb: "coinbase_amounts rc ri (pending_sorted s) = Inr (fc, fi, cb_c, cb_i)"
    and am: "unat fc = fees_c (pending_sorted s)" "unat fi = fees_i (pending_sorted s)"
    "unat cb_c = next_reward_c s + fees_c (pending_sorted s)"
    "unat cb_i = next_reward_i s + fees_i (pending_sorted s)"
    unfolding rc(2) ri(2) by blast
  have room: "room B miner cb_c cb_i"
    using bal_le_supply [OF ledger_invD(1) [OF B(2)], of miner] am fees le by (simp add: room_def)
  let ?C = "B(miner \<mapsto> credited cb_c cb_i (or_insert B miner))"
  have em: "unat (bc_emission_consumer s) + unat (tok rc) < 2 ^ 64"
    "unat (bc_emission_industrial s) + unat (tok ri) < 2 ^ 64"
    "unat (bc_block_height s) + 1 < 2 ^ 64"
    using rdy rc(2) ri(2) next_reward_le [of s] by (auto simp: mining_ready_def)
  note mine_block_reduce [OF rc(1) ri(1) cb B(1) room em]
  moreover have "mining_effect s miner (fc, fi, cb_c, cb_i) B ?C rc ri"
    using am rc(2) ri(2) B room by (simp add: mining_effect_def)
  ultimately show ?thesis by (rule that [rotated])
qed

section \<open>Consequences\<close>

lemma block_hash_decodes: "hex_roundtrip E \<Longrightarrow> hex_decode E (block_hash_at E b n) \<noteq> None"
  by (simp add: block_hash_header encoder_hash_def finalize_hex_def hex_decode_to_hex)

text \<open>The search returns the least nonce from \<open>n\<close> on that meets the target, or overflows.\<close>

lemma pow_search_eval:
  assumes "hex_roundtrip E"
  shows "if \<exists>k. n \<le> k \<and> meets_target E b k
    then \<exists>m. pow_search E b n = Inr (m, block_hash_at E b m) \<and> n \<le> m \<and> meets_target E b m \<and>
           (\<forall>k. n \<le> k \<and> k < m \<longrightarrow> \<not> meets_target E b k)
    else pow_search E b n = Inl (ValueError ''Nonce overflow'')"
proof (cases "\<exists>k. n \<le> k \<and> meets_target E b k")
  case True
  have dec: "\<forall>k. hex_decode E (block_hash_at E b k) \<noteq> None" using block_hash_decodes [OF assms] by blast
  from True obtain k where "n \<le> k" "meets_target E b k" by blast
  from pow_search_finds [OF dec this] obtain m where m: "pow_search E b n = Inr (m, block_hash_at E b m)"
    by blast
  from pow_search_Inr [OF m] m True show ?thesis by auto
next
  case False
  have dec: "\<forall>k. hex_decode E (block_hash_at E b k) \<noteq> None" using block_hash_decodes [OF assms] by blast
  from pow_search_gives_up [OF dec, of n] False show ?thesis by auto
qed

lemma template_simps [simp]:
  "drop 1 (blk_transactions (block_template E prev miner s amounts)) = pending_sorted s"
  "drop (Suc 0) (blk_transactions (block_template E prev miner s amounts)) = pending_sorted s"
  "blk_difficulty (block_template E prev miner s amounts) = bc_difficulty s"
  "blk_previous_hash (block_template E prev miner s amounts) = prev"
  "blk_index (block_template E prev miner s amounts) = of_nat (length (bc_chain s))"
  by (cases amounts; simp add: block_template_def)+

lemma template_amounts:
  "blk_coinbase_consumer (block_template E prev miner s (fc, fi, cb_c, cb_i)) = TokenAmount cb_c"
  "blk_coinbase_industrial (block_template E prev miner s (fc, fi, cb_c, cb_i)) = TokenAmount cb_i"
  "blk_fee_checksum (block_template E prev miner s (fc, fi, cb_c, cb_i)) = fee_checksum E fc fi"
  "blk_transactions (block_template E prev miner s (fc, fi, cb_c, cb_i)) =
     coinbase_tx miner cb_c cb_i # pending_sorted s"
  by (simp_all add: block_template_def)

lemma sealed_block [simp]:
  "block_hash_at E (b\<lparr>blk_nonce := n, blk_hash := h\<rparr>) k = block_hash_at E b k"
  "meets_target E (b\<lparr>blk_nonce := n, blk_hash := h\<rparr>) k = meets_target E b k"
  by (simp_all add: meets_target_def block_hash_at_def split: option.split)

text \<open>The state and the block of a successful \<open>mine_block\<close>.\<close>

lemma mine_block_success:
  assumes rdy: "mining_ready s" and ok: "mine_block E miner s = (Inr b, t)"
  obtains n fc fi cb_c cb_i B rc ri bytes where
    "mining_effect s miner (fc, fi, cb_c, cb_i) B
       (B(miner \<mapsto> credited cb_c cb_i (or_insert B miner))) rc ri"
    and "b = (block_template E (prev_hash_of (bc_chain s)) miner s (fc, fi, cb_c, cb_i))
               \<lparr>blk_nonce := n,
                blk_hash := block_hash_at E (block_template E (prev_hash_of (bc_chain s)) miner s (fc, fi, cb_c, cb_i)) n\<rparr>"
    and "meets_target E b n"
    and "t = (mined_state s b (B(miner \<mapsto> credited cb_c cb_i (or_insert B miner))) rc ri)
               \<lparr>bc_db := db_after (bc_db s) bytes\<rparr>"
proof -
  obtain amounts B C rc ri where eff: "mining_effect s miner amounts B C rc ri"
    and ev: "mine_block E miner s = mined_outcome E miner s amounts C rc ri"
    by (rule mine_block_eval [OF rdy])
  obtain fc fi cb_c cb_i where am: "amounts = (fc, fi, cb_c, cb_i)" by (cases amounts)
  from eff am have C: "C = B(miner \<mapsto> credited cb_c cb_i (or_insert B miner))"
    by (simp add: mining_effect_def)
  let ?b0 = "block_template E (prev_hash_of (bc_chain s)) miner s amounts"
  from ok ev obtain n h bytes where pow: "pow_search E ?b0 0 = Inr (n, h)"
    and b: "b = ?b0\<lparr>blk_nonce := n, blk_hash := h\<rparr>"
    and t: "t = (mined_state s b C rc ri)\<lparr>bc_db := db_after (bc_db (mined_state s b C rc ri)) bytes\<rparr>"
    by (auto simp: mined_outcome_def Let_def split: sum.splits option.splits)
  from pow_search_Inr [OF pow] have h: "h = block_hash_at E ?b0 n" and "meets_target E ?b0 n" by auto
  then have "meets_target E b n" unfolding b by simp
  with that eff am C b h t show ?thesis by (auto simp: mined_state_def)
qed

lemma mined_state_simps [simp]:
  "bc_accounts (mined_state s b C rc ri) = C" "bc_mempool (mined_state s b C rc ri) = []"
  "bc_chain (mined_state s b C rc ri) = bc_chain s @ [b]"
  "bc_emission_consumer (mined_state s b C rc ri) = bc_emission_consumer s + tok rc"
  "bc_emission_industrial (mined_state s b C rc ri) = bc_emission_industrial s + tok ri"
  "bc_block_height (mined_state s b C rc ri) = bc_block_height s + 1"
  "bc_difficulty (mined_state s b C rc ri) = bc_difficulty s"
  "bc_block_reward_consumer (mined_state s b C rc ri) = decay (bc_block_reward_consumer s)"
  "bc_block_reward_industrial (mined_state s b C rc ri) = decay (bc_block_reward_industrial s)"
  by (simp_all add: mined_state_def)

lemma emission_after:
  assumes "mining_ready s" and "unat (tok rc) = next_reward_c s" and "unat (tok ri) = next_reward_i s"
  shows "unat (bc_emission_consumer s + tok rc) = unat (bc_emission_consumer s) + next_reward_c s"
    and "unat (bc_emission_industrial s + tok ri) = unat (bc_emission_industrial s) + next_reward_i s"
    and "unat (bc_emission_consumer s) + next_reward_c s \<le> 20000000000000"
    and "unat (bc_emission_industrial s) + next_reward_i s \<le> 20000000000000"
proof -
  have le: "unat (bc_emission_consumer s) \<le> 20000000000000"
    "unat (bc_emission_industrial s) \<le> 20000000000000"
    using assms(1) by (simp_all add: mining_ready_def)
  then show c: "unat (bc_emission_consumer s) + next_reward_c s \<le> 20000000000000"
    and i: "unat (bc_emission_industrial s) + next_reward_i s \<le> 20000000000000"
    unfolding next_reward_c_def next_reward_i_def by linarith+
  show "unat (bc_emission_consumer s + tok rc) = unat (bc_emission_consumer s) + next_reward_c s"
    using c assms(2) by (simp add: unat_add_exact)
  show "unat (bc_emission_industrial s + tok ri) = unat (bc_emission_industrial s) + next_reward_i s"
    using i assms(3) by (simp add: unat_add_exact)
qed

lemma acc_no_pending: "acc_ok [] addr a \<Longrightarrow>
    acc_pending_consumer a = 0 \<and> acc_pending_industrial a = 0 \<and> acc_pending_nonce a = 0"
  by (simp add: acc_ok_def unat_eq_0)

lemma mined_mempool_inv:
  assumes "mining_effect s miner amounts B C rc ri"
  shows "ledger_inv C []"
  using assms ledger_inv_credited by (auto simp: mining_effect_def)
lemma mined_settlement:
  assumes "mining_ready s" and "mine_block E miner s = (Inr b, t)"
  shows "mset (drop 1 (blk_transactions b)) = mset (pool_txs s) \<and>
    (\<forall>x. bal_c (bc_accounts t) x + load tx_total_c x (drop 1 (blk_transactions b)) =
         bal_c (bc_accounts s) x + paid_to amt_c x (drop 1 (blk_transactions b)) +
         (if x = miner then unat (tok (blk_coinbase_consumer b)) else 0)) \<and>
    (\<forall>x. bal_i (bc_accounts t) x + load tx_total_i x (drop 1 (blk_transactions b)) =
         bal_i (bc_accounts s) x + paid_to amt_i x (drop 1 (blk_transactions b)) +
         (if x = miner then unat (tok (blk_coinbase_industrial b)) else 0)) \<and>
    (\<forall>x. nonce_of (bc_accounts t) x =
         nonce_after (nonce_of (bc_accounts s) x) x (drop 1 (blk_transactions b)))"
proof (rule mine_block_success [OF assms])
  fix n fc fi cb_c cb_i B rc ri bytes
  let ?C = "B(miner \<mapsto> credited cb_c cb_i (or_insert B miner))"
  let ?b0 = "block_template E (prev_hash_of (bc_chain s)) miner s (fc, fi, cb_c, cb_i)"
  assume eff: "mining_effect s miner (fc, fi, cb_c, cb_i) B ?C rc ri"
    and b: "b = ?b0\<lparr>blk_nonce := n, blk_hash := block_hash_at E ?b0 n\<rparr>"
    and t: "t = (mined_state s b ?C rc ri)\<lparr>bc_db := db_after (bc_db s) bytes\<rparr>"
  from eff have st: "settles (bc_accounts s) (pending_sorted s) B" and room: "room B miner cb_c cb_i"
    by (simp_all add: mining_effect_def)
  have "nonce_of ?C x = nonce_of B x" for x
    by (simp add: nonce_of_def or_insert_def split: option.split)
  with st acc_credited [OF room] show ?thesis
    unfolding t b
    by (simp add: settles_def template_amounts mset_pending_sorted)
qed

lemma mined_supply:
  assumes "mining_ready s" and "mine_block E miner s = (Inr b, t)"
  shows "supply_c (bc_accounts t) = supply_c (bc_accounts s) + next_reward_c s \<and>
    supply_i (bc_accounts t) = supply_i (bc_accounts s) + next_reward_i s \<and>
    unat (tok (blk_coinbase_consumer b)) = next_reward_c s + fees_c (drop 1 (blk_transactions b)) \<and>
    unat (tok (blk_coinbase_industrial b)) = next_reward_i s + fees_i (drop 1 (blk_transactions b)) \<and>
    unat (bc_emission_consumer t) = unat (bc_emission_consumer s) + next_reward_c s \<and>
    unat (bc_emission_industrial t) = unat (bc_emission_industrial s) + next_reward_i s"
proof (rule mine_block_success [OF assms])
  fix n fc fi cb_c cb_i B rc ri bytes
  let ?C = "B(miner \<mapsto> credited cb_c cb_i (or_insert B miner))"
  let ?b0 = "block_template E (prev_hash_of (bc_chain s)) miner s (fc, fi, cb_c, cb_i)"
  assume eff: "mining_effect s miner (fc, fi, cb_c, cb_i) B ?C rc ri"
    and b: "b = ?b0\<lparr>blk_nonce := n, blk_hash := block_hash_at E ?b0 n\<rparr>"
    and t: "t = (mined_state s b ?C rc ri)\<lparr>bc_db := db_after (bc_db s) bytes\<rparr>"
  from eff have st: "settles (bc_accounts s) (pending_sorted s) B" and room: "room B miner cb_c cb_i"
    and fin: "finite (dom B)"
    by (simp_all add: mining_effect_def ledger_inv_def)
  with supply_credited [OF fin room] eff emission_after [OF assms(1), of rc ri] show ?thesis
    unfolding t b by (simp add: mining_effect_def settles_def template_amounts)
qed

lemma mined_invariant:
  assumes "mining_ready s" and "mine_block E miner s = (Inr b, t)"
  shows "mempool_inv t \<and> bc_mempool t = [] \<and>
    (\<forall>x a. bc_accounts t x = Some a \<longrightarrow>
       acc_pending_consumer a = 0 \<and> acc_pending_industrial a = 0 \<and> acc_pending_nonce a = 0) \<and>
    unat (bc_emission_consumer t) \<le> unat MAX_SUPPLY_CONSUMER \<and>
    unat (bc_emission_industrial t) \<le> unat MAX_SUPPLY_INDUSTRIAL \<and>
    bc_block_reward_consumer t = decay (bc_block_reward_consumer s) \<and>
    bc_block_reward_industrial t = decay (bc_block_reward_industrial s) \<and>
    bc_chain t = bc_chain s @ [b] \<and> blk_index b = of_nat (length (bc_chain s)) \<and>
    blk_previous_hash b = prev_hash_of (bc_chain s)"
proof (rule mine_block_success [OF assms])
  fix n fc fi cb_c cb_i B rc ri bytes
  let ?C = "B(miner \<mapsto> credited cb_c cb_i (or_insert B miner))"
  let ?b0 = "block_template E (prev_hash_of (bc_chain s)) miner s (fc, fi, cb_c, cb_i)"
  assume eff: "mining_effect s miner (fc, fi, cb_c, cb_i) B ?C rc ri"
    and b: "b = ?b0\<lparr>blk_nonce := n, blk_hash := block_hash_at E ?b0 n\<rparr>"
    and t: "t = (mined_state s b ?C rc ri)\<lparr>bc_db := db_after (bc_db s) bytes\<rparr>"
  from mined_mempool_inv [OF eff] have led: "ledger_inv ?C []" .
  have r: "unat (tok rc) = next_reward_c s" "unat (tok ri) = next_reward_i s"
    using eff by (simp_all add: mining_effect_def)
  from ledger_invD(2) [OF led] acc_no_pending
  have "?C x = Some a \<Longrightarrow>
      acc_pending_consumer a = 0 \<and> acc_pending_industrial a = 0 \<and> acc_pending_nonce a = 0" for x a
    by blast
  with led emission_after [OF assms(1) r] show ?thesis
    unfolding t b by (simp add: mempool_inv_def template_amounts)
qed

section \<open>Properties\<close>

text \<open>
  C1: Settlement. The mined block carries exactly the transactions of the mempool, and the
  accounts after it are the accounts before it with every sender charged amounts plus fees,
  every recipient paid the amounts, and the miner paid the coinbase of the block: for every
  address and on both token sides, as an equation without wrap-around or saturation. The
  nonce of every sender is that of its last transaction.
\<close>

theorem mine_block_settles:
  assumes "mining_ready s" and "mine_block E miner s = (Inr b, t)"
  shows "mset (drop 1 (blk_transactions b)) = mset (pool_txs s) \<and>
    (\<forall>x. bal_c (bc_accounts t) x + load tx_total_c x (drop 1 (blk_transactions b)) =
         bal_c (bc_accounts s) x + paid_to amt_c x (drop 1 (blk_transactions b)) +
         (if x = miner then unat (tok (blk_coinbase_consumer b)) else 0)) \<and>
    (\<forall>x. bal_i (bc_accounts t) x + load tx_total_i x (drop 1 (blk_transactions b)) =
         bal_i (bc_accounts s) x + paid_to amt_i x (drop 1 (blk_transactions b)) +
         (if x = miner then unat (tok (blk_coinbase_industrial b)) else 0)) \<and>
    (\<forall>x. nonce_of (bc_accounts t) x =
         nonce_after (nonce_of (bc_accounts s) x) x (drop 1 (blk_transactions b)))"
  by (rule mined_settlement [OF assms])

text \<open>
  C2: Conservation. Mining a block adds to the sum of all balances exactly the capped block
  reward, on each side: the fees only move from the senders to the miner (INV-FEE-01). The
  coinbase is reward plus fees, and the emission counters grow by the reward.
\<close>

theorem mine_block_conserves:
  assumes "mining_ready s" and "mine_block E miner s = (Inr b, t)"
  shows "supply_c (bc_accounts t) = supply_c (bc_accounts s) + next_reward_c s \<and>
    supply_i (bc_accounts t) = supply_i (bc_accounts s) + next_reward_i s \<and>
    unat (tok (blk_coinbase_consumer b)) = next_reward_c s + fees_c (drop 1 (blk_transactions b)) \<and>
    unat (tok (blk_coinbase_industrial b)) = next_reward_i s + fees_i (drop 1 (blk_transactions b)) \<and>
    unat (bc_emission_consumer t) = unat (bc_emission_consumer s) + next_reward_c s \<and>
    unat (bc_emission_industrial t) = unat (bc_emission_industrial s) + next_reward_i s"
  by (rule mined_supply [OF assms])

text \<open>
  C15: Mining keeps the node well-formed: the mempool is empty, every reservation is gone,
  the invariant of the mempool holds, both emission counters stay within the maximum supply
  of 20 trillion, both rewards have decayed, and the chain is one block longer, linked to
  the block before and indexed by its position.
\<close>

theorem mine_block_invariant:
  assumes "mining_ready s" and "mine_block E miner s = (Inr b, t)"
  shows "mempool_inv t \<and> bc_mempool t = [] \<and>
    (\<forall>x a. bc_accounts t x = Some a \<longrightarrow>
       acc_pending_consumer a = 0 \<and> acc_pending_industrial a = 0 \<and> acc_pending_nonce a = 0) \<and>
    unat (bc_emission_consumer t) \<le> unat MAX_SUPPLY_CONSUMER \<and>
    unat (bc_emission_industrial t) \<le> unat MAX_SUPPLY_INDUSTRIAL \<and>
    bc_block_reward_consumer t = decay (bc_block_reward_consumer s) \<and>
    bc_block_reward_industrial t = decay (bc_block_reward_industrial s) \<and>
    bc_chain t = bc_chain s @ [b] \<and> blk_index b = of_nat (length (bc_chain s)) \<and>
    blk_previous_hash b = prev_hash_of (bc_chain s)"
  by (rule mined_invariant [OF assms])

lemma mine_block_decided:
  assumes "mining_ready s" and "hex_roundtrip E" and "\<forall>d. bincode_disk E d \<noteq> None"
  shows "\<exists>tmpl. drop 1 (blk_transactions tmpl) = pending_sorted s \<and>
    blk_difficulty tmpl = bc_difficulty s \<and>
    (if \<exists>n. meets_target E tmpl n
     then \<exists>n t. mine_block E miner s =
                 (Inr (tmpl\<lparr>blk_nonce := n, blk_hash := block_hash_at E tmpl n\<rparr>), t) \<and>
            meets_target E tmpl n \<and> (\<forall>k<n. \<not> meets_target E tmpl k)
     else mine_block E miner s =
            (Inl (ValueError ''Nonce overflow''),
             s\<lparr>bc_block_reward_consumer := decay (bc_block_reward_consumer s),
               bc_block_reward_industrial := decay (bc_block_reward_industrial s),
               bc_mempool := []\<rparr>))"
proof -
  obtain amounts B C rc ri where
    ev: "mine_block E miner s = mined_outcome E miner s amounts C rc ri"
    by (rule mine_block_eval [OF assms(1)])
  let ?b0 = "block_template E (prev_hash_of (bc_chain s)) miner s amounts"
  show ?thesis
  proof (cases "\<exists>n. meets_target E ?b0 n")
    case True
    with pow_search_eval [OF assms(2), of 0 ?b0] obtain n where
      n: "pow_search E ?b0 0 = Inr (n, block_hash_at E ?b0 n)" "meets_target E ?b0 n"
      "\<forall>k<n. \<not> meets_target E ?b0 k" by auto
    then have "\<exists>t. mine_block E miner s = (Inr (?b0\<lparr>blk_nonce := n, blk_hash := block_hash_at E ?b0 n\<rparr>), t)"
      using assms(3) by (auto simp: ev mined_outcome_def Let_def split: option.split)
    with True n(2,3) show ?thesis by (intro exI [of _ ?b0]) auto
  next
    case False
    with pow_search_eval [OF assms(2), of 0 ?b0]
    have "pow_search E ?b0 0 = Inl (ValueError ''Nonce overflow'')" by simp
    with False show ?thesis
      by (intro exI [of _ ?b0]) (simp add: ev mined_outcome_def Let_def)
  qed
qed

text \<open>
  C7: The outcome of mining is decided by the proof of work alone. In a state that is ready
  to mine, \<open>mine_block\<close> never panics and never fails on fees, rewards or balances: if some
  nonce of the block template meets the target it returns the block with the least such
  nonce and its hash; otherwise it tries all nonces and fails with a nonce overflow, having
  already decayed the rewards and emptied the mempool.
\<close>

theorem mine_block_outcome:
  assumes "mining_ready s" and "hex_roundtrip E" and "\<forall>d. bincode_disk E d \<noteq> None"
  shows "\<exists>tmpl. drop 1 (blk_transactions tmpl) = pending_sorted s \<and>
    blk_difficulty tmpl = bc_difficulty s \<and>
    (if \<exists>n. meets_target E tmpl n
     then \<exists>n t. mine_block E miner s =
                 (Inr (tmpl\<lparr>blk_nonce := n, blk_hash := block_hash_at E tmpl n\<rparr>), t) \<and>
            meets_target E tmpl n \<and> (\<forall>k<n. \<not> meets_target E tmpl k)
     else mine_block E miner s =
            (Inl (ValueError ''Nonce overflow''),
             s\<lparr>bc_block_reward_consumer := decay (bc_block_reward_consumer s),
               bc_block_reward_industrial := decay (bc_block_reward_industrial s),
               bc_mempool := []\<rparr>))"
  by (rule mine_block_decided [OF assms])

text \<open>
  C26: The proof-of-work loop ends for every header and start, and returns the least nonce
  from the start on whose hash meets the target, or a nonce overflow when there is none.
\<close>

theorem pow_search_least:
  assumes "hex_roundtrip E"
  shows "if \<exists>k. n \<le> k \<and> meets_target E b k
    then \<exists>m. pow_search E b n = Inr (m, block_hash_at E b m) \<and> n \<le> m \<and> meets_target E b m \<and>
           (\<forall>k. n \<le> k \<and> k < m \<longrightarrow> \<not> meets_target E b k)
    else pow_search E b n = Inl (ValueError ''Nonce overflow'')"
  by (rule pow_search_eval [OF assms])

text \<open>
  The target is the difficulty cast to 32 bits. A difficulty between 257 and \<open>2^32 - 1\<close>
  can never be mined with 32-byte digests, while a multiple of \<open>2^32\<close> is mined by nonce 0.
\<close>

lemma difficulty_truncation:
  assumes "hex_roundtrip E" and "blake3_digest_32 E"
  shows "target_bits (blk_difficulty b) = unat (blk_difficulty b) mod 2 ^ 32 \<and>
    (256 < target_bits (blk_difficulty b) \<longrightarrow> pow_search E b 0 = Inl (ValueError ''Nonce overflow'')) \<and>
    (target_bits (blk_difficulty b) = 0 \<longrightarrow> pow_search E b 0 = Inr (0, block_hash_at E b 0))"
proof (intro conjI impI)
  show "target_bits (blk_difficulty b) = unat (blk_difficulty b) mod 2 ^ 32"
    by (simp add: target_bits_def unsigned_ucast_eq take_bit_eq_mod)
next
  assume big: "256 < target_bits (blk_difficulty b)"
  have "\<not> meets_target E b k" for k
    using assms(2) leading_zero_bits_le [of "blake3 E (encode (header_of E b k) hasher_new)"] big
    by (simp add: meets_target_def block_hash_header encoder_hash_def finalize_hex_def
        hex_decode_to_hex [OF assms(1)] blake3_digest_32_def)
  with pow_search_eval [OF assms(1), of 0 b] show "pow_search E b 0 = Inl (ValueError ''Nonce overflow'')"
    by simp
next
  assume "target_bits (blk_difficulty b) = 0"
  then have "meets_target E b 0"
    using block_hash_decodes [OF assms(1), of b 0] by (auto simp: meets_target_def)
  moreover from this pow_search_eval [OF assms(1), of 0 b] obtain m where
    m: "pow_search E b 0 = Inr (m, block_hash_at E b m)" "\<forall>k. 0 \<le> k \<and> k < m \<longrightarrow> \<not> meets_target E b k"
    by (auto split: if_splits)
  ultimately have "\<not> 0 < m" by auto
  then have "m = 0" by (simp add: word_gt_0)
  with m(1) show "pow_search E b 0 = Inr (0, block_hash_at E b 0)" by simp
qed

lemma pool_keys_distinct: "pool_keys_ok mp \<Longrightarrow> distinct (map (\<lambda>tx. tx_key tx) (map snd mp))"
proof -
  assume ok: "pool_keys_ok mp"
  then have keys: "map fst mp = map (\<lambda>tx. tx_key tx) (map snd mp)"
    by (auto simp: pool_keys_ok_def)
  show ?thesis
    unfolding keys [symmetric] using ok by (simp add: pool_keys_ok_def)
qed

lemma pending_sorted_perm:
  assumes "pool_keys_ok (bc_mempool s)" and "mset mp = mset (bc_mempool s)"
  shows "pending_sorted (s\<lparr>bc_mempool := mp\<rparr>) = pending_sorted s"
proof -
  from pool_keys_distinct [OF assms(1)] have inj: "inj_on (\<lambda>tx. tx_key tx) (set (pool_txs s))" by (subst (asm) distinct_map) (rule conjunct2)
  have perm: "mset (map snd mp) = mset (pool_txs s)" using assms(2) by (metis mset_map)
  then have "set (map snd mp) = set (pool_txs s)" by (rule mset_eq_setD)
  with inj perm show ?thesis
    unfolding pending_sorted_def by (intro sort_key_inj_key_eq) (simp_all del: set_map)
qed

text \<open>
  C25: The block that is mined does not depend on the order in which the concurrent mempool
  map iterates: any permutation of the entries gives the same block, or the same error, and
  the same state up to the mempool.
\<close>

theorem mine_block_order_irrelevant:
  assumes "pool_keys_ok (bc_mempool s)" and "mset mp = mset (bc_mempool s)"
  shows "fst (mine_block E miner (s\<lparr>bc_mempool := mp\<rparr>)) = fst (mine_block E miner s) \<and>
    (snd (mine_block E miner (s\<lparr>bc_mempool := mp\<rparr>)))\<lparr>bc_mempool := []\<rparr> =
      (snd (mine_block E miner s))\<lparr>bc_mempool := []\<rparr>"
proof -
  have p: "pending_sorted (s'\<lparr>bc_mempool := mp\<rparr>) = pending_sorted s'"
    if "bc_mempool s' = bc_mempool s" for s'
    using pending_sorted_perm [of s' mp] assms that by simp
  let ?u = "\<lambda>s. s\<lparr>bc_block_reward_consumer := decay (bc_block_reward_consumer s),
      bc_block_reward_industrial := decay (bc_block_reward_industrial s)\<rparr>"
  have ps: "pending_sorted (?u (s\<lparr>bc_mempool := mp\<rparr>)) = pending_sorted (?u s)"
    using pending_sorted_perm [of "?u s" mp] assms by (simp add: pending_sorted_def)
  have tm: "block_template E ph miner (?u (s\<lparr>bc_mempool := mp\<rparr>)) am = block_template E ph miner (?u s) am"
    for ph am by (cases am) (simp only: block_template_def ps, simp)
  have cl: "(?u (s\<lparr>bc_mempool := mp\<rparr>))\<lparr>bc_mempool := []\<rparr> = (?u s)\<lparr>bc_mempool := []\<rparr>" by simp
  show ?thesis
    using ps tm cl unfolding mine_block_def Let_def
    by (auto simp: and_then_def split: sum.split)
qed


section \<open>The properties at a concrete state\<close>

lemma supply_single [simp]: "supply_c [x \<mapsto> a] = acc_c a" "supply_i [x \<mapsto> a] = acc_i a"
  by (simp_all add: supply_c_def supply_i_def msum_def)

lemma sample_pool_fields [simp]:
  "bc_accounts sample_pool = [''alice'' \<mapsto> reserved sample_tx 2 1 (credited 100 100 (zero_account ''alice''))]"
  "bc_chain sample_pool = []" "bc_difficulty sample_pool = 0" "bc_block_height sample_pool = 0"
  "bc_emission_consumer sample_pool = 0" "bc_emission_industrial sample_pool = 0"
  "bc_block_reward_consumer sample_pool = TokenAmount INITIAL_BLOCK_REWARD_CONSUMER"
  "bc_block_reward_industrial sample_pool = TokenAmount INITIAL_BLOCK_REWARD_INDUSTRIAL"
  using sample_fees by (simp_all add: sample_pool_def admit_def sample_payload_def)

lemma alice_not_coinbase [simp]: "''alice'' \<noteq> COINBASE_ADDR"
proof
  assume "''alice'' = COINBASE_ADDR"
  from arg_cong [OF this, of length] show False by (simp add: COINBASE_ADDR_def)
qed

lemma sample_disk: "\<forall>d. bincode_disk (sample_env p) d \<noteq> None"
  by simp

lemma sample_meets: "blk_difficulty b = 0 \<Longrightarrow> meets_target (sample_env p) b n"
  using block_hash_decodes [OF sample_laws(2), of p b n]
  by (auto simp: meets_target_def target_bits_def)

lemma sample_pool_ready: "mining_ready sample_pool"
  using sample_pool_inv
  by (simp add: mining_ready_def sample_account INITIAL_BLOCK_REWARD_CONSUMER_def
      INITIAL_BLOCK_REWARD_INDUSTRIAL_def) (simp add: sample_payload_def)

text \<open>At difficulty 0 the first nonce is accepted.\<close>

lemma sample_mine: "\<exists>b t. mine_block (sample_env p) ''carol'' sample_pool = (Inr b, t)"
proof -
  from mine_block_decided [OF sample_pool_ready sample_laws(2) sample_disk, of p "''carol''"]
  obtain tmpl where "blk_difficulty tmpl = 0" and
    "(\<exists>n. meets_target (sample_env p) tmpl n) \<Longrightarrow>
       \<exists>b t. mine_block (sample_env p) ''carol'' sample_pool = (Inr b, t)"
    by (simp only: sample_pool_fields) metis
  with sample_meets show ?thesis by blast
qed

theorem mine_block_settles_witness:
  "\<exists>b t. mine_block (sample_env Debug) ''carol'' sample_pool = (Inr b, t) \<and>
     mset (drop 1 (blk_transactions b)) = {#sample_tx#}"
proof -
  obtain b t where m: "mine_block (sample_env Debug) ''carol'' sample_pool = (Inr b, t)"
    using sample_mine by blast
  with mine_block_settles [OF sample_pool_ready m] show ?thesis by auto
qed

theorem mine_block_conserves_witness:
  "\<exists>b t. mine_block (sample_env Release) ''carol'' sample_pool = (Inr b, t) \<and>
     supply_c (bc_accounts t) = 100 + 59997"
proof -
  obtain b t where m: "mine_block (sample_env Release) ''carol'' sample_pool = (Inr b, t)"
    using sample_mine by blast
  have "next_reward_c sample_pool = 59997"
    by (simp add: next_reward_c_def unat_decay INITIAL_BLOCK_REWARD_CONSUMER_def)
  with mine_block_conserves [OF sample_pool_ready m] m show ?thesis by (auto simp: sample_account)
qed

theorem mine_block_invariant_witness:
  "\<exists>b t. mine_block (sample_env Debug) ''carol'' sample_pool = (Inr b, t) \<and> mempool_inv t \<and>
     blk_previous_hash b = zero_prev_hash"
proof -
  obtain b t where m: "mine_block (sample_env Debug) ''carol'' sample_pool = (Inr b, t)"
    using sample_mine by blast
  with mine_block_invariant [OF sample_pool_ready m] show ?thesis by (auto simp: prev_hash_of_def)
qed

theorem mine_block_outcome_witness:
  "\<exists>r. mine_block (sample_env Debug) ''carol'' sample_pool = r \<and>
     (\<forall>e. fst r = Inl e \<longrightarrow> e = ValueError ''Nonce overflow'')"
  using mine_block_outcome [OF sample_pool_ready sample_laws(2) sample_disk, of Debug "''carol''"]
  by (auto split: if_splits)

theorem pow_search_least_witness:
  "pow_search (sample_env Debug) sample_block 0 = Inr (0, block_hash_at (sample_env Debug) sample_block 0)"
proof -
  have ok: "meets_target (sample_env Debug) sample_block 0"
    by (rule sample_meets) (simp add: sample_block_def)
  with pow_search_least [OF sample_laws(2), of 0 Debug sample_block] obtain m where
    m: "pow_search (sample_env Debug) sample_block 0 = Inr (m, block_hash_at (sample_env Debug) sample_block m)"
    and "\<forall>k. 0 \<le> k \<and> k < m \<longrightarrow> \<not> meets_target (sample_env Debug) sample_block k"
    by (auto split: if_splits)
  with ok have "\<not> 0 < m" by auto
  with m show ?thesis by (simp add: word_gt_0)
qed


end
