(* ===== verification/Validation.thy ===== *)
theory Validation
  imports Mining
begin

text \<open>
  Block and chain validation of \<open>src/lib.rs\<close>: \<open>Blockchain::validate_block\<close>, which judges
  a block against the node's own chain and accounts, and \<open>is_valid_chain_rust\<close>, which
  judges a whole foreign chain. A \<open>return Ok(false)\<close> is \<open>Inr False\<close>; an error or a
  panic is \<open>Inl\<close>. The lemmas spell out what an accepted block satisfies.
\<close>

section \<open>validate_block\<close>

text \<open>\<open>self.chain.get(block.index as usize - 1)\<close>, and the hash the block must point to.\<close>

definition expected_prev :: "block list \<Rightarrow> u64 \<Rightarrow> error + string" where
  "expected_prev chain index =
     (if index = 0 then Inr zero_prev_hash
      else if unat index - 1 < length chain then Inr (blk_hash (chain ! (unat index - 1)))
      else Inl (ValueError ''Missing previous block''))"

text \<open>
  The first loop: transactions per sender, and the fee totals; \<open>None\<close> when a fee does not
  decompose. A count is at most the length of the block, so its \<open>+= 1\<close> cannot overflow.
\<close>

fun count_senders ::
  "signed_transaction list \<Rightarrow> (string \<rightharpoonup> u64) \<Rightarrow> nat \<Rightarrow> nat \<Rightarrow> ((string \<rightharpoonup> u64) \<times> nat \<times> nat) option" where
  "count_senders [] counts fc fi = Some (counts, fc, fi)"
| "count_senders (tx # txs) counts fc fi =
     (let counts = (if tx_from tx \<noteq> COINBASE_ADDR
                    then counts(tx_from tx \<mapsto>
                           (case counts (tx_from tx) of None \<Rightarrow> 0 | Some c \<Rightarrow> c) + 1)
                    else counts)
      in case decompose (pl_fee_selector (tx_payload tx)) (pl_fee (tx_payload tx)) of
           Inr (c, i) \<Rightarrow> count_senders txs counts (fc + unat c) (fi + unat i)
         | Inl _ \<Rightarrow> None)"

text \<open>The nonce each counted sender must have had before the block.\<close>

definition start_nonces :: "accounts \<Rightarrow> (string \<rightharpoonup> u64) \<Rightarrow> (string \<rightharpoonup> u64)" where
  "start_nonces A counts =
     (\<lambda>addr. case counts addr of
        None \<Rightarrow> None
      | Some cnt \<Rightarrow>
          Some (saturating_sub (case A addr of None \<Rightarrow> 0 | Some a \<Rightarrow> acc_nonce a) cnt))"

fun nonce_loop ::
  "env \<Rightarrow> signed_transaction list \<Rightarrow> (string \<rightharpoonup> u64) \<Rightarrow> bytes set \<Rightarrow> (string \<times> u64) set \<Rightarrow>
   error + bool" where
  "nonce_loop E [] expected seen seen_nonce = Inr True"
| "nonce_loop E (tx # txs) expected seen seen_nonce =
     (if tx_from tx \<noteq> COINBASE_ADDR then
        bind_res (u_add (build E)
            (case expected (tx_from tx) of None \<Rightarrow> 0 | Some n \<Rightarrow> n) 1) (\<lambda>next.
          if tx_nonce tx \<noteq> next then Inr False
          else if (tx_from tx, tx_nonce tx) \<in> seen_nonce then Inr False
          else if tx_id E tx \<in> seen then Inr False
          else nonce_loop E txs (expected(tx_from tx \<mapsto> next)) (insert (tx_id E tx) seen)
                 (insert (tx_from tx, tx_nonce tx) seen_nonce))
      else if tx_id E tx \<in> seen then Inr False
      else nonce_loop E txs expected (insert (tx_id E tx) seen) seen_nonce)"

text \<open>The end of \<open>validate_block\<close>: the checksum and the lower bound on the coinbase.\<close>

definition check_fees :: "env \<Rightarrow> block \<Rightarrow> nat \<Rightarrow> nat \<Rightarrow> error + bool" where
  "check_fees E b fee_tot_c fee_tot_i =
     (case (u64_try_from fee_tot_c, u64_try_from fee_tot_i) of
        (Some fc, Some fi) \<Rightarrow>
          if fee_checksum E fc fi \<noteq> blk_fee_checksum b then Inr False
          else if unat (tok (blk_coinbase_consumer b)) < fee_tot_c \<or>
                  unat (tok (blk_coinbase_industrial b)) < fee_tot_i then Inr False
          else Inr True
      | _ \<Rightarrow> Inl (ValueError ''Fee overflow''))"

definition validate_block :: "env \<Rightarrow> blockchain \<Rightarrow> block \<Rightarrow> error + bool" where
  "validate_block E s b =
     bind_res (expected_prev (bc_chain s) (blk_index b)) (\<lambda>prev.
     if blk_previous_hash b \<noteq> prev then Inr False
     else if blk_difficulty b \<noteq> bc_difficulty s then Inr False
     else case blk_transactions b of
       [] \<Rightarrow> Inr False
     | cb # txs \<Rightarrow>
       if tx_from cb \<noteq> COINBASE_ADDR then Inr False
       else if block_hash_at E b (blk_nonce b) \<noteq> blk_hash b then Inr False
       else bind_res (hex_to_bytes E (blk_hash b)) (\<lambda>bytes.
         if leading_zero_bits bytes < target_bits (bc_difficulty s) then Inr False
         else if pl_amount_consumer (tx_payload cb) \<noteq> tok (blk_coinbase_consumer b) \<or>
                 pl_amount_industrial (tx_payload cb) \<noteq> tok (blk_coinbase_industrial b)
         then Inr False
         else (case count_senders txs Map.empty 0 0 of
             None \<Rightarrow> Inr False
           | Some (counts, fee_tot_c, fee_tot_i) \<Rightarrow>
               bind_res (nonce_loop E (cb # txs) (start_nonces (bc_accounts s) counts) {} {}) (\<lambda>ok.
                 if ok then check_fees E b fee_tot_c fee_tot_i else Inr False))))"

section \<open>is_valid_chain_rust\<close>

text \<open>
  The signature test that stands in \<open>is_valid_chain_rust\<close> and in \<open>import_chain\<close>, in the
  order of the source; the string is the failing check.
\<close>

definition check_signature :: "env \<Rightarrow> signed_transaction \<Rightarrow> string + unit" where
  "check_signature E tx =
     (case to_array_32 (tx_public_key tx) of
        None \<Rightarrow> Inl ''Invalid pubkey in chain''
      | Some pk \<Rightarrow>
          if \<not> ed_vk_from_bytes E pk then Inl ''Invalid pubkey in chain''
          else (case to_array_64 (tx_signature tx) of
                  None \<Rightarrow> Inl ''Invalid signature in chain''
                | Some sig \<Rightarrow>
                    if ed_verify E pk
                         (domain_tag @ canonical_payload_bytes E (tx_payload tx)) sig
                    then Inr () else Inl ''Bad tx signature in chain''))"

text \<open>The loop over the transactions after the first: the fee totals, or \<open>None\<close> for \<open>return false\<close>.\<close>

fun chain_tx_loop ::
  "env \<Rightarrow> signed_transaction list \<Rightarrow> (string \<rightharpoonup> u64) \<Rightarrow> bytes set \<Rightarrow> (string \<times> u64) set \<Rightarrow>
   nat \<Rightarrow> nat \<Rightarrow> error + (nat \<times> nat) option" where
  "chain_tx_loop E [] expected seen seen_nonce fc fi = Inr (Some (fc, fi))"
| "chain_tx_loop E (tx # txs) expected seen seen_nonce fc fi =
     (let fee_step = (\<lambda>expected seen_nonce.
        if tx_id E tx \<in> seen then Inr None
        else (case decompose (pl_fee_selector (tx_payload tx)) (pl_fee (tx_payload tx)) of
                Inl _ \<Rightarrow> Inr None
              | Inr (c, i) \<Rightarrow>
                  chain_tx_loop E txs expected (insert (tx_id E tx) seen) seen_nonce
                    (fc + unat c) (fi + unat i)))
      in if tx_from tx \<noteq> COINBASE_ADDR then
           (case check_signature E tx of
              Inl _ \<Rightarrow> Inr None
            | Inr _ \<Rightarrow>
                (let next = (case expected (tx_from tx) of None \<Rightarrow> tx_nonce tx | Some n \<Rightarrow> n) in
                 if tx_nonce tx \<noteq> next then Inr None
                 else bind_res (u_add (build E) next 1) (\<lambda>next.
                   if (tx_from tx, tx_nonce tx) \<in> seen_nonce then Inr None
                   else fee_step (expected(tx_from tx \<mapsto> next))
                          (insert (tx_from tx, tx_nonce tx) seen_nonce))))
         else fee_step expected seen_nonce)"

definition valid_chain_block :: "env \<Rightarrow> u32 \<Rightarrow> string \<Rightarrow> block \<Rightarrow> error + bool" where
  "valid_chain_block E difficulty prev b =
     (if blk_previous_hash b \<noteq> prev then Inr False
      else if blk_difficulty b \<noteq> ucast difficulty then Inr False
      else case blk_transactions b of
        [] \<Rightarrow> Inr False
      | cb # txs \<Rightarrow>
        if tx_from cb \<noteq> COINBASE_ADDR then Inr False
        else if pl_amount_consumer (tx_payload cb) \<noteq> tok (blk_coinbase_consumer b) \<or>
                pl_amount_industrial (tx_payload cb) \<noteq> tok (blk_coinbase_industrial b)
        then Inr False
        else if block_hash_at E b (blk_nonce b) \<noteq> blk_hash b then Inr False
        else bind_res (hex_to_bytes E (blk_hash b)) (\<lambda>bytes.
          if leading_zero_bits bytes < unat difficulty then Inr False
          else bind_res (chain_tx_loop E txs Map.empty {} {} 0 0) (\<lambda>r.
            case r of
              None \<Rightarrow> Inr False
            | Some (fee_tot_c, fee_tot_i) \<Rightarrow>
                (case (u64_try_from fee_tot_c, u64_try_from fee_tot_i) of
                   (Some fc, Some fi) \<Rightarrow>
                     if fee_checksum E fc fi \<noteq> blk_fee_checksum b then Inr False
                     else if unat (tok (blk_coinbase_consumer b)) < fee_tot_c \<or>
                             unat (tok (blk_coinbase_industrial b)) < fee_tot_i then Inr False
                     else Inr True
                 | _ \<Rightarrow> Inr False))))"

text \<open>
  The loop over the chain; \<open>prev\<close> is the hash of the block before, or 64 zeros.
\<close>

fun valid_chain_from :: "env \<Rightarrow> u32 \<Rightarrow> string \<Rightarrow> block list \<Rightarrow> error + bool" where
  "valid_chain_from E difficulty prev [] = Inr True"
| "valid_chain_from E difficulty prev (b # bs) =
     bind_res (valid_chain_block E difficulty prev b) (\<lambda>ok.
       if ok then valid_chain_from E difficulty (blk_hash b) bs else Inr False)"

definition is_valid_chain_rust :: "env \<Rightarrow> block list \<Rightarrow> u32 \<Rightarrow> error + bool" where
  "is_valid_chain_rust E chain difficulty = valid_chain_from E difficulty zero_prev_hash chain"

section \<open>What the loops decide\<close>

text \<open>The counted senders of a list of transactions.\<close>

definition sent_by :: "string \<Rightarrow> signed_transaction list \<Rightarrow> signed_transaction list" where
  "sent_by addr txs = filter (\<lambda>tx. tx_from tx = addr) txs"

definition fees_decompose :: "signed_transaction list \<Rightarrow> bool" where
  "fees_decompose txs \<longleftrightarrow>
     (\<forall>tx\<in>set txs. \<exists>p. decompose (pl_fee_selector (tx_payload tx)) (pl_fee (tx_payload tx)) = Inr p)"

lemma fees_Cons [simp]:
  "fees_c [] = 0" "fees_i [] = 0"
  "fees_c (tx # txs) = unat (fee_c tx) + fees_c txs"
  "fees_i (tx # txs) = unat (fee_i tx) + fees_i txs"
  by (simp_all add: fees_c_def fees_i_def)

lemma sent_by_simps [simp]:
  "sent_by addr [] = []"
  "sent_by addr (tx # txs) = (if tx_from tx = addr then tx # sent_by addr txs else sent_by addr txs)"
  by (simp_all add: sent_by_def)

lemma count_senders_eq:
  "count_senders txs counts fc fi =
     (if fees_decompose txs then
        Some (\<lambda>addr. if addr \<noteq> COINBASE_ADDR \<and> sent_by addr txs \<noteq> []
                     then Some ((case counts addr of None \<Rightarrow> 0 | Some c \<Rightarrow> c) +
                                of_nat (length (sent_by addr txs)))
                     else counts addr,
              fc + fees_c txs, fi + fees_i txs)
      else None)"
proof (induction txs counts fc fi rule: count_senders.induct)
  case (1 counts fc fi)
  then show ?case by (simp add: fees_decompose_def fun_eq_iff)
next
  case (2 tx txs counts fc fi)
  show ?case
  proof (cases "decompose (pl_fee_selector (tx_payload tx)) (pl_fee (tx_payload tx))")
    case (Inl e)
    then show ?thesis by (auto simp: fees_decompose_def)
  next
    case (Inr p)
    obtain c i where p: "p = (c, i)" by (cases p)
    have fees: "fee_c tx = c" "fee_i tx = i" using Inr p by (simp_all add: tx_fees_def)
    have dec: "fees_decompose (tx # txs) = fees_decompose txs" using Inr by (simp add: fees_decompose_def)
    show ?thesis
      using "2.IH" [OF refl Inr p [symmetric]] fees Inr p
      by (auto simp: dec Let_def fun_eq_iff)
  qed
qed

text \<open>\<open>consec n xs\<close>: the nonces \<open>xs\<close> are \<open>n + 1, n + 2, \<dots>\<close>\<close>

primrec consec :: "nat \<Rightarrow> u64 list \<Rightarrow> bool" where
  "consec n [] = True"
| "consec n (x # xs) = (unat x = n + 1 \<and> consec (n + 1) xs)"

definition nonce_in :: "(string \<rightharpoonup> u64) \<Rightarrow> string \<Rightarrow> u64" where
  "nonce_in m addr = (case m addr of None \<Rightarrow> 0 | Some n \<Rightarrow> n)"

lemma nonce_in_upd [simp]: "nonce_in (m(a \<mapsto> n)) x = (if x = a then n else nonce_in m x)"
  by (simp add: nonce_in_def)

definition consec_senders :: "(string \<rightharpoonup> u64) \<Rightarrow> signed_transaction list \<Rightarrow> bool" where
  "consec_senders m txs \<longleftrightarrow>
     (\<forall>addr. addr \<noteq> COINBASE_ADDR \<longrightarrow>
        consec (unat (nonce_in m addr)) (map (\<lambda>tx. tx_nonce tx) (sent_by addr txs)))"

lemma consec_senders_Cons:
  assumes "unat (nonce_in m (tx_from tx)) + 1 < 2 ^ 64"
  shows "consec_senders m (tx # txs) \<longleftrightarrow>
    (if tx_from tx \<noteq> COINBASE_ADDR then
       tx_nonce tx = nonce_in m (tx_from tx) + 1 \<and>
       consec_senders (m(tx_from tx \<mapsto> nonce_in m (tx_from tx) + 1)) txs
     else consec_senders m txs)"
proof -
  have u: "unat (nonce_in m (tx_from tx) + 1) = unat (nonce_in m (tx_from tx)) + 1"
    using assms by (simp add: unat_add_exact)
  then have "unat (tx_nonce tx) = unat (nonce_in m (tx_from tx)) + 1 \<longleftrightarrow>
      tx_nonce tx = nonce_in m (tx_from tx) + 1"
    by (metis word_unat_eq_iff)
  with u show ?thesis by (auto simp: consec_senders_def)
qed

text \<open>
  Where no count can reach \<open>2^64\<close>, the nonce loop decides exactly this: consecutive nonces
  per sender and distinct transaction ids. The test on \<open>seen_nonce\<close> then never fires.
\<close>

lemma nonce_loop_eq:
  assumes "\<forall>addr. addr \<noteq> COINBASE_ADDR \<longrightarrow>
      unat (nonce_in expected addr) + length (sent_by addr txs) < 2 ^ 64"
    and "\<forall>(a, n)\<in>seen_nonce. unat n \<le> unat (nonce_in expected a)"
  shows "nonce_loop E txs expected seen seen_nonce =
    Inr (consec_senders expected txs \<and> distinct (map (tx_id E) txs) \<and>
         tx_id E ` set txs \<inter> seen = {})"
  using assms
proof (induction E txs expected seen seen_nonce rule: nonce_loop.induct)
  case (1 E expected seen seen_nonce)
  then show ?case by (simp add: consec_senders_def)
next
  case (2 E tx txs expected seen seen_nonce)
  let ?n = "nonce_in expected (tx_from tx)"
  show ?case
  proof (cases "tx_from tx = COINBASE_ADDR")
    case True
    have cs: "consec_senders expected (tx # txs) = consec_senders expected txs"
      using True by (auto simp: consec_senders_def)
    show ?thesis
    proof (cases "tx_id E tx \<in> seen")
      case False
      with True have "nonce_loop E (tx # txs) expected seen seen_nonce =
          nonce_loop E txs expected (insert (tx_id E tx) seen) seen_nonce" by simp
      also have "\<dots> = Inr (consec_senders expected txs \<and> distinct (map (tx_id E) txs) \<and>
          tx_id E ` set txs \<inter> insert (tx_id E tx) seen = {})"
      proof (rule "2.IH"(2))
        show "\<forall>addr. addr \<noteq> COINBASE_ADDR \<longrightarrow>
            unat (nonce_in expected addr) + length (sent_by addr txs) < 2 ^ 64"
          using "2.prems"(1) True by auto
      qed (use True False "2.prems"(2) in auto)
      finally show ?thesis using cs False by auto
    qed (use True in auto)
  next
    case False
    from "2.prems"(1) False have b: "unat ?n + 1 < 2 ^ 64" by fastforce
    then have add: "u_add (build E) ?n 1 = Inr (?n + 1)" by (intro u_add_exact) simp
    from add have add': "u_add (build E)
        (case expected (tx_from tx) of None \<Rightarrow> 0 | Some n \<Rightarrow> n) 1 = Inr (?n + 1)"
      by (simp add: nonce_in_def)
    have u: "unat (?n + 1) = unat ?n + 1" using b by (simp add: unat_add_exact)
    note cs = consec_senders_Cons [where txs = txs, OF b]
    have fresh: "(tx_from tx, tx_nonce tx) \<notin> seen_nonce" if "tx_nonce tx = ?n + 1"
      using "2.prems"(2) that u by fastforce
    show ?thesis
    proof (cases "tx_nonce tx = ?n + 1 \<and> tx_id E tx \<notin> seen")
      case True
      with False add fresh have "nonce_loop E (tx # txs) expected seen seen_nonce =
          nonce_loop E txs (expected(tx_from tx \<mapsto> ?n + 1)) (insert (tx_id E tx) seen)
            (insert (tx_from tx, tx_nonce tx) seen_nonce)"
        by (simp add: nonce_in_def)
      also have "\<dots> = Inr (consec_senders (expected(tx_from tx \<mapsto> ?n + 1)) txs \<and>
          distinct (map (tx_id E) txs) \<and> tx_id E ` set txs \<inter> insert (tx_id E tx) seen = {})"
      proof (rule "2.IH"(1) [OF False add'])
        show "\<forall>addr. addr \<noteq> COINBASE_ADDR \<longrightarrow>
            unat (nonce_in (expected(tx_from tx \<mapsto> ?n + 1)) addr) + length (sent_by addr txs) < 2 ^ 64"
          using "2.prems"(1) u by fastforce
        show "\<forall>(a, n)\<in>insert (tx_from tx, tx_nonce tx) seen_nonce.
            unat n \<le> unat (nonce_in (expected(tx_from tx \<mapsto> ?n + 1)) a)"
          using "2.prems"(2) True u by fastforce
      qed (use True fresh in \<open>auto simp: nonce_in_def\<close>)
      finally show ?thesis using cs False True by auto
    next
      case no: False
      with False add fresh have "nonce_loop E (tx # txs) expected seen seen_nonce = Inr False"
        by (auto simp: nonce_in_def)
      with cs False no show ?thesis by auto
    qed
  qed
qed

section \<open>What an accepted block satisfies\<close>

text \<open>
  Consecutive nonces of every sender of a block, ending at the confirmed nonces \<open>A\<close>.
\<close>

definition nonces_settled :: "accounts \<Rightarrow> signed_transaction list \<Rightarrow> bool" where
  "nonces_settled A txs \<longleftrightarrow>
     (\<forall>addr. addr \<noteq> COINBASE_ADDR \<longrightarrow>
        consec (unat (nonce_of A addr) - length (sent_by addr txs))
          (map (\<lambda>tx. tx_nonce tx) (sent_by addr txs)))"

definition fees_covered :: "env \<Rightarrow> block \<Rightarrow> signed_transaction list \<Rightarrow> bool" where
  "fees_covered E b txs \<longleftrightarrow>
     fees_decompose txs \<and> fees_c txs < 2 ^ 64 \<and> fees_i txs < 2 ^ 64 \<and>
     blk_fee_checksum b = fee_checksum E (of_nat (fees_c txs)) (of_nat (fees_i txs)) \<and>
     fees_c txs \<le> unat (tok (blk_coinbase_consumer b)) \<and>
     fees_i txs \<le> unat (tok (blk_coinbase_industrial b))"

definition coinbase_matches :: "block \<Rightarrow> signed_transaction \<Rightarrow> bool" where
  "coinbase_matches b cb \<longleftrightarrow>
     tx_from cb = COINBASE_ADDR \<and>
     pl_amount_consumer (tx_payload cb) = tok (blk_coinbase_consumer b) \<and>
     pl_amount_industrial (tx_payload cb) = tok (blk_coinbase_industrial b)"

definition mined_hash_ok :: "env \<Rightarrow> block \<Rightarrow> nat \<Rightarrow> bool" where
  "mined_hash_ok E b target \<longleftrightarrow>
     blk_hash b = block_hash_at E b (blk_nonce b) \<and>
     (\<exists>bs. hex_decode E (blk_hash b) = Some bs \<and> target \<le> leading_zero_bits bs)"

definition block_accepted :: "env \<Rightarrow> blockchain \<Rightarrow> block \<Rightarrow> bool" where
  "block_accepted E s b \<longleftrightarrow>
     expected_prev (bc_chain s) (blk_index b) = Inr (blk_previous_hash b) \<and>
     blk_difficulty b = bc_difficulty s \<and>
     mined_hash_ok E b (target_bits (bc_difficulty s)) \<and>
     (\<exists>cb txs. blk_transactions b = cb # txs \<and> coinbase_matches b cb \<and>
        nonces_settled (bc_accounts s) txs \<and> distinct (map (tx_id E) (cb # txs)) \<and>
        fees_covered E b txs)"

lemma check_fees_True_iff:
  assumes "fees_decompose txs"
  shows "check_fees E b (fees_c txs) (fees_i txs) = Inr True \<longleftrightarrow> fees_covered E b txs"
  using assms by (auto simp: check_fees_def fees_covered_def u64_try_from_def not_less)

lemma check_fees_Inl:
  "check_fees E b fc fi = Inl e \<Longrightarrow> e = ValueError ''Fee overflow'' \<and> (2 ^ 64 \<le> fc \<or> 2 ^ 64 \<le> fi)"
  by (auto simp: check_fees_def u64_try_from_def split: if_splits)

lemma length_sent_by: "length (sent_by addr txs) \<le> length txs"
  by (simp add: sent_by_def)

lemma start_nonces_eq:
  assumes "length txs < 2 ^ 64"
  defines "counts \<equiv> (\<lambda>addr. if addr \<noteq> COINBASE_ADDR \<and> sent_by addr txs \<noteq> []
                     then Some ((case None of None \<Rightarrow> 0 | Some c \<Rightarrow> c) +
                                of_nat (length (sent_by addr txs)))
                     else None)"
  shows "addr \<noteq> COINBASE_ADDR \<Longrightarrow> sent_by addr txs \<noteq> [] \<Longrightarrow>
      unat (nonce_in (start_nonces A counts) addr) =
      unat (nonce_of A addr) - length (sent_by addr txs)"
    and "sent_by addr txs = [] \<Longrightarrow> nonce_in (start_nonces A counts) addr = 0"
proof -
  have "length (sent_by addr txs) < 2 ^ 64"
    using length_sent_by [of addr txs] assms(1) by linarith
  then have "unat (of_nat (length (sent_by addr txs)) :: u64) = length (sent_by addr txs)"
    by (simp add: unat_of_nat take_bit_nat_eq_self)
  then show "addr \<noteq> COINBASE_ADDR \<Longrightarrow> sent_by addr txs \<noteq> [] \<Longrightarrow>
      unat (nonce_in (start_nonces A counts) addr) =
      unat (nonce_of A addr) - length (sent_by addr txs)"
    by (simp add: nonce_in_def start_nonces_def counts_def nonce_of_def)
qed (simp add: nonce_in_def start_nonces_def counts_def)

lemma nonce_loop_block:
  assumes len: "length txs < 2 ^ 64" and cb: "tx_from cb = COINBASE_ADDR"
  defines "counts \<equiv> (\<lambda>addr. if addr \<noteq> COINBASE_ADDR \<and> sent_by addr txs \<noteq> []
                     then Some ((case None of None \<Rightarrow> 0 | Some c \<Rightarrow> c) +
                                of_nat (length (sent_by addr txs)))
                     else None)"
  shows "nonce_loop E (cb # txs) (start_nonces A counts) {} {} =
    Inr (nonces_settled A txs \<and> distinct (map (tx_id E) (cb # txs)))"
proof -
  note st = start_nonces_eq [OF len, of _ A, folded counts_def]
  have room: "unat (nonce_in (start_nonces A counts) addr) + length (sent_by addr (cb # txs)) < 2 ^ 64"
    if a: "addr \<noteq> COINBASE_ADDR" for addr
  proof (cases "sent_by addr txs = []")
    case True
    with st(2) [OF True] cb a show ?thesis by simp
  next
    case False
    have "length (sent_by addr txs) < 2 ^ 64"
      using length_sent_by [of addr txs] len by linarith
    with st(1) [OF a False] cb a unat_bound [of "nonce_of A addr"] show ?thesis by auto
  qed
  have "consec_senders (start_nonces A counts) (cb # txs) = nonces_settled A txs"
    unfolding consec_senders_def nonces_settled_def
  proof (intro all_cong)
    fix addr assume a: "addr \<noteq> COINBASE_ADDR"
    show "consec (unat (nonce_in (start_nonces A counts) addr))
        (map (\<lambda>tx. tx_nonce tx) (sent_by addr (cb # txs))) =
      consec (unat (nonce_of A addr) - length (sent_by addr txs))
        (map (\<lambda>tx. tx_nonce tx) (sent_by addr txs))"
      using st(1) [OF a] cb a by (cases "sent_by addr txs = []") auto
  qed
  with room show ?thesis by (subst nonce_loop_eq) auto
qed

lemma validate_block_True_iff:
  assumes len: "length (blk_transactions b) \<le> 2 ^ 64"
  shows "validate_block E s b = Inr True \<longleftrightarrow> block_accepted E s b"
proof (cases "blk_transactions b")
  case Nil
  then show ?thesis
    by (cases "expected_prev (bc_chain s) (blk_index b)")
      (auto simp: validate_block_def block_accepted_def)
next
  case (Cons cb txs)
  have len': "length txs < 2 ^ 64" using len Cons by simp
  show ?thesis
  proof (cases "expected_prev (bc_chain s) (blk_index b) = Inr (blk_previous_hash b) \<and>
      blk_difficulty b = bc_difficulty s \<and> tx_from cb = COINBASE_ADDR \<and>
      blk_hash b = block_hash_at E b (blk_nonce b)")
    case False
    with Cons show ?thesis
      by (cases "expected_prev (bc_chain s) (blk_index b)")
        (auto simp: validate_block_def block_accepted_def coinbase_matches_def mined_hash_ok_def)
  next
    case True
    note nl = nonce_loop_block [OF len', of cb E "bc_accounts s"]
    show ?thesis
    proof (cases "hex_decode E (blk_hash b)")
      case None
      with True Cons show ?thesis
        by (auto simp: validate_block_def block_accepted_def hex_to_bytes_def mined_hash_ok_def)
    next
      case (Some bs)
      show ?thesis
      proof (cases "target_bits (bc_difficulty s) \<le> leading_zero_bits bs \<and> coinbase_matches b cb \<and>
          fees_decompose txs")
        case False
        with True Cons Some show ?thesis
          by (auto simp: validate_block_def block_accepted_def hex_to_bytes_def count_senders_eq
              coinbase_matches_def mined_hash_ok_def not_less fees_covered_def)
      next
        case ok: True
        with True Cons Some have "validate_block E s b =
            (if nonces_settled (bc_accounts s) txs \<and> distinct (map (tx_id E) (cb # txs))
             then check_fees E b (fees_c txs) (fees_i txs) else Inr False)"
          using nl
          by (simp add: validate_block_def hex_to_bytes_def count_senders_eq coinbase_matches_def not_less)
        with ok True Cons Some show ?thesis
          by (auto simp: block_accepted_def check_fees_True_iff mined_hash_ok_def)
      qed
    qed
  qed
qed

lemma validate_block_error:
  assumes len: "length (blk_transactions b) \<le> 2 ^ 64" and hex: "hex_roundtrip E"
    and err: "validate_block E s b = Inl e"
  shows "e = ValueError ''Missing previous block'' \<and> blk_index b \<noteq> 0 \<and>
           length (bc_chain s) < unat (blk_index b) \<or>
         e = ValueError ''Fee overflow'' \<and>
           (2 ^ 64 \<le> fees_c (drop 1 (blk_transactions b)) \<or>
            2 ^ 64 \<le> fees_i (drop 1 (blk_transactions b)))"
proof (cases "expected_prev (bc_chain s) (blk_index b)")
  case (Inl e')
  with err have "e' = e" by (simp add: validate_block_def)
  moreover have "unat (blk_index b) \<noteq> 0 \<longleftrightarrow> blk_index b \<noteq> 0" by (simp add: unat_eq_0)
  ultimately show ?thesis using Inl
    by (cases "unat (blk_index b)") (auto simp: expected_prev_def split: if_splits)
next
  case (Inr prev)
  show ?thesis
  proof (cases "blk_transactions b")
    case Nil
    with Inr err show ?thesis by (auto simp: validate_block_def split: if_splits)
  next
    case (Cons cb txs)
    have len': "length txs < 2 ^ 64" using len Cons by simp
    from Inr err Cons have cb: "tx_from cb = COINBASE_ADDR"
      and h: "block_hash_at E b (blk_nonce b) = blk_hash b"
      by (auto simp: validate_block_def split: if_splits)
    have "\<exists>bs. hex_decode E (blk_hash b) = Some bs"
      unfolding h [symmetric] block_hash_at_def calculate_hash_def encoder_hash_def finalize_hex_def
      using hex_decode_to_hex [OF hex] by (simp add: Let_def)
    then obtain bs where bs: "hex_to_bytes E (blk_hash b) = Inr bs" by (auto simp: hex_to_bytes_def)
    from err Inr Cons bs nonce_loop_block [OF len' cb, of E "bc_accounts s"]
    have "check_fees E b (fees_c txs) (fees_i txs) = Inl e"
      by (auto simp: validate_block_def count_senders_eq split: if_splits)
    from check_fees_Inl [OF this] Cons show ?thesis by auto
  qed
qed

section \<open>Properties\<close>

text \<open>
  C12: \<open>validate_block\<close> accepts a block exactly when it points to the block before it (or
  to zeros), has the node's difficulty, carries its own hash and meets the target, starts
  with a coinbase of the declared amounts, has distinct transaction ids, carries for every
  sender consecutive nonces that end at the sender's confirmed nonce, and covers the fees:
  they decompose, match the checksum and do not exceed the coinbase.
\<close>

theorem validate_block_spec:
  assumes "length (blk_transactions b) \<le> 2 ^ 64"
  shows "validate_block E s b = Inr True \<longleftrightarrow> block_accepted E s b"
  by (rule validate_block_True_iff [OF assms])

theorem validate_block_spec_witness:
  "validate_block (sample_env Debug) sample_chain sample_block \<noteq> Inr True"
  using validate_block_spec [of sample_block "sample_env Debug" sample_chain]
  by (auto simp: block_accepted_def coinbase_matches_def sample_block_def sample_payload_def)

text \<open>
  C27: Validation never panics, in any build: its only errors are a missing previous block,
  when the index points beyond the chain, and fee totals that leave 64 bits.
\<close>

theorem validate_block_errors:
  assumes "length (blk_transactions b) \<le> 2 ^ 64" and "hex_roundtrip E"
    and "validate_block E s b = Inl e"
  shows "e = ValueError ''Missing previous block'' \<and> blk_index b \<noteq> 0 \<and>
           length (bc_chain s) < unat (blk_index b) \<or>
         e = ValueError ''Fee overflow'' \<and>
           (2 ^ 64 \<le> fees_c (drop 1 (blk_transactions b)) \<or>
            2 ^ 64 \<le> fees_i (drop 1 (blk_transactions b)))"
  by (rule validate_block_error [OF assms])

theorem validate_block_errors_witness:
  "validate_block (sample_env Debug) sample_chain (sample_block\<lparr>blk_index := 5\<rparr>) =
     Inl (ValueError ''Missing previous block'')"
proof -
  have err: "validate_block (sample_env Debug) sample_chain (sample_block\<lparr>blk_index := 5\<rparr>) =
      Inl (ValueError ''Missing previous block'')"
    by (simp add: validate_block_def expected_prev_def)
  from validate_block_errors [OF _ sample_laws(2) err] err show ?thesis by (simp add: sample_block_def)
qed

definition strip_signatures :: "block \<Rightarrow> block" where
  "strip_signatures b = b\<lparr>blk_transactions := map (\<lambda>tx. tx\<lparr>tx_signature := []\<rparr>) (blk_transactions b)\<rparr>"

lemma strip_tx [simp]: "tx_id E (tx\<lparr>tx_signature := []\<rparr>) = tx_id E tx"
  "tx_fees (tx\<lparr>tx_signature := []\<rparr>) = tx_fees tx"
  by (simp_all add: tx_id_eq tx_fees_def)

lemma strip_block [simp]:
  "block_hash_at E (strip_signatures b) n = block_hash_at E b n"
  "blk_index (strip_signatures b) = blk_index b" "blk_nonce (strip_signatures b) = blk_nonce b"
  "blk_previous_hash (strip_signatures b) = blk_previous_hash b"
  "blk_difficulty (strip_signatures b) = blk_difficulty b" "blk_hash (strip_signatures b) = blk_hash b"
  "blk_coinbase_consumer (strip_signatures b) = blk_coinbase_consumer b"
  "blk_coinbase_industrial (strip_signatures b) = blk_coinbase_industrial b"
  "blk_fee_checksum (strip_signatures b) = blk_fee_checksum b"
  by (simp_all add: strip_signatures_def block_hash_at_def calculate_hash_def comp_def)

lemma strip_txs:
  "sent_by a (map (\<lambda>tx. tx\<lparr>tx_signature := []\<rparr>) txs) = map (\<lambda>tx. tx\<lparr>tx_signature := []\<rparr>) (sent_by a txs)"
  "fees_c (map (\<lambda>tx. tx\<lparr>tx_signature := []\<rparr>) txs) = fees_c txs"
  "fees_i (map (\<lambda>tx. tx\<lparr>tx_signature := []\<rparr>) txs) = fees_i txs"
  "fees_decompose (map (\<lambda>tx. tx\<lparr>tx_signature := []\<rparr>) txs) = fees_decompose txs"
  by (simp_all add: sent_by_def filter_map comp_def fees_c_def fees_i_def fees_decompose_def)

text \<open>
  C30: \<open>validate_block\<close> never looks at a signature: erasing all the signatures of a block
  does not change whether it is accepted. (Ids and hashes do not cover signatures.)
\<close>

theorem validate_block_ignores_signatures:
  assumes "length (blk_transactions b) \<le> 2 ^ 64"
  shows "validate_block E s (strip_signatures b) = Inr True \<longleftrightarrow> validate_block E s b = Inr True"
proof -
  have len: "length (blk_transactions (strip_signatures b)) \<le> 2 ^ 64"
    using assms by (simp add: strip_signatures_def)
  have "block_accepted E s (strip_signatures b) \<longleftrightarrow> block_accepted E s b"
  proof (cases "blk_transactions b")
    case Nil
    then show ?thesis by (simp add: block_accepted_def strip_signatures_def)
  next
    case (Cons cb txs)
    then have tr: "blk_transactions (strip_signatures b) =
        cb\<lparr>tx_signature := []\<rparr> # map (\<lambda>tx. tx\<lparr>tx_signature := []\<rparr>) txs"
      by (simp add: strip_signatures_def)
    have ids: "map (tx_id E) (cb\<lparr>tx_signature := []\<rparr> # map (\<lambda>tx. tx\<lparr>tx_signature := []\<rparr>) txs) = map (tx_id E) (cb # txs)"
      by simp
    show ?thesis
      unfolding block_accepted_def tr Cons
      by (simp only: strip_block mined_hash_ok_def coinbase_matches_def nonces_settled_def
          fees_covered_def strip_txs ids list.inject ex_simps simp_thms)
        (simp add: strip_txs comp_def image_image)
  qed
  then show ?thesis
    using validate_block_True_iff [OF assms] validate_block_True_iff [OF len] by simp
qed

end
