(* ===== verification/Selfcheck.thy ===== *)
theory Selfcheck
  imports Validation
begin

text \<open>
  What the node mines, its own validation accepts: the nonces of every sender in the
  mempool are contiguous (\<open>contig\<close>, rule INV-NONCE-001 extended to pending transactions),
  so the sorted mempool passes the nonce replay of \<open>validate_block\<close> of \<open>src/lib.rs\<close>.
  Dropping a transaction in the middle breaks it, and so does the block mined afterwards.
\<close>

section \<open>Consecutive nonces\<close>

lemma consec_upt: "consec n xs \<longleftrightarrow> map unat xs = [Suc n..<Suc n + length xs]"
proof (induction xs arbitrary: n)
  case (Cons x xs)
  then show ?case by (auto simp: upt_conv_Cons)
qed simp

lemma consec_interval:
  assumes "sorted xs" and "distinct xs" and "unat ` set xs = {n<..n + p}"
  shows "consec n xs" and "length xs = p"
proof -
  have inj: "inj_on unat (set xs)" by (rule inj_onI) (simp add: word_unat_eq_iff)
  have "card (set xs) = card {n<..n + p}" using card_image [OF inj] assms(3) by simp
  then show len: "length xs = p" using distinct_card [OF assms(2)] by simp
  have "map unat xs = [Suc n..<Suc n + p]"
  proof (rule sorted_distinct_set_unique)
    show "sorted (map unat xs)"
      using assms(1) by (auto simp: sorted_iff_nth_mono word_le_nat_alt)
    show "distinct (map unat xs)" using assms(2) inj by (simp add: distinct_map)
    show "set (map unat xs) = set [Suc n..<Suc n + p]" using assms(3) by auto
    show "sorted [Suc n..<Suc n + p]" by (rule sorted_upt)
    show "distinct [Suc n..<Suc n + p]" by (rule distinct_upt)
  qed
  with len show "consec n xs" by (simp add: consec_upt)
qed

lemma consec_last: "consec n xs \<Longrightarrow> xs \<noteq> [] \<Longrightarrow> unat (last xs) = n + length xs"
  by (induction xs arbitrary: n) auto

lemma nonce_after_last:
  "nonce_after n addr txs =
     (if sent_by addr txs = [] then n else tx_nonce (last (sent_by addr txs)))"
  by (induction txs arbitrary: n) auto

lemma sent_by_sorted:
  "sorted (map (\<lambda>tx. tx_nonce tx) (sent_by addr (sort_key (\<lambda>tx. tx_key tx) txs)))"
proof -
  have "sorted (map (\<lambda>tx. tx_key tx) (sent_by addr (sort_key (\<lambda>tx. tx_key tx) txs)))"
    unfolding sent_by_def by (rule sorted_filter) simp
  moreover have "sorted (map (\<lambda>tx. tx_nonce tx) xs)"
    if "sorted (map (\<lambda>tx. tx_key tx) xs)" and "\<forall>tx\<in>set xs. tx_from tx = addr" for xs
    using that by (induction xs) (auto simp: less_eq_prod_def)
  ultimately show ?thesis by (auto simp: sent_by_def)
qed

section \<open>Contiguity of the mempool\<close>

definition contig :: "blockchain \<Rightarrow> bool" where
  "contig s \<longleftrightarrow>
     (\<forall>addr a. bc_accounts s addr = Some a \<longrightarrow>
        (\<lambda>tx. unat (tx_nonce tx)) ` set (sent_by addr (pool_txs s)) =
        {unat (acc_nonce a) <.. unat (acc_nonce a) + unat (acc_pending_nonce a)})"

lemma sent_by_append [simp]: "sent_by addr (xs @ ys) = sent_by addr xs @ sent_by addr ys"
  by (simp add: sent_by_def)

lemma set_sent_by: "set (sent_by addr txs) = {tx \<in> set txs. tx_from tx = addr}"
  by (simp add: sent_by_def)

lemma contig_no_pending:
  assumes "bc_mempool s = []" and "\<And>x a. bc_accounts s x = Some a \<Longrightarrow> acc_pending_nonce a = 0"
  shows "contig s"
  using assms by (auto simp: contig_def)

lemma contig_admit:
  assumes inv: "mempool_inv s" and cg: "contig s" and a: "bc_accounts s (tx_from tx) = Some a"
    and ins: "insufficient E a tx (fee_c tx) (fee_i tx) = Inr False"
    and nn: "next_nonce E a = Inr (tx_nonce tx)" and ex: "exact_sums E a tx"
  shows "contig (admit tx s)"
proof -
  let ?r = "reserved tx (fee_c tx) (fee_i tx) a"
  have aok: "acc_ok (pool_txs s) (tx_from tx) a"
    using inv ledger_invD(2) a by (auto simp: mempool_inv_def)
  have n: "unat (tx_nonce tx) = unat (acc_nonce a) + unat (acc_pending_nonce a) + 1"
    by (rule accepted_exact(5) [OF ex ins nn])
  have p: "unat (acc_pending_nonce ?r) = unat (acc_pending_nonce a) + 1"
    by (rule reserved_exact(3) [OF ex aok ins nn])
  show ?thesis
    unfolding contig_def
  proof (intro allI impI)
    fix addr b assume b: "bc_accounts (admit tx s) addr = Some b"
    show "(\<lambda>tx. unat (tx_nonce tx)) ` set (sent_by addr (pool_txs (admit tx s))) =
        {unat (acc_nonce b) <.. unat (acc_nonce b) + unat (acc_pending_nonce b)}"
    proof (cases "addr = tx_from tx")
      case True
      from cg a have "(\<lambda>tx. unat (tx_nonce tx)) ` set (sent_by addr (pool_txs s)) =
          {unat (acc_nonce a) <.. unat (acc_nonce a) + unat (acc_pending_nonce a)}"
        unfolding contig_def True by blast
      with True b a n p show ?thesis by (auto simp: admit_def)
    next
      case False
      with b a have "bc_accounts s addr = Some b" by (simp add: admit_def)
      with cg False a show ?thesis by (auto simp: contig_def admit_def)
    qed
  qed
qed

lemma submit_contig:
  assumes "mempool_inv s" and "contig s"
    and "\<And>a. bc_accounts s (tx_from tx) = Some a \<Longrightarrow> exact_sums E a tx"
  shows "contig (snd (submit_transaction E tx s))"
  by (cases rule: submit_cases [of E tx s]) (auto simp: assms intro: contig_admit)

lemma add_account_contig:
  assumes "mempool_inv s" and "contig s"
  shows "contig (snd (add_account addr c i s))"
proof (cases "bc_accounts s addr")
  case None
  with assms(1) have "sent_by addr (pool_txs s) = []"
    by (auto simp: sent_by_def filter_empty_conv mempool_inv_def ledger_inv_def)
  with None assms(2) show ?thesis
    by (auto simp: contig_def add_account_fresh)
next
  case (Some a)
  with assms(2) show ?thesis by (simp add: add_account_def)
qed

text \<open>Dropping the last pending transaction of a sender keeps the others contiguous.\<close>

lemma pool_nonce_unique:
  assumes "pool_keys_ok mp" and "map_of mp (tx_key tx) = Some tx"
  shows "(\<lambda>tx. unat (tx_nonce tx)) ` set (sent_by (tx_from tx) (map snd (AList.delete (tx_key tx) mp))) =
    (\<lambda>tx. unat (tx_nonce tx)) ` set (sent_by (tx_from tx) (map snd mp)) - {unat (tx_nonce tx)}"
proof -
  have key: "k = tx_key t" if "(k, t) \<in> set mp" for k t
    using assms(1) that by (auto simp: pool_keys_ok_def)
  have "set (AList.delete (tx_key tx) mp) = {(k, t) \<in> set mp. k \<noteq> tx_key tx}"
    by (auto simp: AList.delete_eq)
  with key show ?thesis
    by (force simp: set_sent_by word_unat_eq_iff)
qed

lemma drop_last_contig:
  assumes inv: "mempool_inv s" and cg: "contig s"
    and last: "\<And>a. bc_accounts s sender = Some a \<Longrightarrow>
      unat nonce = unat (acc_nonce a) + unat (acc_pending_nonce a)"
  shows "contig (snd (drop_transaction E sender nonce s))"
proof (rule drop_cases [OF inv, of sender nonce E], goal_cases absent dropped)
  case absent
  with cg show ?case by simp
next
  case (dropped tx a)
  from inv have keys: "pool_keys_ok (bc_mempool s)" by (simp add: mempool_inv_def)
  have tx: "tx_from tx = sender" "tx_nonce tx = nonce" using dropped(2) by auto
  have cga: "(\<lambda>tx. unat (tx_nonce tx)) ` set (sent_by sender (pool_txs s)) =
      {unat (acc_nonce a) <.. unat (acc_nonce a) + unat (acc_pending_nonce a)}"
    using cg dropped(3) unfolding contig_def by blast
  have un: "(\<lambda>tx. unat (tx_nonce tx)) ` set (sent_by sender (map snd (AList.delete (sender, nonce) (bc_mempool s)))) =
      {unat (acc_nonce a) <.. unat (acc_nonce a) + unat (acc_pending_nonce a)} - {unat nonce}"
    using pool_nonce_unique [OF keys, of tx] dropped(1,2) tx cga by simp
  have "tx \<in> set (pool_txs s)" using dropped(1) by (force dest: map_of_SomeD)
  with tx have "unat nonce \<in> (\<lambda>tx. unat (tx_nonce tx)) ` set (sent_by sender (pool_txs s))"
    by (auto simp: set_sent_by)
  with cga have "0 < unat (acc_pending_nonce a)" by auto
  with un last [OF dropped(3)]
  have "(\<lambda>tx. unat (tx_nonce tx)) ` set (sent_by sender (map snd (AList.delete (sender, nonce) (bc_mempool s)))) =
      {unat (acc_nonce a) <.. unat (acc_nonce a) + (unat (acc_pending_nonce a) - 1)}"
    by auto
  moreover have "set (sent_by x (map snd (AList.delete (sender, nonce) (bc_mempool s)))) =
      set (sent_by x (pool_txs s))" if "x \<noteq> sender" for x
    using that keys by (force simp: set_sent_by AList.delete_eq pool_keys_ok_def)
  ultimately show ?case
    using cg dropped tx by (auto simp: contig_def evict_def released_def)
qed

section \<open>The mined block\<close>

lemma pending_strict:
  assumes "mempool_inv s"
  shows "sorted_wrt (<) (map (\<lambda>tx. tx_nonce tx) (sent_by addr (pending_sorted s)))"
proof -
  have "distinct (map (\<lambda>tx. tx_key tx) (pool_txs s))"
    using assms pool_keys_distinct by (simp add: mempool_inv_def)
  moreover have "mset (map (\<lambda>tx. tx_key tx) (pending_sorted s)) = mset (map (\<lambda>tx. tx_key tx) (pool_txs s))"
    by (simp only: mset_map mset_pending_sorted)
  ultimately have "distinct (map (\<lambda>tx. tx_key tx) (pending_sorted s))"
    using mset_eq_imp_distinct_iff by blast
  then have "distinct (map (\<lambda>tx. tx_key tx) (sent_by addr (pending_sorted s)))"
    unfolding sent_by_def by (rule distinct_map_filter)
  then have "distinct (map (\<lambda>tx. tx_nonce tx) (sent_by addr (pending_sorted s)))"
    by (auto simp: distinct_map inj_on_def set_sent_by)
  then show ?thesis
    using sent_by_sorted [of addr "pool_txs s"] by (simp add: pending_sorted_def strict_sorted_iff)
qed

lemma pending_consec:
  assumes inv: "mempool_inv s" and cg: "contig s" and a: "bc_accounts s addr = Some a"
  shows "consec (unat (acc_nonce a)) (map (\<lambda>tx. tx_nonce tx) (sent_by addr (pending_sorted s)))"
proof -
  from pending_strict [OF inv, of addr]
  have "distinct (map (\<lambda>tx. tx_nonce tx) (sent_by addr (pending_sorted s)))"
    by (simp add: strict_sorted_iff)
  moreover have "unat ` set (map (\<lambda>tx. tx_nonce tx) (sent_by addr (pending_sorted s))) =
      {unat (acc_nonce a) <.. unat (acc_nonce a) + unat (acc_pending_nonce a)}"
    using cg a by (auto simp: contig_def set_sent_by set_pending_sorted image_image)
  ultimately show ?thesis
    using sent_by_sorted [of addr "pool_txs s"] by (intro consec_interval(1)) (simp_all add: pending_sorted_def)
qed

lemma nonces_settled_after:
  assumes inv: "mempool_inv s" and cg: "contig s"
    and nonces: "\<And>x. nonce_of B x = nonce_after (nonce_of (bc_accounts s) x) x (pending_sorted s)"
  shows "nonces_settled B (pending_sorted s)"
  unfolding nonces_settled_def
proof (intro allI impI)
  fix addr
  let ?xs = "map (\<lambda>tx. tx_nonce tx) (sent_by addr (pending_sorted s))"
  show "consec (unat (nonce_of B addr) - length (sent_by addr (pending_sorted s))) ?xs"
  proof (cases "sent_by addr (pending_sorted s) = []")
    case True
    then show ?thesis by simp
  next
    case False
    then obtain tx where "tx \<in> set (pool_txs s)" "tx_from tx = addr"
      by (auto simp: sent_by_def filter_empty_conv set_pending_sorted)
    with inv obtain a where a: "bc_accounts s addr = Some a"
      by (auto simp: mempool_inv_def ledger_inv_def)
    note c = pending_consec [OF inv cg a]
    have "unat (last ?xs) = unat (acc_nonce a) + length ?xs" using c False by (intro consec_last) simp_all
    then have "unat (nonce_of B addr) = unat (acc_nonce a) + length ?xs"
      using nonces [of addr] False by (simp add: nonce_after_last last_map)
    with c show ?thesis by simp
  qed
qed

lemma expected_prev_mined:
  assumes "length chain < 2 ^ 64"
  shows "expected_prev (chain @ [b]) (of_nat (length chain)) = Inr (prev_hash_of chain)"
proof -
  have u: "unat (of_nat (length chain) :: u64) = length chain"
    using assms by (simp add: unat_of_nat take_bit_nat_eq_self)
  show ?thesis
  proof (cases "chain = []")
    case True
    then show ?thesis by (simp add: expected_prev_def prev_hash_of_def)
  next
    case False
    then have nz: "(of_nat (length chain) :: u64) \<noteq> 0" using u by (metis length_0_conv unat_eq_0)
    have "unat (of_nat (length chain) :: u64) - 1 < length (chain @ [b])" using u by simp
    moreover have "(chain @ [b]) ! (length chain - 1) = last chain"
      using False by (simp add: nth_append last_conv_nth)
    ultimately show ?thesis using nz u by (simp only: expected_prev_def prev_hash_of_def if_False if_True)
  qed
qed

lemma mined_block_accepted:
  assumes rdy: "mining_ready s" and cg: "contig s" and len: "length (bc_chain s) < 2 ^ 64"
    and hex: "hex_roundtrip E"
    and ok: "mine_block E miner s = (Inr b, t)" and ids: "distinct (map (tx_id E) (blk_transactions b))"
  shows "block_accepted E t b"
proof (rule mine_block_success [OF rdy ok])
  fix n fc fi cb_c cb_i B rc ri bytes
  let ?C = "B(miner \<mapsto> credited cb_c cb_i (or_insert B miner))"
  let ?b0 = "block_template E (prev_hash_of (bc_chain s)) miner s (fc, fi, cb_c, cb_i)"
  assume eff: "mining_effect s miner (fc, fi, cb_c, cb_i) B ?C rc ri"
    and b: "b = ?b0\<lparr>blk_nonce := n, blk_hash := block_hash_at E ?b0 n\<rparr>"
    and target: "meets_target E b n"
    and t: "t = (mined_state s b ?C rc ri)\<lparr>bc_db := db_after (bc_db s) bytes\<rparr>"
  from rdy have inv: "mempool_inv s" by (simp add: mining_ready_def)
  then have dec: "fees_decompose (pending_sorted s)"
    by (auto simp: fees_decompose_def set_pending_sorted mempool_inv_def ledger_inv_def reservable_def)
  from eff have st: "settles (bc_accounts s) (pending_sorted s) B"
    and am: "unat fc = fees_c (pending_sorted s)" "unat fi = fees_i (pending_sorted s)"
      "unat cb_c = next_reward_c s + fees_c (pending_sorted s)"
      "unat cb_i = next_reward_i s + fees_i (pending_sorted s)"
    by (simp_all add: mining_effect_def)
  have fc: "of_nat (fees_c (pending_sorted s)) = fc" "of_nat (fees_i (pending_sorted s)) = fi"
    using am(1,2) by (metis of_nat_unat_u64)+
  have lt: "fees_c (pending_sorted s) < 2 ^ 64" "fees_i (pending_sorted s) < 2 ^ 64"
    using am(1,2) unat_bound [of fc] unat_bound [of fi] by simp_all
  have prev: "expected_prev (bc_chain t) (blk_index b) = Inr (blk_previous_hash b)"
    using expected_prev_mined [OF len] unfolding t by (simp add: b)
  have hash: "blk_hash b = block_hash_at E b (blk_nonce b)" unfolding b by (simp add: block_hash_at_def)
  have hok: "mined_hash_ok E b (target_bits (bc_difficulty t))"
    using target hash unfolding mined_hash_ok_def t
    by (auto simp: meets_target_def b split: option.splits)
  have "nonce_of ?C x = nonce_of B x" for x
    by (simp add: nonce_of_def or_insert_def split: option.split)
  with st have "nonces_settled (bc_accounts t) (pending_sorted s)"
    unfolding t by (intro nonces_settled_after [OF inv cg]) (simp add: settles_def)
  moreover have "blk_transactions b = coinbase_tx miner cb_c cb_i # pending_sorted s"
    unfolding b by (simp add: template_amounts)
  moreover have "coinbase_matches b (coinbase_tx miner cb_c cb_i)"
    unfolding b by (simp add: coinbase_matches_def template_amounts coinbase_tx_def)
  moreover have "fees_covered E b (pending_sorted s)"
    using dec lt am fc unfolding b by (simp add: fees_covered_def template_amounts)
  ultimately show ?thesis
    using prev hok ids unfolding block_accepted_def by (auto simp: t b)
qed

section \<open>Properties\<close>

text \<open>
  C11: A block that the node mines is accepted by the node's own \<open>validate_block\<close> right
  after mining: link, difficulty, hash and target, coinbase, nonce replay against the
  updated accounts, fee checksum and fee bounds all hold, provided the mempool was
  contiguous and the transaction ids do not collide.
\<close>

theorem mined_block_validates:
  assumes "mining_ready s" and "contig s" and "hex_roundtrip E"
    and "length (bc_chain s) < 2 ^ 64" and "length (bc_mempool s) < 2 ^ 64"
    and "mine_block E miner s = (Inr b, t)" and "distinct (map (tx_id E) (blk_transactions b))"
  shows "validate_block E t b = Inr True"
proof -
  have "length (drop 1 (blk_transactions b)) = length (pending_sorted s)"
    by (rule mine_block_success [OF assms(1,6)]) (simp add: template_amounts)
  moreover have "length (pending_sorted s) = length (bc_mempool s)" by (simp add: pending_sorted_def)
  ultimately have "length (blk_transactions b) \<le> 2 ^ 64" using assms(5) by simp
  then show ?thesis
    using validate_block_True_iff mined_block_accepted [OF assms(1,2,4,3,6,7)] by blast
qed

lemma sample_pool_contig: "contig sample_pool"
proof -
  have "contig sample_chain" by (rule contig_no_pending) (auto split: if_splits)
  from submit_contig [OF sample_chain_inv this, of sample_tx "sample_env Debug"]
  show ?thesis using sample_exact sample_submit by simp
qed

text \<open>The samples have ids of preimages of different lengths.\<close>

lemma sample_ids:
  "tx_id (sample_env p) (coinbase_tx ''carol'' c i) \<noteq> tx_id (sample_env p) sample_tx"
proof -
  have "(u64_le 99 = u64_le 100) = False" using u64_codec.inject [of 99 100] by auto
  then show ?thesis
    by (simp add: tx_id_eq sample_digest_def coinbase_tx_def canonical_payload_bytes_def encode_py_def
        COINBASE_ADDR_def prefixed_def sample_payload_def)
qed

theorem mined_block_validates_witness:
  "\<exists>b t. mine_block (sample_env Debug) ''carol'' sample_pool = (Inr b, t) \<and>
     validate_block (sample_env Debug) t b = Inr True"
proof -
  obtain b t where m: "mine_block (sample_env Debug) ''carol'' sample_pool = (Inr b, t)"
    using sample_mine by blast
  have "distinct (map (tx_id (sample_env Debug)) (blk_transactions b))"
    by (rule mine_block_success [OF sample_pool_ready m])
      (simp add: template_amounts pending_sorted_def sample_ids)
  with mined_block_validates [OF sample_pool_ready sample_pool_contig sample_laws(2) _ _ m] m
  show ?thesis by auto
qed

text \<open>A mined block is accepted without its signatures, too.\<close>

theorem validate_block_ignores_signatures_witness:
  "\<exists>b t. mine_block (sample_env Debug) ''carol'' sample_pool = (Inr b, t) \<and> strip_signatures b \<noteq> b \<and>
     validate_block (sample_env Debug) t (strip_signatures b) = Inr True"
proof -
  obtain b t where m: "mine_block (sample_env Debug) ''carol'' sample_pool = (Inr b, t)"
    using sample_mine by blast
  have txs: "drop 1 (blk_transactions b) = [sample_tx]"
    and ids: "distinct (map (tx_id (sample_env Debug)) (blk_transactions b))"
    and len: "length (blk_transactions b) \<le> 2 ^ 64"
    by (rule mine_block_success [OF sample_pool_ready m];
        simp add: template_amounts pending_sorted_def sample_ids)+
  have "block_accepted (sample_env Debug) t b"
    by (rule mined_block_accepted [OF sample_pool_ready sample_pool_contig _ sample_laws(2) m ids]) simp
  then have "validate_block (sample_env Debug) t b = Inr True"
    using validate_block_True_iff [OF len] by blast
  then have "validate_block (sample_env Debug) t (strip_signatures b) = Inr True"
    using validate_block_ignores_signatures [OF len] by blast
  moreover have "strip_signatures b \<noteq> b"
  proof
    assume "strip_signatures b = b"
    then have "blk_transactions (strip_signatures b) = blk_transactions b" by simp
    then have "map (\<lambda>tx. tx\<lparr>tx_signature := []\<rparr>) (blk_transactions b) = blk_transactions b"
      by (simp add: strip_signatures_def)
    then have "map (\<lambda>tx. tx\<lparr>tx_signature := []\<rparr>) (drop 1 (blk_transactions b)) = drop 1 (blk_transactions b)"
      by (simp flip: drop_map)
    with txs have "sample_tx\<lparr>tx_signature := []\<rparr> = sample_tx" by simp
    then have "tx_signature sample_tx = []"
      by (metis signed_transaction.select_convs(3) signed_transaction.surjective
          signed_transaction.update_convs(3))
    then show False by (simp add: sample_tx_def sample_sign_def sample_digest_def)
  qed
  ultimately show ?thesis using m by blast
qed

end
