(* ===== verification/ForeignChain.thy ===== *)
theory ForeignChain
  imports Selfcheck
begin

text \<open>
  What \<open>is_valid_chain_rust\<close> of \<open>src/lib.rs\<close> decides of a whole foreign chain, and that the
  chain a node mines passes it: the declarative counterpart \<open>chain_ok\<close> of the nested loops,
  the link to mining, and what the test leaves open (rewards, links to accounts).
\<close>

section \<open>The transaction loop\<close>

text \<open>
  The nonces of one sender inside a block: each is the one before plus one. The first is
  free (\<open>or_insert_with\<close> takes it from the transaction itself).
\<close>

primrec nonce_run :: "u64 option \<Rightarrow> u64 list \<Rightarrow> bool" where
  "nonce_run e [] = True"
| "nonce_run e (x # xs) = ((e = None \<or> e = Some x) \<and> nonce_run (Some (x + 1)) xs)"

definition nonce_runs :: "(string \<rightharpoonup> u64) \<Rightarrow> signed_transaction list \<Rightarrow> bool" where
  "nonce_runs m txs \<longleftrightarrow>
     (\<forall>addr. addr \<noteq> COINBASE_ADDR \<longrightarrow>
        nonce_run (m addr) (map (\<lambda>tx. tx_nonce tx) (sent_by addr txs)))"

definition tx_signed :: "env \<Rightarrow> signed_transaction \<Rightarrow> bool" where
  "tx_signed E tx \<longleftrightarrow> tx_from tx \<noteq> COINBASE_ADDR \<longrightarrow> verify_signed_tx E tx"

lemma check_signature_iff: "check_signature E tx = Inr () \<longleftrightarrow> verify_signed_tx E tx"
  by (auto simp: check_signature_def verify_signed_tx_iff split: option.splits)

lemma nonce_runs_Cons:
  "nonce_runs m (tx # txs) \<longleftrightarrow>
     (if tx_from tx \<noteq> COINBASE_ADDR then
        (m (tx_from tx) = None \<or> m (tx_from tx) = Some (tx_nonce tx)) \<and>
        nonce_runs (m(tx_from tx \<mapsto> tx_nonce tx + 1)) txs
      else nonce_runs m txs)"
proof (cases "tx_from tx = COINBASE_ADDR")
  case True
  then show ?thesis by (auto simp: nonce_runs_def)
next
  case False
  show ?thesis
    unfolding nonce_runs_def using False
    by (auto split: if_splits)
qed

text \<open>The two ways through one step: a test fails, or the loop goes on.\<close>

definition nonce_expected :: "(string \<rightharpoonup> u64) \<Rightarrow> signed_transaction \<Rightarrow> bool" where
  "nonce_expected m tx \<longleftrightarrow> m (tx_from tx) = None \<or> m (tx_from tx) = Some (tx_nonce tx)"

definition counted :: "(string \<rightharpoonup> u64) \<Rightarrow> signed_transaction \<Rightarrow> (string \<rightharpoonup> u64)" where
  "counted m tx = (if tx_from tx = COINBASE_ADDR then m else m(tx_from tx \<mapsto> tx_nonce tx + 1))"

definition noted :: "(string \<times> u64) set \<Rightarrow> signed_transaction \<Rightarrow> (string \<times> u64) set" where
  "noted S tx = (if tx_from tx = COINBASE_ADDR then S else insert (tx_key tx) S)"

definition passes :: "env \<Rightarrow> (string \<rightharpoonup> u64) \<Rightarrow> signed_transaction \<Rightarrow> bool" where
  "passes E m tx \<longleftrightarrow>
     tx_from tx \<noteq> COINBASE_ADDR \<longrightarrow> check_signature E tx = Inr () \<and> nonce_expected m tx"

lemma chain_tx_rejected:
  assumes "\<not> passes E m tx"
  shows "chain_tx_loop E (tx # txs) m seen S fc fi = Inr None"
  using assms
  by (cases "check_signature E tx"; cases "m (tx_from tx)") (auto simp: passes_def nonce_expected_def Let_def)

lemma chain_tx_next:
  assumes "passes E m tx" and "tx_from tx \<noteq> COINBASE_ADDR"
  shows "(case m (tx_from tx) of None \<Rightarrow> tx_nonce tx | Some n \<Rightarrow> n) = tx_nonce tx"
  using assms by (auto simp: passes_def nonce_expected_def)

lemma chain_tx_passed:
  assumes ok: "passes E m tx"
    and step: "tx_from tx \<noteq> COINBASE_ADDR \<Longrightarrow>
      tx_key tx \<notin> S \<and> u_add (build E) (tx_nonce tx) 1 = Inr (tx_nonce tx + 1)"
  shows "chain_tx_loop E (tx # txs) m seen S fc fi =
    (if tx_id E tx \<in> seen then Inr None
     else case decompose (pl_fee_selector (tx_payload tx)) (pl_fee (tx_payload tx)) of
       Inl _ \<Rightarrow> Inr None
     | Inr (c, i) \<Rightarrow> chain_tx_loop E txs (counted m tx) (insert (tx_id E tx) seen) (noted S tx)
                      (fc + unat c) (fi + unat i))"
proof (cases "tx_from tx = COINBASE_ADDR")
  case True
  then have "counted m tx = m" "noted S tx = S" by (simp_all add: counted_def noted_def)
  then show ?thesis using True by (simp only: chain_tx_loop.simps Let_def) simp
next
  case False
  then have c: "counted m tx = m(tx_from tx \<mapsto> tx_nonce tx + 1)" "noted S tx = insert (tx_key tx) S"
    by (simp_all add: counted_def noted_def)
  from False have "check_signature E tx = Inr ()" using ok by (simp add: passes_def)
  then show ?thesis
    using False step [OF False] chain_tx_next [OF ok False]
    unfolding c by (simp only: chain_tx_loop.simps Let_def) simp
qed

text \<open>What the whole loop decides, where it does not panic.\<close>

definition txs_ok :: "env \<Rightarrow> (string \<rightharpoonup> u64) \<Rightarrow> bytes set \<Rightarrow> signed_transaction list \<Rightarrow> bool" where
  "txs_ok E m seen txs \<longleftrightarrow>
     (\<forall>tx\<in>set txs. tx_signed E tx) \<and> nonce_runs m txs \<and> distinct (map (tx_id E) txs) \<and>
     tx_id E ` set txs \<inter> seen = {} \<and> fees_decompose txs"

lemma txs_ok_Nil [simp]: "txs_ok E m seen []"
  by (simp add: txs_ok_def nonce_runs_def fees_decompose_def)

lemma txs_ok_Cons:
  "txs_ok E m seen (tx # txs) \<longleftrightarrow>
     passes E m tx \<and> tx_id E tx \<notin> seen \<and>
     (\<exists>p. decompose (pl_fee_selector (tx_payload tx)) (pl_fee (tx_payload tx)) = Inr p) \<and>
     txs_ok E (counted m tx) (insert (tx_id E tx) seen) txs"
proof -
  have "tx_id E ` set (tx # txs) \<inter> seen = {} \<and> distinct (map (tx_id E) (tx # txs)) \<longleftrightarrow>
      tx_id E tx \<notin> seen \<and> distinct (map (tx_id E) txs) \<and> tx_id E ` set txs \<inter> insert (tx_id E tx) seen = {}"
    by auto
  moreover have "tx_signed E tx \<and> nonce_runs m (tx # txs) \<longleftrightarrow> passes E m tx \<and> nonce_runs (counted m tx) txs"
    by (auto simp: nonce_runs_Cons passes_def nonce_expected_def counted_def tx_signed_def check_signature_iff)
  moreover have "fees_decompose (tx # txs) \<longleftrightarrow>
      (\<exists>p. decompose (pl_fee_selector (tx_payload tx)) (pl_fee (tx_payload tx)) = Inr p) \<and> fees_decompose txs"
    by (simp add: fees_decompose_def)
  ultimately show ?thesis unfolding txs_ok_def list.simps ball_simps by blast
qed

text \<open>
  \<open>F\<close> is what keeps the loop going: the sender's nonce is new and its successor computed.
\<close>

lemma chain_tx_loop_eq:
  assumes "F m S txs"
    and step: "\<And>m S tx txs. F m S (tx # txs) \<Longrightarrow> passes E m tx \<Longrightarrow> F (counted m tx) (noted S tx) txs \<and>
      (tx_from tx \<noteq> COINBASE_ADDR \<longrightarrow>
         tx_key tx \<notin> S \<and> u_add (build E) (tx_nonce tx) 1 = Inr (tx_nonce tx + 1))"
  shows "chain_tx_loop E txs m seen S fc fi =
    Inr (if txs_ok E m seen txs then Some (fc + fees_c txs, fi + fees_i txs) else None)"
  using assms(1)
proof (induction txs arbitrary: m seen S fc fi)
  case Nil
  then show ?case by simp
next
  case (Cons tx txs)
  show ?case
  proof (cases "passes E m tx")
    case False
    then show ?thesis by (simp add: chain_tx_rejected txs_ok_Cons del: chain_tx_loop.simps)
  next
    case True
    note go = step [OF Cons.prems True]
    note IH = Cons.IH [OF conjunct1 [OF go]]
    show ?thesis
      using True go
      by (subst chain_tx_passed [OF True]; cases "decompose (pl_fee_selector (tx_payload tx)) (pl_fee (tx_payload tx))")
        (auto simp: IH txs_ok_Cons tx_fees_def)
  qed
qed

text \<open>First reason: no nonce is the last one, so the expected nonces only grow.\<close>

definition below_max :: "signed_transaction \<Rightarrow> bool" where
  "below_max tx \<longleftrightarrow> tx_from tx \<noteq> COINBASE_ADDR \<longrightarrow> tx_nonce tx \<noteq> - 1"

definition behind :: "(string \<rightharpoonup> u64) \<Rightarrow> (string \<times> u64) set \<Rightarrow> bool" where
  "behind m S \<longleftrightarrow> (\<forall>(a, n)\<in>S. \<exists>e. m a = Some e \<and> unat n < unat e)"

lemma behind_empty [simp]: "behind m {}"
  by (simp add: behind_def)

lemma behind_step:
  assumes "behind m S" and "passes E m tx" and "below_max tx"
  shows "behind (counted m tx) (noted S tx)"
    and "tx_from tx \<noteq> COINBASE_ADDR \<Longrightarrow>
      tx_key tx \<notin> S \<and> u_add (build E) (tx_nonce tx) 1 = Inr (tx_nonce tx + 1)"
proof -
  have u: "unat (tx_nonce tx + 1) = unat (tx_nonce tx) + 1"
    and add: "u_add (build E) (tx_nonce tx) 1 = Inr (tx_nonce tx + 1)" if "tx_from tx \<noteq> COINBASE_ADDR"
  proof -
    have "unat (tx_nonce tx) \<noteq> unat (- 1 :: u64)" using assms(3) that by (simp add: below_max_def word_unat_eq_iff)
    then have "unat (tx_nonce tx) + 1 < 2 ^ LENGTH(64)" using unat_bound [of "tx_nonce tx"]
      by (simp add: unsigned_minus_1_eq_mask mask_eq_exp_minus_1)
    then show "unat (tx_nonce tx + 1) = unat (tx_nonce tx) + 1"
      "u_add (build E) (tx_nonce tx) 1 = Inr (tx_nonce tx + 1)"
      by (simp_all add: u_add_exact unat_add_exact)
  qed
  show "behind (counted m tx) (noted S tx)"
    using assms(1,2) u by (fastforce simp: behind_def counted_def noted_def passes_def nonce_expected_def)
  show "tx_key tx \<notin> S \<and> u_add (build E) (tx_nonce tx) 1 = Inr (tx_nonce tx + 1)"
    if "tx_from tx \<noteq> COINBASE_ADDR"
    using assms(1,2) add that by (fastforce simp: behind_def passes_def nonce_expected_def)
qed

lemma chain_tx_loop_below:
  assumes "\<forall>tx\<in>set txs. below_max tx" and "behind m S"
  shows "chain_tx_loop E txs m seen S fc fi =
    Inr (if txs_ok E m seen txs then Some (fc + fees_c txs, fi + fees_i txs) else None)"
  by (rule chain_tx_loop_eq [where F = "\<lambda>m S txs. (\<forall>tx\<in>set txs. below_max tx) \<and> behind m S"])
    (use assms behind_step in \<open>auto\<close>)

text \<open>
  Second reason: without overflow checks the successor wraps around, and a block of fewer
  than \<open>2^64\<close> transactions is too short for a sender to come back to its first nonce.
\<close>

definition trails :: "nat \<Rightarrow> (string \<rightharpoonup> u64) \<Rightarrow> (string \<times> u64) set \<Rightarrow> bool" where
  "trails k m S \<longleftrightarrow>
     (\<forall>(a, n)\<in>S. \<exists>e j. m a = Some e \<and> 0 < j \<and> j \<le> k \<and> e = n + of_nat j)"

lemma trails_step:
  assumes "trails k m S" and "passes E m tx" and k: "k < 2 ^ 64"
  shows "trails (Suc k) (counted m tx) (noted S tx)"
    and "tx_from tx \<noteq> COINBASE_ADDR \<Longrightarrow> tx_key tx \<notin> S"
proof -
  have old: "\<exists>e j. counted m tx a = Some e \<and> 0 < j \<and> j \<le> Suc k \<and> e = n + of_nat j" if "(a, n) \<in> S" for a n
  proof -
    from assms(1) that obtain e j where e: "m a = Some e" "0 < j" "j \<le> k" "e = n + of_nat j"
      by (auto simp: trails_def)
    show ?thesis
    proof (cases "tx_from tx \<noteq> COINBASE_ADDR \<and> tx_from tx = a")
      case True
      then have "tx_nonce tx = e" using assms(2) e by (auto simp: passes_def nonce_expected_def)
      then have "counted m tx a = Some (n + of_nat (Suc j))" using True e by (auto simp: counted_def)
      with e(2,3) show ?thesis by (intro exI [of _ "n + of_nat (Suc j)"] exI [of _ "Suc j"]) simp
    next
      case False
      then have "counted m tx a = Some e" using e by (auto simp: counted_def)
      with e(2-4) show ?thesis by (intro exI [of _ e] exI [of _ j]) simp
    qed
  qed
  moreover have "\<exists>e j. counted m tx (tx_from tx) = Some e \<and> 0 < j \<and> j \<le> Suc k \<and> e = tx_nonce tx + of_nat j"
    if "tx_from tx \<noteq> COINBASE_ADDR"
    using that by (intro exI [of _ "tx_nonce tx + 1"] exI [of _ "1 :: nat"]) (simp add: counted_def)
  ultimately show "trails (Suc k) (counted m tx) (noted S tx)"
    by (auto simp: trails_def noted_def)
  show "tx_key tx \<notin> S" if "tx_from tx \<noteq> COINBASE_ADDR"
  proof
    assume "tx_key tx \<in> S"
    with assms(1) obtain e j where e: "m (tx_from tx) = Some e" "0 < j" "j \<le> k" "e = tx_nonce tx + of_nat j"
      by (auto simp: trails_def)
    then have "(of_nat j :: u64) = 0" using assms(2) that by (simp add: passes_def nonce_expected_def)
    then have "2 ^ 64 dvd j" by (simp add: word_of_nat_eq_0_iff)
    with e(2,3) k show False by (auto dest: dvd_imp_le)
  qed
qed

lemma chain_tx_loop_Release:
  assumes "build E = Release" and "length txs \<le> 2 ^ 64"
  shows "chain_tx_loop E txs m seen {} fc fi =
    Inr (if txs_ok E m seen txs then Some (fc + fees_c txs, fi + fees_i txs) else None)"
proof (rule chain_tx_loop_eq [where F = "\<lambda>m S txs. \<exists>k. trails k m S \<and> k + length txs \<le> 2 ^ 64"])
  show "\<exists>k. trails k m {} \<and> k + length txs \<le> 2 ^ 64"
    using assms(2) by (intro exI [of _ 0]) (simp add: trails_def)
next
  fix m' S tx txs'
  assume "\<exists>k. trails k m' S \<and> k + length (tx # txs') \<le> 2 ^ 64" and ok: "passes E m' tx"
  then obtain k where k: "trails k m' S" "Suc k + length txs' \<le> 2 ^ 64" by auto
  then have lt: "k < 2 ^ 64" by simp
  note step = trails_step [OF k(1) ok lt]
  show "(\<exists>k. trails k (counted m' tx) (noted S tx) \<and> k + length txs' \<le> 2 ^ 64) \<and>
      (tx_from tx \<noteq> COINBASE_ADDR \<longrightarrow>
         tx_key tx \<notin> S \<and> u_add (build E) (tx_nonce tx) 1 = Inr (tx_nonce tx + 1))"
    using step k(2) by (auto simp: assms(1) u_add_Release intro!: exI [of _ "Suc k"])
qed

text \<open>With overflow checks the last nonce makes the loop panic, unless a test fails before.\<close>

lemma chain_tx_loop_panics:
  assumes E: "build E = Debug" and "\<exists>tx\<in>set txs. \<not> below_max tx" and "behind m S"
  shows "(\<exists>msg. chain_tx_loop E txs m seen S fc fi = Inl (Panic msg)) \<or>
    chain_tx_loop E txs m seen S fc fi = Inr None \<and> \<not> txs_ok E m seen txs"
  using assms(2,3)
proof (induction txs arbitrary: m seen S fc fi)
  case Nil
  then show ?case by simp
next
  case (Cons tx txs)
  show ?case
  proof (cases "passes E m tx")
    case False
    then show ?thesis by (simp add: chain_tx_rejected txs_ok_Cons del: chain_tx_loop.simps)
  next
    case ok: True
    show ?thesis
    proof (cases "below_max tx")
      case True
      note step = behind_step [OF Cons.prems(2) ok True]
      have rest: "\<exists>tx\<in>set txs. \<not> below_max tx" using Cons.prems(1) True by auto
      note IH = Cons.IH [OF rest step(1), of "insert (tx_id E tx) seen"]
      show ?thesis
        using IH ok
        by (subst (1 2) chain_tx_passed [OF ok step(2)])
          (auto simp: txs_ok_Cons split: sum.split prod.split)
    next
      case False
      then have nz: "tx_from tx \<noteq> COINBASE_ADDR" and n: "tx_nonce tx = - 1" by (simp_all add: below_max_def)
      have "\<exists>msg. u_add (build E) (tx_nonce tx) 1 = Inl (Panic msg)"
        by (simp add: E n u_add_def unsigned_minus_1_eq_mask mask_eq_exp_minus_1)
      moreover have "check_signature E tx = Inr ()" using ok nz by (simp add: passes_def)
      ultimately show ?thesis
        using nz chain_tx_next [OF ok nz] by (simp only: chain_tx_loop.simps Let_def) auto
    qed
  qed
qed

section \<open>Blocks and chains\<close>

definition chain_block_ok :: "env \<Rightarrow> u32 \<Rightarrow> string \<Rightarrow> block \<Rightarrow> bool" where
  "chain_block_ok E difficulty prev b \<longleftrightarrow>
     blk_previous_hash b = prev \<and> blk_difficulty b = ucast difficulty \<and>
     mined_hash_ok E b (unat difficulty) \<and>
     (\<exists>cb txs. blk_transactions b = cb # txs \<and> coinbase_matches b cb \<and>
        (\<forall>tx\<in>set txs. tx_signed E tx) \<and> nonce_runs Map.empty txs \<and>
        distinct (map (tx_id E) txs) \<and> fees_covered E b txs)"

primrec chain_ok :: "env \<Rightarrow> u32 \<Rightarrow> string \<Rightarrow> block list \<Rightarrow> bool" where
  "chain_ok E difficulty prev [] = True"
| "chain_ok E difficulty prev (b # bs) =
     (chain_block_ok E difficulty prev b \<and> chain_ok E difficulty (blk_hash b) bs)"

text \<open>
  No transaction uses the last nonce: \<open>*next += 1\<close> would panic on it in a debug build.
\<close>

definition nonces_below_max :: "block \<Rightarrow> bool" where
  "nonces_below_max b \<longleftrightarrow> (\<forall>tx\<in>set (drop 1 (blk_transactions b)). below_max tx)"

text \<open>The tests after the transaction loop.\<close>

definition fee_verdict :: "env \<Rightarrow> block \<Rightarrow> (nat \<times> nat) option \<Rightarrow> error + bool" where
  "fee_verdict E b r = (case r of
       None \<Rightarrow> Inr False
     | Some (fee_tot_c, fee_tot_i) \<Rightarrow>
         (case (u64_try_from fee_tot_c, u64_try_from fee_tot_i) of
            (Some fc, Some fi) \<Rightarrow>
              if fee_checksum E fc fi \<noteq> blk_fee_checksum b then Inr False
              else if unat (tok (blk_coinbase_consumer b)) < fee_tot_c \<or>
                      unat (tok (blk_coinbase_industrial b)) < fee_tot_i then Inr False
              else Inr True
          | _ \<Rightarrow> Inr False))"

lemma fee_verdict_None [simp]: "fee_verdict E b None = Inr False"
  by (simp add: fee_verdict_def)

lemma fee_verdict_totals:
  "fees_decompose txs \<Longrightarrow> fee_verdict E b (Some (fees_c txs, fees_i txs)) = Inr (fees_covered E b txs)"
  by (auto simp: fee_verdict_def fees_covered_def u64_try_from_def not_less)

text \<open>
  One block: a test before the transaction loop fails, or the loop and the fee test decide.
\<close>

lemma valid_chain_block_cases:
  assumes hex: "hex_roundtrip E"
  obtains (refused) "valid_chain_block E d prev b = Inr False" and "\<not> chain_block_ok E d prev b"
  | (looped) cb txs where "blk_transactions b = cb # txs"
      and "chain_block_ok E d prev b \<longleftrightarrow> txs_ok E Map.empty {} txs \<and> fees_covered E b txs"
      and "valid_chain_block E d prev b =
        bind_res (chain_tx_loop E txs Map.empty {} {} 0 0) (fee_verdict E b)"
proof (cases "blk_transactions b")
  case Nil
  then show ?thesis by (intro refused) (simp_all add: valid_chain_block_def chain_block_ok_def)
next
  case (Cons cb txs)
  show ?thesis
  proof (cases "blk_previous_hash b = prev \<and> blk_difficulty b = ucast d \<and> coinbase_matches b cb \<and>
      blk_hash b = block_hash_at E b (blk_nonce b)")
    case False
    with Cons show ?thesis
      by (intro refused)
        (auto simp: valid_chain_block_def chain_block_ok_def coinbase_matches_def mined_hash_ok_def)
  next
    case True
    then obtain bs where bs: "hex_decode E (blk_hash b) = Some bs"
      using block_hash_decodes [OF hex, of b "blk_nonce b"] by auto
    show ?thesis
    proof (cases "unat d \<le> leading_zero_bits bs")
      case False
      with True Cons bs show ?thesis
        by (intro refused) (auto simp: valid_chain_block_def chain_block_ok_def coinbase_matches_def
          mined_hash_ok_def hex_to_bytes_def)
    next
      case work: True
      show ?thesis
      proof (rule looped [OF Cons])
        show "chain_block_ok E d prev b \<longleftrightarrow> txs_ok E Map.empty {} txs \<and> fees_covered E b txs"
          using True Cons bs work
          by (auto simp: chain_block_ok_def mined_hash_ok_def txs_ok_def fees_covered_def)
      next
        show "valid_chain_block E d prev b =
            bind_res (chain_tx_loop E txs Map.empty {} {} 0 0) (fee_verdict E b)"
          using True Cons bs work
          by (simp add: valid_chain_block_def coinbase_matches_def hex_to_bytes_def not_less)
            (intro arg_cong [of _ _ "bind_res _"] ext, simp add: fee_verdict_def split: option.split)
      qed
    qed
  qed
qed

lemma valid_chain_block_eq:
  assumes hex: "hex_roundtrip E"
    and loop: "\<And>cb txs. blk_transactions b = cb # txs \<Longrightarrow> chain_tx_loop E txs Map.empty {} {} 0 0 =
      Inr (if txs_ok E Map.empty {} txs then Some (0 + fees_c txs, 0 + fees_i txs) else None)"
  shows "valid_chain_block E d prev b = Inr (chain_block_ok E d prev b)"
proof (rule valid_chain_block_cases [OF hex, of d prev b], goal_cases refused looped)
  case (looped cb txs)
  show ?case
  proof (cases "txs_ok E Map.empty {} txs")
    case True
    then have fd: "fees_decompose txs" by (simp add: txs_ok_def)
    show ?thesis unfolding looped(2,3) loop [OF looped(1)] using True fee_verdict_totals [OF fd, of E b] by simp
  qed (simp add: looped(2,3) loop [OF looped(1)])
qed simp

lemma valid_chain_block_below:
  assumes "hex_roundtrip E" and "nonces_below_max b"
  shows "valid_chain_block E d prev b = Inr (chain_block_ok E d prev b)"
  by (rule valid_chain_block_eq [OF assms(1) chain_tx_loop_below])
    (use assms(2) in \<open>simp_all add: nonces_below_max_def\<close>)

lemma valid_chain_block_Release:
  assumes "hex_roundtrip E" and "build E = Release" and "length (blk_transactions b) \<le> 2 ^ 64"
  shows "valid_chain_block E d prev b = Inr (chain_block_ok E d prev b)"
  by (rule valid_chain_block_eq [OF assms(1) chain_tx_loop_Release [OF assms(2)]]) (use assms(3) in simp)

lemma valid_chain_block_panics:
  assumes "hex_roundtrip E" and "build E = Debug" and "\<not> nonces_below_max b"
  shows "(\<exists>msg. valid_chain_block E d prev b = Inl (Panic msg)) \<or>
    valid_chain_block E d prev b = Inr False \<and> \<not> chain_block_ok E d prev b"
proof (rule valid_chain_block_cases [OF assms(1), of d prev b], goal_cases refused looped)
  case (looped cb txs)
  have "\<exists>tx\<in>set txs. \<not> below_max tx" using assms(3) looped(1) by (simp add: nonces_below_max_def)
  from chain_tx_loop_panics [OF assms(2) this behind_empty, of Map.empty "{}" 0 0]
  show ?case by (auto simp: looped(2,3))
qed simp

lemma valid_chain_block_True:
  assumes hex: "hex_roundtrip E" and len: "length (blk_transactions b) \<le> 2 ^ 64"
    and ok: "valid_chain_block E d prev b = Inr True"
  shows "chain_block_ok E d prev b"
proof (cases "build E")
  case Debug
  then show ?thesis
    using valid_chain_block_panics [OF hex Debug, of b d prev] valid_chain_block_below [OF hex, of b d prev] ok
    by (cases "nonces_below_max b") auto
next
  case Release
  then show ?thesis using valid_chain_block_Release [OF hex Release len, of d prev] ok by simp
qed

text \<open>The whole chain.\<close>

lemma valid_chain_from_eq:
  assumes "hex_roundtrip E" and "\<forall>b\<in>set bs. nonces_below_max b"
  shows "valid_chain_from E d prev bs = Inr (chain_ok E d prev bs)"
  using assms(2) by (induction bs arbitrary: prev) (simp_all add: valid_chain_block_below [OF assms(1)])

lemma valid_chain_from_Release:
  assumes "hex_roundtrip E" and "build E = Release" and "\<forall>b\<in>set bs. length (blk_transactions b) \<le> 2 ^ 64"
  shows "valid_chain_from E d prev bs = Inr (chain_ok E d prev bs)"
  using assms(3) by (induction bs arbitrary: prev) (simp_all add: valid_chain_block_Release [OF assms(1,2)])

lemma valid_chain_from_panics:
  assumes "hex_roundtrip E" and "build E = Debug" and "\<exists>b\<in>set bs. \<not> nonces_below_max b"
  shows "(\<exists>msg. valid_chain_from E d prev bs = Inl (Panic msg)) \<or>
    valid_chain_from E d prev bs = Inr False \<and> \<not> chain_ok E d prev bs"
  using assms(3)
proof (induction bs arbitrary: prev)
  case (Cons b bs)
  show ?case
  proof (cases "nonces_below_max b")
    case True
    with Cons show ?thesis using valid_chain_block_below [OF assms(1) True, of d prev] by auto
  next
    case False
    from valid_chain_block_panics [OF assms(1,2) this, of d prev] show ?thesis by auto
  qed
qed simp

lemma chain_ok_append:
  "chain_ok E d prev (bs @ [b]) \<longleftrightarrow>
     chain_ok E d prev bs \<and> chain_block_ok E d (if bs = [] then prev else blk_hash (last bs)) b"
  by (induction bs arbitrary: prev) auto

section \<open>From validate_block to the chain test\<close>

lemma consec_nonce_run:
  "consec n xs \<Longrightarrow> (\<And>m. e = Some m \<Longrightarrow> unat m = n + 1) \<Longrightarrow> nonce_run e xs"
proof (induction xs arbitrary: n e)
  case Nil
  then show ?case by simp
next
  case (Cons x xs)
  from Cons.prems(1) have x: "unat x = n + 1" and rest: "consec (n + 1) xs" by simp_all
  have "e = None \<or> e = Some x"
    using Cons.prems(2) x by (cases e) (auto simp: word_unat_eq_iff)
  moreover have "nonce_run (Some (x + 1)) xs"
  proof (cases xs)
    case Nil
    then show ?thesis by simp
  next
    case (Cons y ys)
    with rest have "unat y = n + 2" by simp
    then have "unat x + 1 < 2 ^ LENGTH(64)" using unat_bound [of y] x by simp
    then have "unat (x + 1) = n + 2" using x by (simp add: unat_add_exact)
    with rest show ?thesis by (intro Cons.IH) auto
  qed
  ultimately show ?case by simp
qed

lemma nonces_settled_runs: "nonces_settled A txs \<Longrightarrow> nonce_runs Map.empty txs"
  unfolding nonces_settled_def nonce_runs_def by (auto intro: consec_nonce_run)

text \<open>
  A block that \<open>validate_block\<close> accepts passes the chain test when its transactions are
  signed and the difficulty fits in 32 bits.
\<close>

lemma accepted_block_chain_ok:
  assumes acc: "block_accepted E s b" and sgn: "\<forall>tx\<in>set (drop 1 (blk_transactions b)). tx_signed E tx"
    and d: "unat (bc_difficulty s) < 2 ^ 32"
  shows "chain_block_ok E (ucast (bc_difficulty s)) (blk_previous_hash b) b"
proof -
  have "ucast (ucast (bc_difficulty s) :: u32) = bc_difficulty s"
    using d by (simp add: word_unat_eq_iff unsigned_ucast_eq unsigned_take_bit_eq take_bit_nat_eq_self)
  with acc sgn show ?thesis
    by (auto simp: block_accepted_def chain_block_ok_def target_bits_def dest: nonces_settled_runs)
qed

lemma mined_chain_ok:
  assumes rdy: "mining_ready s" and cg: "contig s" and len: "length (bc_chain s) < 2 ^ 64"
    and hex: "hex_roundtrip E" and d: "unat (bc_difficulty s) < 2 ^ 32"
    and sgn: "\<forall>tx\<in>set (pool_txs s). verify_signed_tx E tx"
    and good: "chain_ok E (ucast (bc_difficulty s)) zero_prev_hash (bc_chain s)"
    and ok: "mine_block E miner s = (Inr b, t)" and ids: "distinct (map (tx_id E) (blk_transactions b))"
  shows "chain_ok E (ucast (bc_difficulty t)) zero_prev_hash (bc_chain t) \<and> bc_difficulty t = bc_difficulty s"
proof (rule mine_block_success [OF rdy ok])
  fix n fc fi cb_c cb_i B rc ri bytes
  let ?C = "B(miner \<mapsto> credited cb_c cb_i (or_insert B miner))"
  let ?b0 = "block_template E (prev_hash_of (bc_chain s)) miner s (fc, fi, cb_c, cb_i)"
  assume b: "b = ?b0\<lparr>blk_nonce := n, blk_hash := block_hash_at E ?b0 n\<rparr>"
    and t: "t = (mined_state s b ?C rc ri)\<lparr>bc_db := db_after (bc_db s) bytes\<rparr>"
  have dt: "bc_difficulty t = bc_difficulty s" and ct: "bc_chain t = bc_chain s @ [b]"
    unfolding t by simp_all
  have "block_accepted E t b" by (rule mined_block_accepted [OF rdy cg len hex ok ids])
  moreover have "\<forall>tx\<in>set (drop 1 (blk_transactions b)). tx_signed E tx"
    using sgn unfolding b by (simp add: set_pending_sorted tx_signed_def)
  ultimately have "chain_block_ok E (ucast (bc_difficulty s)) (blk_previous_hash b) b"
    using accepted_block_chain_ok [of E t b] d dt by simp
  moreover have "blk_previous_hash b = (if bc_chain s = [] then zero_prev_hash else blk_hash (last (bc_chain s)))"
  proof -
    have "unat (of_nat (length (bc_chain s)) :: u64) = length (bc_chain s)"
      using len by (simp add: unat_of_nat take_bit_nat_eq_self)
    then have "(of_nat (length (bc_chain s)) :: u64) = 0 \<longleftrightarrow> bc_chain s = []"
      by (metis length_0_conv unat_0 unat_eq_0)
    then show ?thesis unfolding b by (simp add: prev_hash_of_def)
  qed
  ultimately show ?thesis using good by (simp add: dt ct chain_ok_append)
qed

end
