(* ===== verification/ChainImport.thy ===== *)
theory ChainImport
  imports ForeignChain
begin

text \<open>
  \<open>Blockchain::import_chain\<close> of \<open>src/lib.rs\<close>: adopting a longer foreign chain by replaying
  it from an empty ledger. The lemmas compare the replay of a block with what
  \<open>mine_block\<close> did to the accounts when the block was mined.
\<close>

section \<open>The code\<close>

text \<open>
  The debit of a known sender. The consumer balance is already written when the industrial
  addition overflows. Pending amounts are not touched.
\<close>

definition replay_debit :: "env \<Rightarrow> signed_transaction \<Rightarrow> account \<Rightarrow> (account, unit) outcome" where
  "replay_debit E tx s =
     and_then (u_add (build E) (pl_amount_consumer (tx_payload tx)) (fee_c tx), s) (\<lambda>total_c s.
     let s = set_consumer (saturating_sub (tb_consumer (acc_balance s)) total_c) s in
     and_then (u_add (build E) (pl_amount_industrial (tx_payload tx)) (fee_i tx), s) (\<lambda>total_i s.
     let s = set_industrial (saturating_sub (tb_industrial (acc_balance s)) total_i) s
     in (Inr (), s\<lparr>acc_nonce := tx_nonce tx\<rparr>)))"

text \<open>The sender's part; its result is what the transaction adds to the two fee totals.\<close>

definition replay_sender :: "env \<Rightarrow> signed_transaction \<Rightarrow> accounts \<Rightarrow> (accounts, nat \<times> nat) outcome" where
  "replay_sender E tx A =
     (if tx_from tx \<noteq> COINBASE_ADDR then
        (case check_signature E tx of
           Inl msg \<Rightarrow> (Inl (ValueError msg), A)
         | Inr _ \<Rightarrow>
           (case A (tx_from tx) of
              None \<Rightarrow> (Inr (0, 0), A)
            | Some s \<Rightarrow>
              (case replay_debit E tx s of
                 (Inl e, s) \<Rightarrow> (Inl e, A(tx_from tx \<mapsto> s))
               | (Inr _, s) \<Rightarrow> (Inr (unat (fee_c tx), unat (fee_i tx)), A(tx_from tx \<mapsto> s)))))
      else (Inr (0, 0), A))"

primrec replay_txs ::
  "env \<Rightarrow> signed_transaction list \<Rightarrow> nat \<Rightarrow> nat \<Rightarrow> accounts \<Rightarrow> (accounts, nat \<times> nat) outcome" where
  "replay_txs E [] fee_tot_c fee_tot_i A = (Inr (fee_tot_c, fee_tot_i), A)"
| "replay_txs E (tx # txs) fee_tot_c fee_tot_i A =
     and_then (replay_sender E tx A) (\<lambda>(fc, fi) A.
     and_then (credit E (tx_to tx) (pl_amount_consumer (tx_payload tx))
                 (pl_amount_industrial (tx_payload tx)) A) (\<lambda>_ A.
     replay_txs E txs (fee_tot_c + fc) (fee_tot_i + fi) A))"

text \<open>The checks between the replay and the payment of the miner.\<close>

definition import_fees :: "env \<Rightarrow> block \<Rightarrow> nat \<times> nat \<Rightarrow> error + unit" where
  "import_fees E b fees =
     (case fees of (fee_tot_c, fee_tot_i) \<Rightarrow>
       (case (u64_try_from fee_tot_c, u64_try_from fee_tot_i) of
          (Some fc, Some fi) \<Rightarrow>
            if fee_checksum E fc fi \<noteq> blk_fee_checksum b
            then Inl (ValueError ''Fee checksum mismatch'')
            else if unat (tok (blk_coinbase_consumer b)) < fee_tot_c \<or>
                    unat (tok (blk_coinbase_industrial b)) < fee_tot_i
            then Inl (ValueError ''Fee mismatch'')
            else Inr ()
        | _ \<Rightarrow> Inl (ValueError ''Fee overflow'')))"

definition coinbase_recorded :: "block \<Rightarrow> error + unit" where
  "coinbase_recorded b =
     (case blk_transactions b of
        [] \<Rightarrow> Inr ()
      | cb # _ \<Rightarrow>
          if pl_amount_consumer (tx_payload cb) \<noteq> tok (blk_coinbase_consumer b) \<or>
             pl_amount_industrial (tx_payload cb) \<noteq> tok (blk_coinbase_industrial b)
          then Inl (ValueError ''Coinbase mismatch'') else Inr ())"

definition import_block :: "env \<Rightarrow> block \<Rightarrow> blockchain \<Rightarrow> (blockchain, unit) outcome" where
  "import_block E b s =
     (let miner_addr = (case blk_transactions b of [] \<Rightarrow> '''' | cb # _ \<Rightarrow> tx_to cb) in
      and_then (on_accounts (replay_txs E (drop 1 (blk_transactions b)) 0 0) s) (\<lambda>fees s.
      and_then (import_fees E b fees, s) (\<lambda>_ s.
      and_then (on_accounts (credit_miner miner_addr (tok (blk_coinbase_consumer b))
                  (tok (blk_coinbase_industrial b))) s) (\<lambda>_ s.
      and_then (coinbase_recorded b, s) (\<lambda>_ s.
      let s = s\<lparr>bc_block_reward_consumer := decay (bc_block_reward_consumer s)\<rparr>;
          s = s\<lparr>bc_block_reward_industrial := decay (bc_block_reward_industrial s)\<rparr> in
      and_then (u_add (build E) (bc_emission_consumer s) (tok (blk_coinbase_consumer b)), s) (\<lambda>v s.
      let s = s\<lparr>bc_emission_consumer := v\<rparr> in
      and_then (u_add (build E) (bc_emission_industrial s) (tok (blk_coinbase_industrial b)), s) (\<lambda>v s.
      let s = s\<lparr>bc_emission_industrial := v, bc_chain := bc_chain s @ [b]\<rparr> in
      and_then (u_add (build E) (bc_block_height s) 1, s) (\<lambda>v s.
      (Inr (), s\<lparr>bc_block_height := v\<rparr>)))))))))"

primrec import_blocks :: "env \<Rightarrow> block list \<Rightarrow> blockchain \<Rightarrow> (blockchain, unit) outcome" where
  "import_blocks E [] s = (Inr (), s)"
| "import_blocks E (b # bs) s = and_then (import_block E b s) (\<lambda>_ s. import_blocks E bs s)"

text \<open>The state that \<open>import_chain\<close> replays from: mempool, store and difficulty stay.\<close>

definition reset_chain :: "blockchain \<Rightarrow> blockchain" where
  "reset_chain s =
     s\<lparr>bc_chain := [], bc_accounts := Map.empty, bc_emission_consumer := 0,
       bc_emission_industrial := 0,
       bc_block_reward_consumer := TokenAmount INITIAL_BLOCK_REWARD_CONSUMER,
       bc_block_reward_industrial := TokenAmount INITIAL_BLOCK_REWARD_INDUSTRIAL,
       bc_block_height := 0\<rparr>"

definition import_chain :: "env \<Rightarrow> block list \<Rightarrow> blockchain \<Rightarrow> (blockchain, unit) outcome" where
  "import_chain E new_chain s =
     (if length new_chain \<le> length (bc_chain s)
      then (Inl (ValueError ''Incoming chain not longer''), s)
      else and_then (is_valid_chain_rust E new_chain (ucast (bc_difficulty s)), s) (\<lambda>valid s.
        if \<not> valid then (Inl (ValueError ''Invalid incoming chain''), s)
        else import_blocks E new_chain (reset_chain s)))"

lemma import_chain_replay:
  "import_chain E bs s = (Inr (), t) \<Longrightarrow> import_blocks E bs (reset_chain s) = (Inr (), t)"
  by (auto simp: import_chain_def elim!: and_then_InrE split: if_splits)

section \<open>Accounts without reservations\<close>

definition no_pending :: "account \<Rightarrow> account" where
  "no_pending a = a\<lparr>acc_pending_consumer := 0, acc_pending_industrial := 0, acc_pending_nonce := 0\<rparr>"

definition strip_pending :: "accounts \<Rightarrow> accounts" where
  "strip_pending A = (\<lambda>x. map_option no_pending (A x))"

lemma no_pending_simps [simp]:
  "acc_address (no_pending a) = acc_address a" "acc_balance (no_pending a) = acc_balance a"
  "acc_nonce (no_pending a) = acc_nonce a" "no_pending (zero_account addr) = zero_account addr"
  by (simp_all add: no_pending_def zero_account_def)

lemma no_pending_set [simp]:
  "set_consumer v (no_pending a) = no_pending (set_consumer v a)"
  "set_industrial v (no_pending a) = no_pending (set_industrial v a)"
  by (simp_all add: no_pending_def set_consumer_def set_industrial_def)

lemma strip_pending_simps [simp]:
  "strip_pending Map.empty = Map.empty"
  "strip_pending (A(x \<mapsto> a)) = (strip_pending A)(x \<mapsto> no_pending a)"
  "or_insert (strip_pending A) x = no_pending (or_insert A x)"
  "A x = Some a \<Longrightarrow> strip_pending A x = Some (no_pending a)"
  "A x = None \<Longrightarrow> strip_pending A x = None"
  by (auto simp: strip_pending_def or_insert_def fun_eq_iff split: option.split)

lemma credit_with_strip:
  assumes "credit_with add_c add_i addr c i A = (Inr (), B)"
  shows "credit_with add_c add_i addr c i (strip_pending A) = (Inr (), strip_pending B)"
  using assms by (auto simp: credit_with_def Let_def elim!: and_then_InrE)

lemma debit_strip:
  assumes "debit_mined E tx s = Inr s'"
  shows "replay_debit E tx (no_pending s) = (Inr (), no_pending s')"
proof -
  from assms obtain tc ti where
    "u_add (build E) (pl_amount_consumer (tx_payload tx)) (fee_c tx) = Inr tc"
    "u_add (build E) (pl_amount_industrial (tx_payload tx)) (fee_i tx) = Inr ti"
    by (auto simp: debit_mined_def elim!: bind_res_InrE)
  with assms show ?thesis
    by (auto simp: debit_mined_def replay_debit_def Let_def no_pending_def set_consumer_def set_industrial_def)
qed

section \<open>Replaying what was mined\<close>

lemma replay_txs_mined:
  assumes "apply_mined_txs E txs A = (Inr (), B)"
    and "\<forall>tx\<in>set txs. tx_from tx \<noteq> COINBASE_ADDR \<and> verify_signed_tx E tx \<and> tx_from tx \<in> dom A"
  shows "replay_txs E txs fc fi (strip_pending A) =
    (Inr (fc + fees_c txs, fi + fees_i txs), strip_pending B)"
  using assms
proof (induction txs arbitrary: A fc fi)
  case Nil
  then show ?case by simp
next
  case (Cons tx txs)
  from Cons.prems(1) obtain C where C: "apply_mined_tx E tx A = (Inr (), C)"
    and rest: "apply_mined_txs E txs C = (Inr (), B)"
    by (auto elim!: and_then_InrE)
  from Cons.prems(2) obtain s where s: "A (tx_from tx) = Some s"
    and nz: "tx_from tx \<noteq> COINBASE_ADDR" and v: "check_signature E tx = Inr ()"
    by (auto simp: check_signature_iff)
  from C s nz obtain s' where s': "debit_mined E tx s = Inr s'"
    and cr: "credit E (tx_to tx) (pl_amount_consumer (tx_payload tx))
      (pl_amount_industrial (tx_payload tx)) (A(tx_from tx \<mapsto> s')) = (Inr (), C)"
    by (auto simp: apply_mined_tx_def debit_sender_def elim!: and_then_InrE)
  have "replay_sender E tx (strip_pending A) =
      (Inr (unat (fee_c tx), unat (fee_i tx)), (strip_pending A)(tx_from tx \<mapsto> no_pending s'))"
    using nz v s debit_strip [OF s'] by (simp add: replay_sender_def)
  moreover have "credit E (tx_to tx) (pl_amount_consumer (tx_payload tx))
      (pl_amount_industrial (tx_payload tx)) ((strip_pending A)(tx_from tx \<mapsto> no_pending s')) =
      (Inr (), strip_pending C)"
    using credit_with_strip [OF cr [unfolded credit_def]] by (simp add: credit_def)
  moreover have "dom A \<subseteq> dom C"
    using cr by (auto simp: credit_def credit_with_def Let_def elim!: and_then_InrE split: if_splits)
  then have "\<forall>tx\<in>set txs. tx_from tx \<noteq> COINBASE_ADDR \<and> verify_signed_tx E tx \<and> tx_from tx \<in> dom C"
    using Cons.prems(2) by (meson list.set_intros(2) subsetD)
  from Cons.IH [OF rest this, of "fc + unat (fee_c tx)" "fi + unat (fee_i tx)"]
  have "replay_txs E txs (fc + unat (fee_c tx)) (fi + unat (fee_i tx)) (strip_pending C) =
      (Inr (fc + unat (fee_c tx) + fees_c txs, fi + unat (fee_i tx) + fees_i txs), strip_pending B)" .
  ultimately show ?case by simp
qed

text \<open>
  Without open reservations an account table is determined by the settlement: it is a
  deterministic function of the table before and the transactions.
\<close>

lemma settles_unique:
  assumes "settles A txs B" and "settles A txs C" and "ledger_inv B []" and "ledger_inv C []"
  shows "B = C"
proof
  fix x
  have dom: "dom B = dom C" using assms(1,2) by (simp add: settles_def)
  show "B x = C x"
  proof (cases "B x")
    case None
    then have "x \<notin> dom C" using dom by (metis domIff)
    with None show ?thesis by (simp add: domIff)
  next
    case (Some b)
    then obtain c where c: "C x = Some c" using dom by (metis domD domI)
    have "bal_c B x = bal_c C x" "bal_i B x = bal_i C x" "nonce_of B x = nonce_of C x"
      using assms(1,2) by (simp_all add: settles_def) (metis add_right_cancel)+
    then have f: "acc_c b = acc_c c" "acc_i b = acc_i c" "acc_nonce b = acc_nonce c"
      using Some c by (simp_all add: bal_c_def bal_i_def nonce_of_def)
    note ok = ledger_invD(2) [OF assms(3) Some] ledger_invD(2) [OF assms(4) c]
    have "b = c"
    proof (rule account.equality)
      show "acc_balance b = acc_balance c"
        using f(1,2) by (intro token_balance.equality) (simp_all add: acc_c_def acc_i_def word_unat_eq_iff)
      show "acc_pending_consumer b = acc_pending_consumer c"
        "acc_pending_industrial b = acc_pending_industrial c"
        "acc_pending_nonce b = acc_pending_nonce c"
        using ok [THEN acc_no_pending] by simp_all
      show "acc_address b = acc_address c" using ok by (simp add: acc_ok_def)
    qed (use f in simp_all)
    with Some c show ?thesis by simp
  qed
qed

lemma no_pending_id:
  assumes "acc_ok [] x a"
  shows "no_pending a = a"
  using acc_no_pending [OF assms] by (intro account.equality) (simp_all add: no_pending_def)

lemma strip_pending_id:
  assumes "ledger_inv A []"
  shows "strip_pending A = A"
proof
  fix x
  show "strip_pending A x = A x"
    using ledger_invD(2) [OF assms, of x] no_pending_id by (cases "A x") auto
qed

text \<open>What a mined block did to the accounts: the commit loop, then the payment of the miner.\<close>

lemma effect_applied:
  assumes rdy: "mining_ready s" and eff: "mining_effect s miner amounts B C rc ri"
  shows "apply_mined_txs E (pending_sorted s) (bc_accounts s) = (Inr (), B)"
proof -
  from eff have st: "settles (bc_accounts s) (pending_sorted s) B" and led: "ledger_inv B []"
    by (auto simp: mining_effect_def)
  have inv: "ledger_inv (bc_accounts s) (pending_sorted s)"
    using rdy ledger_inv_perm [OF mset_pending_sorted] by (auto simp: mining_ready_def mempool_inv_def)
  have nz: "\<forall>tx\<in>set (pending_sorted s). tx_from tx \<noteq> COINBASE_ADDR"
    using rdy by (simp add: mining_ready_def set_pending_sorted)
  have sup: "supply_c (bc_accounts s) < 2 ^ 64" "supply_i (bc_accounts s) < 2 ^ 64"
    using rdy by (auto simp: mining_ready_def)
  obtain B' where B': "apply_mined_txs E (pending_sorted s) (bc_accounts s) = (Inr (), B')"
    "ledger_inv B' []" "settles (bc_accounts s) (pending_sorted s) B'"
    using apply_mined_txs_ok [OF inv nz sup] by blast
  with settles_unique [OF B'(3) st B'(2) led] show ?thesis by simp
qed

lemma mined_ledger:
  assumes rdy: "mining_ready s" and ok: "mine_block E miner s = (Inr b, t)"
  obtains cb_c cb_i B where "blk_transactions b = coinbase_tx miner cb_c cb_i # pending_sorted s"
    and "apply_mined_txs E (pending_sorted s) (bc_accounts s) = (Inr (), B)"
    and "room B miner cb_c cb_i"
    and "bc_accounts t = B(miner \<mapsto> credited cb_c cb_i (or_insert B miner))"
proof (rule mine_block_success [OF rdy ok])
  fix n fc fi cb_c cb_i B rc ri bytes
  let ?C = "B(miner \<mapsto> credited cb_c cb_i (or_insert B miner))"
  let ?b0 = "block_template E (prev_hash_of (bc_chain s)) miner s (fc, fi, cb_c, cb_i)"
  assume eff: "mining_effect s miner (fc, fi, cb_c, cb_i) B ?C rc ri"
    and b: "b = ?b0\<lparr>blk_nonce := n, blk_hash := block_hash_at E ?b0 n\<rparr>"
    and t: "t = (mined_state s b ?C rc ri)\<lparr>bc_db := db_after (bc_db s) bytes\<rparr>"
  have "room B miner cb_c cb_i" using eff by (simp add: mining_effect_def)
  with effect_applied [OF rdy eff, of E] show thesis by (intro that) (simp_all add: b t template_amounts)
qed

lemma import_mined_block:
  assumes rdy: "mining_ready s" and ok: "mine_block E miner s = (Inr b, t)"
    and sgn: "\<forall>tx\<in>set (pool_txs s). verify_signed_tx E tx"
    and acc: "bc_accounts u = strip_pending (bc_accounts s)"
    and rew: "bc_block_reward_consumer u = bc_block_reward_consumer s"
      "bc_block_reward_industrial u = bc_block_reward_industrial s"
    and ec: "unat (bc_emission_consumer u) + unat (tok (blk_coinbase_consumer b)) < 2 ^ 64"
    and ei: "unat (bc_emission_industrial u) + unat (tok (blk_coinbase_industrial b)) < 2 ^ 64"
    and h: "unat (bc_block_height u) + 1 < 2 ^ 64"
  shows "import_block E b u = (Inr (),
    u\<lparr>bc_accounts := bc_accounts t, bc_block_reward_consumer := bc_block_reward_consumer t,
      bc_block_reward_industrial := bc_block_reward_industrial t,
      bc_emission_consumer := bc_emission_consumer u + tok (blk_coinbase_consumer b),
      bc_emission_industrial := bc_emission_industrial u + tok (blk_coinbase_industrial b),
      bc_chain := bc_chain u @ [b], bc_block_height := bc_block_height u + 1\<rparr>)"
proof (rule mine_block_success [OF rdy ok])
  fix n fc fi cb_c cb_i B rc ri bytes
  let ?C = "B(miner \<mapsto> credited cb_c cb_i (or_insert B miner))"
  let ?b0 = "block_template E (prev_hash_of (bc_chain s)) miner s (fc, fi, cb_c, cb_i)"
  let ?txs = "pending_sorted s"
  assume eff: "mining_effect s miner (fc, fi, cb_c, cb_i) B ?C rc ri"
    and b: "b = ?b0\<lparr>blk_nonce := n, blk_hash := block_hash_at E ?b0 n\<rparr>"
    and t: "t = (mined_state s b ?C rc ri)\<lparr>bc_db := db_after (bc_db s) bytes\<rparr>"
  from eff have led: "ledger_inv B []" and room: "room B miner cb_c cb_i"
    and am: "unat fc = fees_c ?txs" "unat fi = fees_i ?txs"
      "unat cb_c = next_reward_c s + fees_c ?txs" "unat cb_i = next_reward_i s + fees_i ?txs"
    by (simp_all add: mining_effect_def)
  have inv: "ledger_inv (bc_accounts s) ?txs"
    using rdy ledger_inv_perm [OF mset_pending_sorted] by (auto simp: mining_ready_def mempool_inv_def)
  have nz: "\<forall>tx\<in>set ?txs. tx_from tx \<noteq> COINBASE_ADDR"
    using rdy by (simp add: mining_ready_def set_pending_sorted)
  have "\<forall>tx\<in>set ?txs. tx_from tx \<noteq> COINBASE_ADDR \<and> verify_signed_tx E tx \<and> tx_from tx \<in> dom (bc_accounts s)"
    using nz sgn ledger_invD(4) [OF inv] by (simp add: set_pending_sorted domIff del: set_map)
  from replay_txs_mined [OF effect_applied [OF rdy eff] this, of 0 0]
  have rep: "replay_txs E ?txs 0 0 (bc_accounts u) = (Inr (fees_c ?txs, fees_i ?txs), B)"
    using acc strip_pending_id [OF led] by simp
  have lt: "fees_c ?txs < 2 ^ 64" "fees_i ?txs < 2 ^ 64"
    using am(1,2) unat_bound [of fc] unat_bound [of fi] by simp_all
  have fc: "of_nat (fees_c ?txs) = fc" "of_nat (fees_i ?txs) = fi"
    using am(1,2) by (metis of_nat_unat_u64)+
  have fees: "import_fees E b (fees_c ?txs, fees_i ?txs) = Inr ()"
    using lt fc am(3,4) unfolding b by (simp add: import_fees_def u64_try_from_def template_amounts)
  have rec: "coinbase_recorded b = Inr ()"
    unfolding b by (simp add: coinbase_recorded_def template_amounts coinbase_tx_def)
  have txs: "drop 1 (blk_transactions b) = ?txs"
    and miner: "(case blk_transactions b of [] \<Rightarrow> '''' | cb # _ \<Rightarrow> tx_to cb) = miner"
    and cb: "tok (blk_coinbase_consumer b) = cb_c" "tok (blk_coinbase_industrial b) = cb_i"
    unfolding b by (simp_all add: template_amounts coinbase_tx_def)
  have "u_add (build E) (bc_emission_consumer u) cb_c = Inr (bc_emission_consumer u + cb_c)"
    "u_add (build E) (bc_emission_industrial u) cb_i = Inr (bc_emission_industrial u + cb_i)"
    "u_add (build E) (bc_block_height u) 1 = Inr (bc_block_height u + 1)"
    using ec ei h cb by (simp_all add: u_add_exact)
  then show ?thesis
    unfolding import_block_def Let_def txs miner cb
    using rep fees rec credit_miner_eq [OF room] rew
    by (simp add: on_accounts_def t)
qed

text \<open>
  The block that \<open>genesis_block\<close> pushes has no coinbase: a chain that starts with it passes
  neither validation.
\<close>

lemma genesis_chain_rejected:
  "is_valid_chain_rust E (genesis_header d # bs) n = Inr False"
  "validate_block E s (genesis_header (bc_difficulty s)) = Inr False"
  by (auto simp: is_valid_chain_rust_def valid_chain_block_def genesis_header_def validate_block_def
      expected_prev_def)

section \<open>Properties\<close>

text \<open>
  C13: For blocks of at most \<open>2^64\<close> transactions, \<open>is_valid_chain_rust\<close> decides exactly the
  declarative predicate \<open>chain_ok\<close> in a release build, and in an overflow-checked build when no
  transaction after a coinbase has the nonce \<open>2^64 - 1\<close>: every block points to the hash before
  it (the first to zeros), has the asked difficulty, its own hash and enough work, a coinbase
  of the declared amounts, signed transactions with distinct ids and per sender successive
  nonces (modulo \<open>2^64\<close>), and covered fees. With that nonce an overflow-checked build never
  accepts: it refuses a chain that is not \<open>chain_ok\<close>, or it panics.
\<close>

theorem is_valid_chain_spec:
  assumes "hex_roundtrip E" and "\<forall>b\<in>set chain. length (blk_transactions b) \<le> 2 ^ 64"
  shows "if build E = Release \<or> (\<forall>b\<in>set chain. nonces_below_max b)
    then is_valid_chain_rust E chain d = Inr (chain_ok E d zero_prev_hash chain)
    else (\<exists>msg. is_valid_chain_rust E chain d = Inl (Panic msg)) \<or>
      is_valid_chain_rust E chain d = Inr False \<and> \<not> chain_ok E d zero_prev_hash chain"
proof (cases "build E = Release \<or> (\<forall>b\<in>set chain. nonces_below_max b)")
  case True
  then show ?thesis
    using valid_chain_from_eq [OF assms(1)] valid_chain_from_Release [OF assms(1) _ assms(2)]
    by (auto simp: is_valid_chain_rust_def)
next
  case False
  then have "build E = Debug" by (cases "build E") auto
  with False show ?thesis
    using valid_chain_from_panics [OF assms(1), of chain d zero_prev_hash]
    by (auto simp: is_valid_chain_rust_def)
qed

lemma import_gate:
  assumes "hex_roundtrip E" and "\<forall>b\<in>set new_chain. nonces_below_max b"
  shows "import_chain E new_chain s =
    (if length new_chain \<le> length (bc_chain s)
     then (Inl (ValueError ''Incoming chain not longer''), s)
     else if \<not> chain_ok E (ucast (bc_difficulty s)) zero_prev_hash new_chain
     then (Inl (ValueError ''Invalid incoming chain''), s)
     else import_blocks E new_chain (reset_chain s))"
  using valid_chain_from_eq [OF assms] by (simp add: import_chain_def is_valid_chain_rust_def)

text \<open>
  \<open>import_chain\<close> refuses a chain that is not longer than its own, or not valid at its
  difficulty, and then changes nothing; otherwise it replays the chain from an empty ledger.
\<close>

lemma import_chain_gate:
  assumes "hex_roundtrip E" and "\<forall>b\<in>set new_chain. nonces_below_max b"
  shows "if length (bc_chain s) < length new_chain \<and>
            chain_ok E (ucast (bc_difficulty s)) zero_prev_hash new_chain
    then import_chain E new_chain s = import_blocks E new_chain (reset_chain s)
    else \<exists>msg. import_chain E new_chain s = (Inl (ValueError msg), s)"
  using import_gate [OF assms, of s] by auto

lemma sample_block_not_ok: "\<not> chain_block_ok (sample_env p) d prev sample_block"
  by (simp add: chain_block_ok_def coinbase_matches_def) (simp add: sample_payload_def)

text \<open>
  C38: An import can fail after it has thrown the old state away. When the second transaction
  of a valid one-block chain comes from an address without an account, its fees are counted
  by the chain test but not by the replay: \<open>import_chain\<close> returns a checksum error, and the
  chain and all accounts of the node are gone.
\<close>

theorem import_failure_loses_state:
  assumes "bc_chain s = []" and "is_valid_chain_rust E [b] (ucast (bc_difficulty s)) = Inr True"
    and "blk_transactions b = [cb, tx]" and "tx_from tx \<noteq> COINBASE_ADDR"
    and "check_signature E tx = Inr ()" and "fee_checksum E 0 0 \<noteq> blk_fee_checksum b"
  shows "\<exists>t. import_chain E [b] s = (Inl (ValueError ''Fee checksum mismatch''), t) \<and>
    bc_chain t = [] \<and> dom (bc_accounts t) = {tx_to tx} \<and> bc_mempool t = bc_mempool s"
proof -
  let ?c = "pl_amount_consumer (tx_payload tx)" and ?i = "pl_amount_industrial (tx_payload tx)"
  have room: "room Map.empty (tx_to tx) ?c ?i"
    using unat_bound [of ?c] unat_bound [of ?i] by (simp add: room_def bal_c_def bal_i_def)
  have "replay_txs E [tx] 0 0 Map.empty =
      (Inr (0, 0), [tx_to tx \<mapsto> credited ?c ?i (or_insert Map.empty (tx_to tx))])"
    using assms(4,5) credit_eq [OF room, of E] by (simp add: replay_sender_def)
  with assms show ?thesis
    by (simp add: import_chain_def import_block_def on_accounts_def reset_chain_def import_fees_def
        u64_try_from_def)
qed

text \<open>
  A valid block that a fresh node cannot replay: the sender of its transaction, Alice with
  the given nonce, never received anything.
\<close>

definition orphan_block :: "u64 \<Rightarrow> block" where
  "orphan_block n =
     (let b = sample_block\<lparr>blk_transactions := [coinbase_tx ''carol'' 2 1, nonce_tx n],
                           blk_coinbase_consumer := TokenAmount 2, blk_coinbase_industrial := TokenAmount 1,
                           blk_fee_checksum := fee_checksum (sample_env Debug) 2 1\<rparr>
      in b\<lparr>blk_hash := block_hash_at (sample_env Debug) b 0\<rparr>)"

lemma orphan_simps [simp]:
  "blk_transactions (orphan_block n) = [coinbase_tx ''carol'' 2 1, nonce_tx n]"
  "blk_coinbase_consumer (orphan_block n) = TokenAmount 2" "blk_coinbase_industrial (orphan_block n) = TokenAmount 1"
  "blk_fee_checksum (orphan_block n) = fee_checksum (sample_env Debug) 2 1"
  "blk_previous_hash (orphan_block n) = zero_prev_hash" "blk_difficulty (orphan_block n) = 0"
  by (simp_all add: orphan_block_def Let_def)

lemma orphan_hash: "mined_hash_ok (sample_env Debug) (orphan_block n) 0"
proof -
  have h: "blk_hash (orphan_block n) = block_hash_at (sample_env Debug) (orphan_block n) (blk_nonce (orphan_block n))"
    by (simp add: orphan_block_def Let_def block_hash_at_def) (simp add: sample_block_def)
  then show ?thesis
    using block_hash_decodes [OF sample_laws(2), of Debug "orphan_block n" "blk_nonce (orphan_block n)"]
    by (auto simp: mined_hash_ok_def)
qed

lemma orphan_chain_ok: "chain_block_ok (sample_env Debug) 0 zero_prev_hash (orphan_block n)"
  unfolding chain_block_ok_def using orphan_hash nonce_tx_simps(3) [of Debug n]
  by (simp add: coinbase_matches_def tx_signed_def nonce_runs_def fees_covered_def fees_decompose_def)
    (simp add: coinbase_tx_def decompose_eq sample_payload_def fees_c_def fees_i_def)

lemma orphan_below_max: "nonces_below_max (orphan_block n) \<longleftrightarrow> n \<noteq> - 1"
  by (simp add: nonces_below_max_def below_max_def) (simp add: sample_payload_def)

theorem is_valid_chain_spec_witness:
  "is_valid_chain_rust (sample_env Debug) [orphan_block 1] 0 = Inr True \<and>
   (\<exists>msg. is_valid_chain_rust (sample_env Debug) [orphan_block (- 1)] 0 = Inl (Panic msg))"
  using is_valid_chain_spec [OF sample_laws(2), of "[orphan_block 1]" Debug 0]
    is_valid_chain_spec [OF sample_laws(2), of "[orphan_block (- 1)]" Debug 0] orphan_chain_ok
  by (auto simp: orphan_below_max)

theorem import_failure_loses_state_witness:
  "\<exists>t. import_chain (sample_env Debug) [orphan_block 1] sample_chain =
     (Inl (ValueError ''Fee checksum mismatch''), t) \<and> bc_accounts t ''alice'' = None"
proof -
  have "nonces_below_max (orphan_block 1)" by (simp add: orphan_below_max)
  then have valid: "is_valid_chain_rust (sample_env Debug) [orphan_block 1] (ucast (bc_difficulty sample_chain)) = Inr True"
    using valid_chain_from_eq [OF sample_laws(2), of "[orphan_block 1]" Debug 0 zero_prev_hash] orphan_chain_ok
    by (simp add: is_valid_chain_rust_def)
  have sig: "check_signature (sample_env Debug) (nonce_tx 1) = Inr ()"
    by (simp add: check_signature_iff)
  have ne: "fee_checksum (sample_env Debug) 0 0 \<noteq> blk_fee_checksum (orphan_block 1)"
  proof -
    have "sample_digest (u64_le 0 @ u64_le 0) \<noteq> sample_digest (u64_le 2 @ u64_le 1)"
      by code_simp
    then show ?thesis
      using to_hex_inject [OF sample_laws(2), of Debug]
      by (simp add: fee_checksum_def finalize_hex_def hasher_new_def update_def)
  qed
  have frm: "tx_from (nonce_tx 1) \<noteq> COINBASE_ADDR" and to: "tx_to (nonce_tx 1) = ''bob''"
    by (simp_all add: sample_payload_def)
  from import_failure_loses_state [of sample_chain "sample_env Debug" "orphan_block 1", OF _ valid _ frm sig ne]
  obtain t where t: "import_chain (sample_env Debug) [orphan_block 1] sample_chain =
      (Inl (ValueError ''Fee checksum mismatch''), t)" and dom: "dom (bc_accounts t) = {''bob''}"
    unfolding to by auto
  from dom have "''alice'' \<notin> dom (bc_accounts t)" by simp
  with t show ?thesis by (auto simp: domIff)
qed

text \<open>A block with a coinbase of any amount and nothing else.\<close>

definition forged_block :: "env \<Rightarrow> u64 \<Rightarrow> string \<Rightarrow> u64 \<Rightarrow> u64 \<Rightarrow> block" where
  "forged_block E difficulty miner c i =
     \<lparr>blk_index = 0, blk_previous_hash = zero_prev_hash, blk_transactions = [coinbase_tx miner c i],
      blk_difficulty = difficulty, blk_nonce = 0, blk_hash = '''',
      blk_coinbase_consumer = TokenAmount c, blk_coinbase_industrial = TokenAmount i,
      blk_fee_checksum = fee_checksum E 0 0\<rparr>"

lemma forged_simps [simp]:
  "blk_difficulty (forged_block E d miner c i) = d"
  "blk_transactions (forged_block E d miner c i) = [coinbase_tx miner c i]"
  "blk_previous_hash (forged_block E d miner c i) = zero_prev_hash"
  "blk_coinbase_consumer (forged_block E d miner c i) = TokenAmount c"
  "blk_coinbase_industrial (forged_block E d miner c i) = TokenAmount i"
  "blk_fee_checksum (forged_block E d miner c i) = fee_checksum E 0 0"
  by (simp_all add: forged_block_def)

lemma import_forged:
  assumes hex: "hex_roundtrip E" and s: "bc_chain s = []" and d: "unat (bc_difficulty s) < 2 ^ 32"
    and pow: "\<forall>b. blk_difficulty b = bc_difficulty s \<longrightarrow> (\<exists>n. meets_target E b n)"
  shows "\<exists>b. import_chain E [b] s = (Inr (),
      (reset_chain s)\<lparr>bc_accounts := [miner \<mapsto> credited c i (or_insert Map.empty miner)],
        bc_block_reward_consumer := decay (TokenAmount INITIAL_BLOCK_REWARD_CONSUMER),
        bc_block_reward_industrial := decay (TokenAmount INITIAL_BLOCK_REWARD_INDUSTRIAL),
        bc_emission_consumer := c, bc_emission_industrial := i,
        bc_chain := [b], bc_block_height := 1\<rparr>)"
proof -
  let ?b0 = "forged_block E (bc_difficulty s) miner c i"
  obtain n where n: "meets_target E ?b0 n" using pow by (meson forged_simps(1))
  let ?b = "?b0\<lparr>blk_nonce := n, blk_hash := block_hash_at E ?b0 n\<rparr>"
  have dd: "ucast (ucast (bc_difficulty s) :: u32) = bc_difficulty s"
    using d by (simp add: word_unat_eq_iff unsigned_ucast_eq unsigned_take_bit_eq take_bit_nat_eq_self)
  have "blk_hash ?b = block_hash_at E ?b (blk_nonce ?b)" by (simp add: block_hash_at_def)
  moreover have "meets_target E ?b n" using n by simp
  ultimately have hash: "mined_hash_ok E ?b (unat (ucast (bc_difficulty s) :: u32))"
    unfolding mined_hash_ok_def meets_target_def target_bits_def by (auto split: option.splits)
  have "chain_block_ok E (ucast (bc_difficulty s)) zero_prev_hash ?b"
    unfolding chain_block_ok_def using hash dd
    by (simp add: coinbase_matches_def nonce_runs_def fees_covered_def fees_decompose_def)
      (simp add: coinbase_tx_def)
  moreover have "\<forall>b\<in>set [?b]. nonces_below_max b" by (simp add: nonces_below_max_def)
  ultimately have gate: "import_chain E [?b] s = import_blocks E [?b] (reset_chain s)"
    using import_gate [OF hex, of "[?b]" s] s by simp
  have room: "room Map.empty miner c i"
    using unat_bound [of c] unat_bound [of i] by (simp add: room_def bal_c_def bal_i_def)
  have add: "u_add (build E) 0 c = Inr c" "u_add (build E) 0 i = Inr i" "u_add (build E) (0 :: u64) 1 = Inr 1"
    using unat_bound [of c] unat_bound [of i] by (simp_all add: u_add_def)
  have fees: "import_fees E ?b (0, 0) = Inr ()" and rec: "coinbase_recorded ?b = Inr ()"
    by (simp_all add: import_fees_def u64_try_from_def coinbase_recorded_def coinbase_tx_def)
  have "import_block E ?b (reset_chain s) = (Inr (),
      (reset_chain s)\<lparr>bc_accounts := [miner \<mapsto> credited c i (or_insert Map.empty miner)],
        bc_block_reward_consumer := decay (TokenAmount INITIAL_BLOCK_REWARD_CONSUMER),
        bc_block_reward_industrial := decay (TokenAmount INITIAL_BLOCK_REWARD_INDUSTRIAL),
        bc_emission_consumer := c, bc_emission_industrial := i,
        bc_chain := [?b], bc_block_height := 1\<rparr>)"
    using fees rec credit_miner_eq [OF room] add
    by (simp add: import_block_def on_accounts_def reset_chain_def Let_def)
      (simp add: coinbase_tx_def)
  then show ?thesis using gate by (auto intro!: exI [of _ ?b])
qed

text \<open>
  Neither the chain test nor the import bounds the reward: a fresh node adopts a chain
  of one block whose coinbase pays the miner any amounts up to \<open>2^64 - 1\<close>, whatever the block
  reward and the maximum supply, as long as the proof of work can be found.
\<close>

lemma import_accepts_any_coinbase:
  assumes "hex_roundtrip E" and "bc_chain s = []" and "unat (bc_difficulty s) < 2 ^ 32"
    and "\<forall>b. blk_difficulty b = bc_difficulty s \<longrightarrow> (\<exists>n. meets_target E b n)"
  shows "\<exists>b t. import_chain E [b] s = (Inr (), t) \<and>
    get_account_balance t miner = Inr \<lparr>tb_consumer = c, tb_industrial = i\<rparr> \<and>
    circulating_supply t = (c, i)"
proof -
  have "acc_balance (credited c i (or_insert Map.empty miner)) = \<lparr>tb_consumer = c, tb_industrial = i\<rparr>"
    by (simp add: credited_def or_insert_def zero_account_def set_consumer_def set_industrial_def)
  moreover obtain b where "import_chain E [b] s = (Inr (),
      (reset_chain s)\<lparr>bc_accounts := [miner \<mapsto> credited c i (or_insert Map.empty miner)],
        bc_block_reward_consumer := decay (TokenAmount INITIAL_BLOCK_REWARD_CONSUMER),
        bc_block_reward_industrial := decay (TokenAmount INITIAL_BLOCK_REWARD_INDUSTRIAL),
        bc_emission_consumer := c, bc_emission_industrial := i,
        bc_chain := [b], bc_block_height := 1\<rparr>)"
    using import_forged [OF assms] by blast
  ultimately show ?thesis
    by (intro exI [of _ b] exI, intro conjI) (assumption | simp add: get_account_balance_def circulating_supply_def)+
qed

end
