(* ===== verification/Node.thy ===== *)
theory Node
  imports ChainImport
begin

text \<open>
  Runs of a node: the successful calls of the Python API of \<open>Blockchain\<close> (\<open>src/lib.rs\<close>) as a
  step relation, the contract \<open>run_invariant\<close> under which a property holds after every run,
  and its instances: conservation of the supply, validity of the mined chain, and
  reproduction of the ledger by a node that imports the chain.
\<close>

section \<open>Runs\<close>

datatype event =
    Added string u64 u64
  | Submitted signed_transaction
  | Dropped string u64
  | Mined string block

text \<open>One successful call, with the state before and after.\<close>

inductive node_step :: "env \<Rightarrow> blockchain \<Rightarrow> event \<Rightarrow> blockchain \<Rightarrow> bool" for E where
  added: "add_account addr c i s = (Inr (), t) \<Longrightarrow> node_step E s (Added addr c i) t"
| submitted: "submit_transaction E tx s = (Inr (), t) \<Longrightarrow> node_step E s (Submitted tx) t"
| dropped: "drop_transaction E sender nonce s = (Inr (), t) \<Longrightarrow> node_step E s (Dropped sender nonce) t"
| mined: "mine_block E miner s = (Inr b, t) \<Longrightarrow> node_step E s (Mined miner b) t"

inductive_simps node_step_simps:
  "node_step E s (Added addr c i) t" "node_step E s (Submitted tx) t"
  "node_step E s (Dropped sender nonce) t" "node_step E s (Mined miner b) t"

inductive run :: "('s \<Rightarrow> 'e \<Rightarrow> 's \<Rightarrow> bool) \<Rightarrow> 's \<Rightarrow> 'e list \<Rightarrow> 's \<Rightarrow> bool" for step s0 where
  start: "run step s0 [] s0"
| snoc: "run step s0 es s \<Longrightarrow> step s e t \<Longrightarrow> run step s0 (es @ [e]) t"

text \<open>
  An invariant of the runs whose history is \<open>legal\<close>: it holds at the start and every step
  that keeps the history legal keeps it.
\<close>

locale run_invariant =
  fixes step :: "'s \<Rightarrow> 'e \<Rightarrow> 's \<Rightarrow> bool" and s0 :: 's
    and legal :: "'e list \<Rightarrow> bool" and inv :: "'e list \<Rightarrow> 's \<Rightarrow> bool"
  assumes legal_prefix: "legal (es @ [e]) \<Longrightarrow> legal es"
    and inv_start: "legal [] \<Longrightarrow> inv [] s0"
    and inv_step: "inv es s \<Longrightarrow> step s e t \<Longrightarrow> legal (es @ [e]) \<Longrightarrow> inv (es @ [e]) t"
begin

lemma inv_run: "run step s0 es s \<Longrightarrow> legal es \<Longrightarrow> inv es s"
proof (induction rule: run.induct)
  case start
  then show ?case by (rule inv_start)
next
  case (snoc es s e t)
  from snoc.IH [OF legal_prefix [OF snoc.prems]] snoc.hyps(2) snoc.prems show ?case by (rule inv_step)
qed

end

section \<open>Conservation\<close>

primrec added_c :: "event \<Rightarrow> nat" where
  "added_c (Added addr c i) = unat c"
| "added_c (Submitted tx) = 0"
| "added_c (Dropped sender nonce) = 0"
| "added_c (Mined miner b) = 0"

primrec added_i :: "event \<Rightarrow> nat" where
  "added_i (Added addr c i) = unat i"
| "added_i (Submitted tx) = 0"
| "added_i (Dropped sender nonce) = 0"
| "added_i (Mined miner b) = 0"

definition alloc_c :: "event list \<Rightarrow> nat" where "alloc_c es = sum_list (map added_c es)"
definition alloc_i :: "event list \<Rightarrow> nat" where "alloc_i es = sum_list (map added_i es)"

text \<open>
  In a release build the sums of amounts and fees of a submitted transaction must fit in 64
  bits; an overflow-checked build refuses the others itself.
\<close>

definition sums_fit :: "env \<Rightarrow> signed_transaction \<Rightarrow> bool" where
  "sums_fit E tx \<longleftrightarrow> build E = Debug \<or> tx_total_c tx < 2 ^ 64 \<and> tx_total_i tx < 2 ^ 64"

lemma sums_fit_Debug [simp]: "build E = Debug \<Longrightarrow> sums_fit E tx"
  by (simp add: sums_fit_def)

text \<open>
  The histories considered: no transaction sent from the coinbase address and none whose
  sums wrap, allocations that leave room for the maximum supply in 64 bits, and fewer than
  \<open>2^63\<close> calls.
\<close>

definition orderly :: "env \<Rightarrow> event list \<Rightarrow> bool" where
  "orderly E es \<longleftrightarrow>
     (\<forall>tx. Submitted tx \<in> set es \<longrightarrow> tx_from tx \<noteq> COINBASE_ADDR \<and> sums_fit E tx) \<and>
     alloc_c es \<le> 18000000000000000000 \<and> alloc_i es \<le> 18000000000000000000 \<and>
     length es < 2 ^ 63"

text \<open>No nonce, mined or pending, is above the number of calls.\<close>

definition nonces_within :: "nat \<Rightarrow> blockchain \<Rightarrow> bool" where
  "nonces_within k s \<longleftrightarrow>
     (\<forall>x a. bc_accounts s x = Some a \<longrightarrow> unat (acc_nonce a) + unat (acc_pending_nonce a) \<le> k) \<and>
     (\<forall>tx\<in>set (pool_txs s). unat (tx_nonce tx) \<le> k)"

definition books_balance :: "event list \<Rightarrow> blockchain \<Rightarrow> bool" where
  "books_balance es s \<longleftrightarrow>
     mempool_inv s \<and> (\<forall>tx\<in>set (pool_txs s). tx_from tx \<noteq> COINBASE_ADDR) \<and>
     supply_c (bc_accounts s) = alloc_c es + unat (bc_emission_consumer s) \<and>
     supply_i (bc_accounts s) = alloc_i es + unat (bc_emission_industrial s) \<and>
     unat (bc_emission_consumer s) \<le> 20000000000000 \<and>
     unat (bc_emission_industrial s) \<le> 20000000000000 \<and>
     unat (tok (bc_block_reward_consumer s)) \<le> 60000 \<and>
     unat (tok (bc_block_reward_industrial s)) \<le> 60000 \<and>
     unat (bc_block_height s) \<le> length es \<and> nonces_within (length es) s"

lemma alloc_snoc [simp]:
  "alloc_c [] = 0" "alloc_i [] = 0"
  "alloc_c (es @ [e]) = alloc_c es + added_c e" "alloc_i (es @ [e]) = alloc_i es + added_i e"
  by (simp_all add: alloc_c_def alloc_i_def)

lemma orderly_prefix: "orderly E (es @ [e]) \<Longrightarrow> orderly E es"
  by (auto simp: orderly_def)

lemma books_ready: "books_balance es s \<Longrightarrow> orderly E es \<Longrightarrow> mining_ready s"
  unfolding books_balance_def orderly_def mining_ready_def by auto

lemma books_start: "books_balance [] (empty_chain d)"
  by (simp add: books_balance_def nonces_within_def empty_chain_def mempool_inv_def ledger_inv_def supply_c_def supply_i_def
      INITIAL_BLOCK_REWARD_CONSUMER_def INITIAL_BLOCK_REWARD_INDUSTRIAL_def)

lemma fit_exact:
  assumes "nonces_within k s" and "k < 2 ^ 63" and "sums_fit E tx" and "bc_accounts s x = Some a"
  shows "exact_sums E a tx"
proof -
  have "unat (acc_nonce a) + unat (acc_pending_nonce a) \<le> k"
    using assms(1,4) by (auto simp: nonces_within_def)
  with assms(2,3) show ?thesis by (auto simp: exact_sums_def no_wrap_def sums_fit_def)
qed

lemma nonces_within_mono: "nonces_within k s \<Longrightarrow> k \<le> l \<Longrightarrow> nonces_within l s"
  unfolding nonces_within_def by (meson le_trans)

lemma nonces_within_admit:
  assumes nw: "nonces_within k s" and ex: "exact_sums E a tx" and a: "bc_accounts s (tx_from tx) = Some a"
    and ins: "insufficient E a tx (fee_c tx) (fee_i tx) = Inr False"
    and nn: "next_nonce E a = Inr (tx_nonce tx)"
  shows "nonces_within (Suc k) (admit tx s)"
proof -
  let ?r = "reserved tx (fee_c tx) (fee_i tx) a"
  have le: "unat (acc_nonce a) + unat (acc_pending_nonce a) \<le> k" using nw a by (auto simp: nonces_within_def)
  have n: "unat (tx_nonce tx) = unat (acc_nonce a) + unat (acc_pending_nonce a) + 1"
    by (rule accepted_exact(5) [OF ex ins nn])
  have "unat (acc_pending_nonce ?r) \<le> unat (acc_pending_nonce a) + 1"
    by (simp add: reserved_def unat_word_ariths)
  moreover have "acc_nonce ?r = acc_nonce a" by (simp add: reserved_def)
  ultimately have "unat (acc_nonce ?r) + unat (acc_pending_nonce ?r) \<le> Suc k" using le by simp
  then show ?thesis
    using nonces_within_mono [OF nw, of "Suc k"] a n le by (auto simp: nonces_within_def admit_def)
qed

lemma nonces_within_evict:
  assumes "nonces_within k s" and "bc_accounts s (tx_from tx) = Some a"
  shows "nonces_within k (evict tx s)"
proof -
  have "unat (acc_nonce (released tx a)) + unat (acc_pending_nonce (released tx a)) \<le>
      unat (acc_nonce a) + unat (acc_pending_nonce a)"
    by (simp add: released_def)
  also have "\<dots> \<le> k" using assms by (auto simp: nonces_within_def)
  finally show ?thesis
    using assms by (auto simp: nonces_within_def evict_def AList.delete_eq)
qed

lemma nonce_after_among: "nonce_after n x txs = n \<or> (\<exists>tx\<in>set txs. nonce_after n x txs = tx_nonce tx)"
proof (induction txs arbitrary: n)
  case (Cons tx txs)
  then show ?case by (cases "tx_from tx = x") (force, simp, metis)
qed simp

lemma nonces_within_mined:
  assumes rdy: "mining_ready s" and ok: "mine_block E miner s = (Inr b, t)" and nw: "nonces_within k s"
  shows "nonces_within k t"
proof -
  note set = mined_settlement [OF rdy ok] and inv = mined_invariant [OF rdy ok]
  have txs: "set (drop 1 (blk_transactions b)) = set (pool_txs s)" using set by (metis set_mset_mset)
  have "unat (nonce_of (bc_accounts s) x) \<le> k" for x
    using nw by (auto simp: nonces_within_def nonce_of_def split: option.split dest: add_leD1)
  then have "unat (nonce_of (bc_accounts t) x) \<le> k" for x
    using nonce_after_among [of "nonce_of (bc_accounts s) x" x "drop 1 (blk_transactions b)"] set nw
    unfolding nonces_within_def txs by metis
  then have "unat (acc_nonce a) \<le> k" if "bc_accounts t x = Some a" for x a
    using that by (metis nonce_of_def option.simps(5))
  with inv show ?thesis by (simp add: nonces_within_def)
qed

lemma mined_below_max:
  assumes rdy: "mining_ready s" and ok: "mine_block E miner s = (Inr b, t)"
    and nw: "nonces_within k s" and k: "k < 2 ^ 63"
  shows "nonces_below_max b"
proof -
  have "mset (drop 1 (blk_transactions b)) = mset (pool_txs s)" using mined_settlement [OF rdy ok] by blast
  then have txs: "set (drop 1 (blk_transactions b)) = set (pool_txs s)" by (metis set_mset_mset)
  have "unat (- 1 :: u64) = 2 ^ 64 - 1" by (simp add: unsigned_minus_1_eq_mask mask_eq_exp_minus_1)
  then have "n \<noteq> - 1" if "unat n \<le> k" for n :: u64 using that k by auto
  then show ?thesis using nw unfolding nonces_below_max_def below_max_def nonces_within_def txs by blast
qed

lemma finite_accounts: "mempool_inv s \<Longrightarrow> finite (dom (bc_accounts s))"
  by (simp add: mempool_inv_def ledger_inv_def)

lemma supply_same_balance:
  assumes "finite (dom A)" and "A x = Some a" and "acc_c b = acc_c a" and "acc_i b = acc_i a"
  shows "supply_c (A(x \<mapsto> b)) = supply_c A" and "supply_i (A(x \<mapsto> b)) = supply_i A"
  using supply_point [OF assms(1), of x b] assms(2-4) by (simp_all add: bal_c_def bal_i_def)

lemma books_added:
  assumes books: "books_balance es s" and ok: "add_account addr c i s = (Inr (), t)"
  shows "books_balance (es @ [Added addr c i]) t"
proof -
  from books have inv: "mempool_inv s" by (simp add: books_balance_def)
  have t: "mempool_inv t" using add_account_mempool_inv [OF inv, of addr c i] ok by simp
  have new: "bc_accounts s addr = None" using ok by (auto simp: add_account_def split: if_splits)
  let ?a = "credited c i (zero_account addr)"
  have "t = s\<lparr>bc_accounts := (bc_accounts s)(addr \<mapsto> ?a)\<rparr>"
    using ok add_account_fresh [OF new, of c i] by simp
  moreover have "acc_c ?a = unat c" "acc_i ?a = unat i" by (simp_all add: credited_def)
  moreover have "nonces_within (Suc (length es)) (s\<lparr>bc_accounts := (bc_accounts s)(addr \<mapsto> ?a)\<rparr>)"
    using books by (auto simp: books_balance_def nonces_within_def credited_def intro: le_SucI)
  ultimately show ?thesis
    using books t supply_point [OF finite_accounts [OF inv], of addr ?a] new
    by (simp add: books_balance_def bal_c_def bal_i_def)
qed

lemma books_submitted:
  assumes books: "books_balance es s" and ok: "submit_transaction E tx s = (Inr (), t)"
    and fit: "sums_fit E tx" and nz: "tx_from tx \<noteq> COINBASE_ADDR" and len: "length es < 2 ^ 63"
  shows "books_balance (es @ [Submitted tx]) t"
proof -
  from books have inv: "mempool_inv s" and nw: "nonces_within (length es) s" by (simp_all add: books_balance_def)
  note ex = fit_exact [OF nw len fit]
  have t: "mempool_inv t" using submit_mempool_inv [OF inv, of tx E] ex ok by simp
  show ?thesis
  proof (cases rule: submit_cases [of E tx s])
    case (accepted a)
    with ok have "t = admit tx s" by simp
    with accepted(3) t books nz supply_same_balance [OF finite_accounts [OF inv] accepted(3),
        of "reserved tx (fee_c tx) (fee_i tx) a"]
      nonces_within_admit [OF nw ex [OF accepted(3)] accepted(3,5,6)]
    show ?thesis by (simp add: books_balance_def admit_def)
  qed (use ok in simp)
qed

lemma books_dropped:
  assumes books: "books_balance es s" and ok: "drop_transaction E sender nonce s = (Inr (), t)"
  shows "books_balance (es @ [Dropped sender nonce]) t"
proof -
  from books have inv: "mempool_inv s" by (simp add: books_balance_def)
  have t: "mempool_inv t" using drop_mempool_inv [OF inv, of E sender nonce] ok by simp
  show ?thesis
  proof (rule drop_cases [OF inv, of sender nonce E], goal_cases absent dropped)
    case absent
    with ok show ?case by simp
  next
    case (dropped tx a)
    with ok have "t = evict tx s" by simp
    moreover have "\<forall>tx\<in>set (map snd (AList.delete (sender, nonce) (bc_mempool s))). tx_from tx \<noteq> COINBASE_ADDR"
      using books by (auto simp: books_balance_def AList.delete_eq)
    moreover have "acc_c (released tx a) = acc_c a" "acc_i (released tx a) = acc_i a"
      by (simp_all add: released_def acc_c_def acc_i_def)
    moreover have "nonces_within (Suc (length es)) (evict tx s)"
      using nonces_within_evict [OF nonces_within_mono, of "length es" s "Suc (length es)" tx a] books dropped
      by (auto simp: books_balance_def)
    ultimately show ?case
      using dropped t books supply_same_balance [OF finite_accounts [OF inv] dropped(3), of "released tx a"]
      by (simp add: books_balance_def evict_def)
  qed
qed

lemma books_mined:
  assumes books: "books_balance es s" and ord: "orderly E (es @ [Mined miner b])"
    and ok: "mine_block E miner s = (Inr b, t)"
  shows "books_balance (es @ [Mined miner b]) t"
proof -
  have rdy: "mining_ready s" by (rule books_ready [OF books orderly_prefix [OF ord]])
  note sup = mined_supply [OF rdy ok] and inv = mined_invariant [OF rdy ok]
  have dec: "unat (tok (decay r)) \<le> unat (tok r)" for r
    using decay_le [of r] by (simp add: less_eq_token_amount_def word_le_nat_alt)
  have h: "unat (bc_block_height t) = unat (bc_block_height s) + 1"
    by (rule mine_block_success [OF rdy ok]) (use rdy in \<open>simp add: mining_ready_def unat_add_exact\<close>)
  have "nonces_within (Suc (length es)) t"
    using nonces_within_mono [OF nonces_within_mined [OF rdy ok], of "length es"] books
    by (simp add: books_balance_def)
  with books sup inv h show ?thesis
    using dec [of "bc_block_reward_consumer s"] dec [of "bc_block_reward_industrial s"]
    by (simp add: books_balance_def)
qed

interpretation books: run_invariant "node_step E" "empty_chain d" "orderly E" books_balance for E d
proof unfold_locales
  fix es e s t
  show "orderly E es" if "orderly E (es @ [e])" using that by (rule orderly_prefix)
  show "books_balance [] (empty_chain d)" by (rule books_start)
  show "books_balance (es @ [e]) t"
    if "books_balance es s" and "node_step E s e t" and ord: "orderly E (es @ [e])"
    using that(2)
  proof cases
    case (added addr c i)
    with books_added that(1) show ?thesis by simp
  next
    case (submitted tx)
    from ord submitted(1) have "sums_fit E tx" "tx_from tx \<noteq> COINBASE_ADDR" "length es < 2 ^ 63"
      by (auto simp: orderly_def)
    with books_submitted that(1) submitted show ?thesis by simp
  next
    case (dropped sender nonce)
    with books_dropped that(1) show ?thesis by simp
  next
    case (mined miner b)
    with books_mined that(1) ord show ?thesis by simp
  qed
qed

section \<open>The mined chain\<close>

definition mined_blocks :: "event list \<Rightarrow> block list" where
  "mined_blocks es = concat (map (\<lambda>e. case e of Mined miner b \<Rightarrow> [b] | _ \<Rightarrow> []) es)"

lemma mined_blocks_snoc [simp]:
  "mined_blocks [] = []" "mined_blocks (es @ [Added addr c i]) = mined_blocks es"
  "mined_blocks (es @ [Submitted tx]) = mined_blocks es"
  "mined_blocks (es @ [Dropped sender nonce]) = mined_blocks es"
  "mined_blocks (es @ [Mined miner b]) = mined_blocks es @ [b]"
  by (simp_all add: mined_blocks_def)

lemma length_mined_blocks: "length (mined_blocks es) \<le> length es"
  by (induction es) (auto simp: mined_blocks_def split: event.split)

text \<open>The keys of the mempool, read off the history.\<close>

primrec pool_after :: "event \<Rightarrow> (string \<times> u64) set \<Rightarrow> (string \<times> u64) set" where
  "pool_after (Added addr c i) K = K"
| "pool_after (Submitted tx) K = insert (tx_key tx) K"
| "pool_after (Dropped sender nonce) K = K - {(sender, nonce)}"
| "pool_after (Mined miner b) K = {}"

definition pending_keys :: "event list \<Rightarrow> (string \<times> u64) set" where
  "pending_keys es = fold pool_after es {}"

lemma pending_keys_snoc [simp]:
  "pending_keys [] = {}" "pending_keys (es @ [e]) = pool_after e (pending_keys es)"
  by (simp_all add: pending_keys_def)

text \<open>An eviction takes the last pending transaction of its sender.\<close>

definition leaves_no_gap :: "event list \<Rightarrow> bool" where
  "leaves_no_gap es \<longleftrightarrow>
     (\<forall>es1 sender nonce es2 n. es = es1 @ Dropped sender nonce # es2 \<longrightarrow>
        (sender, n) \<in> pending_keys es1 \<longrightarrow> n \<le> nonce)"

lemma leaves_no_gap_prefix: "leaves_no_gap (es @ [e]) \<Longrightarrow> leaves_no_gap es"
  unfolding leaves_no_gap_def by (metis append.assoc append_Cons)

lemma leaves_no_gap_last:
  "leaves_no_gap (es @ [Dropped sender nonce]) \<Longrightarrow> (sender, n) \<in> pending_keys es \<Longrightarrow> n \<le> nonce"
  unfolding leaves_no_gap_def by blast

lemma leaves_no_gapI: "(\<And>sender nonce. Dropped sender nonce \<notin> set es) \<Longrightarrow> leaves_no_gap es"
  unfolding leaves_no_gap_def by (metis in_set_conv_decomp)

text \<open>
  Histories whose evictions leave no gap, and whose blocks have distinct transaction ids, at
  a difficulty of 32 bits.
\<close>

definition linear_history :: "env \<Rightarrow> u64 \<Rightarrow> event list \<Rightarrow> bool" where
  "linear_history E d es \<longleftrightarrow>
     orderly E es \<and> hex_roundtrip E \<and> unat d < 2 ^ 32 \<and>
     leaves_no_gap es \<and>
     (\<forall>b\<in>set (mined_blocks es). distinct (map (tx_id E) (blk_transactions b)))"

definition chain_grows :: "env \<Rightarrow> u64 \<Rightarrow> event list \<Rightarrow> blockchain \<Rightarrow> bool" where
  "chain_grows E d es s \<longleftrightarrow>
     books_balance es s \<and> contig s \<and> (\<forall>tx\<in>set (pool_txs s). verify_signed_tx E tx) \<and>
     dom (map_of (bc_mempool s)) = pending_keys es \<and>
     bc_difficulty s = d \<and> bc_chain s = mined_blocks es \<and>
     chain_ok E (ucast d) zero_prev_hash (mined_blocks es) \<and>
     (\<forall>b\<in>set (mined_blocks es). nonces_below_max b)"

lemma linear_prefix: "linear_history E d (es @ [e]) \<Longrightarrow> linear_history E d es"
  by (auto simp: linear_history_def mined_blocks_def dest: orderly_prefix leaves_no_gap_prefix)

lemma chain_grows_start: "chain_grows E d [] (empty_chain d)"
  using books_start [of d] by (simp add: chain_grows_def contig_def empty_chain_def)

lemma chain_grows_added:
  assumes "chain_grows E d es s" and ok: "add_account addr c i s = (Inr (), t)"
  shows "chain_grows E d (es @ [Added addr c i]) t"
proof -
  have books: "books_balance es s" and cg: "contig s" using assms(1) by (simp_all add: chain_grows_def)
  then have inv: "mempool_inv s" by (simp add: books_balance_def)
  have new: "bc_accounts s addr = None" using ok by (auto simp: add_account_def split: if_splits)
  have "contig t" using add_account_contig [OF inv cg, of addr c i] ok by simp
  moreover have "bc_mempool t = bc_mempool s" "bc_chain t = bc_chain s" "bc_difficulty t = bc_difficulty s"
    using ok add_account_fresh [OF new, of c i] by auto
  ultimately show ?thesis
    using books_added [OF books ok] assms(1) by (simp add: chain_grows_def)
qed

lemma chain_grows_submitted:
  assumes "chain_grows E d es s" and ok: "submit_transaction E tx s = (Inr (), t)"
    and fit: "sums_fit E tx" and nz: "tx_from tx \<noteq> COINBASE_ADDR" and len: "length es < 2 ^ 63"
  shows "chain_grows E d (es @ [Submitted tx]) t"
proof -
  have books: "books_balance es s" and cg: "contig s" using assms(1) by (simp_all add: chain_grows_def)
  then have inv: "mempool_inv s" and nw: "nonces_within (length es) s" by (simp_all add: books_balance_def)
  have ct: "contig t" using submit_contig [OF inv cg, of tx E] fit_exact [OF nw len fit] ok by simp
  show ?thesis
  proof (cases rule: submit_cases [of E tx s])
    case (accepted a)
    with ok have t: "t = admit tx s" by simp
    with accepted ct books_submitted [OF books ok fit nz len] assms(1) show ?thesis
      by (simp add: chain_grows_def admit_def)
  qed (use ok in simp)
qed

text \<open>With contiguous nonces the highest pending one is the last.\<close>

lemma top_is_last:
  assumes inv: "mempool_inv s" and cg: "contig s" and tx: "map_of (bc_mempool s) (sender, nonce) = Some tx"
    and top: "\<And>n. (sender, n) \<in> dom (map_of (bc_mempool s)) \<Longrightarrow> n \<le> nonce"
    and a: "bc_accounts s sender = Some a"
  shows "unat nonce = unat (acc_nonce a) + unat (acc_pending_nonce a)"
proof -
  let ?m = "unat (acc_nonce a) + unat (acc_pending_nonce a)"
  have keys: "pool_keys_ok (bc_mempool s)" using inv by (simp add: mempool_inv_def)
  have run: "(\<lambda>tx. unat (tx_nonce tx)) ` set (sent_by sender (pool_txs s)) = {unat (acc_nonce a) <.. ?m}"
    using cg a by (simp add: contig_def)
  have k: "tx_key tx = (sender, nonce)" using pool_lookup_key [OF keys tx] by simp
  moreover have "tx \<in> set (pool_txs s)" using map_of_SomeD [OF tx] by force
  ultimately have "unat nonce \<in> {unat (acc_nonce a) <.. ?m}"
    unfolding run [symmetric] by (force simp: set_sent_by)
  then have le: "unat (acc_nonce a) < unat nonce" "unat nonce \<le> ?m" by simp_all
  then have "?m \<in> (\<lambda>tx. unat (tx_nonce tx)) ` set (sent_by sender (pool_txs s))" unfolding run by simp
  then obtain tx' where "?m = unat (tx_nonce tx')" "tx_from tx' = sender" "tx' \<in> set (pool_txs s)"
    by (auto simp: set_sent_by)
  moreover from this have "((sender, tx_nonce tx'), tx') \<in> set (bc_mempool s)"
    using keys by (auto simp: pool_keys_ok_def)
  then have "(sender, tx_nonce tx') \<in> dom (map_of (bc_mempool s))" by (metis weak_map_of_SomeI domI)
  ultimately show ?thesis using top [of "tx_nonce tx'"] le by (simp add: word_le_nat_alt)
qed

lemma chain_grows_dropped:
  assumes grows: "chain_grows E d es s" and ok: "drop_transaction E sender nonce s = (Inr (), t)"
    and gap: "leaves_no_gap (es @ [Dropped sender nonce])"
  shows "chain_grows E d (es @ [Dropped sender nonce]) t"
proof -
  have books: "books_balance es s" and cg: "contig s"
    and keys: "dom (map_of (bc_mempool s)) = pending_keys es" using grows by (simp_all add: chain_grows_def)
  then have inv: "mempool_inv s" by (simp add: books_balance_def)
  show ?thesis
  proof (rule drop_cases [OF inv, of sender nonce E], goal_cases absent dropped)
    case absent
    with ok show ?case by simp
  next
    case (dropped tx a)
    with ok have t: "t = evict tx s" by simp
    have "unat nonce = unat (acc_nonce a') + unat (acc_pending_nonce a')" if "bc_accounts s sender = Some a'" for a'
      using top_is_last [OF inv cg dropped(1) _ that] leaves_no_gap_last [OF gap] keys by simp
    then have "contig t" using drop_last_contig [OF inv cg, of sender nonce E] ok by simp
    moreover have "dom (map_of (bc_mempool t)) = pending_keys es - {(sender, nonce)}"
      using dropped keys by (auto simp: t evict_def delete_conv')
    moreover have "\<forall>tx\<in>set (pool_txs t). verify_signed_tx E tx"
      using dropped grows by (auto simp: t evict_def AList.delete_eq chain_grows_def)
    moreover have "bc_difficulty t = bc_difficulty s" "bc_chain t = bc_chain s"
      using dropped by (auto simp: t evict_def)
    ultimately show ?thesis
      using books_dropped [OF books ok] grows by (simp add: chain_grows_def)
  qed
qed

lemma chain_grows_mined:
  assumes grows: "chain_grows E d es s" and lin: "linear_history E d (es @ [Mined miner b])"
    and ok: "mine_block E miner s = (Inr b, t)"
  shows "chain_grows E d (es @ [Mined miner b]) t"
proof -
  have books: "books_balance es s" and cg: "contig s" using grows by (simp_all add: chain_grows_def)
  from lin have ord: "orderly E (es @ [Mined miner b])" and hex: "hex_roundtrip E"
    and d: "unat d < 2 ^ 32" and ids: "distinct (map (tx_id E) (blk_transactions b))"
    by (simp_all add: linear_history_def)
  have rdy: "mining_ready s" by (rule books_ready [OF books orderly_prefix [OF ord]])
  have "length (bc_chain s) \<le> length es"
    using grows length_mined_blocks [of es] by (simp add: chain_grows_def)
  then have len: "length (bc_chain s) < 2 ^ 64" using ord by (simp add: orderly_def)
  note inv = mined_invariant [OF rdy ok]
  have "contig t" using inv by (intro contig_no_pending) auto
  moreover have "chain_ok E (ucast (bc_difficulty t)) zero_prev_hash (bc_chain t) \<and>
      bc_difficulty t = bc_difficulty s"
    using grows d by (intro mined_chain_ok [OF rdy cg len hex _ _ _ ok ids]) (simp_all add: chain_grows_def)
  moreover have "nonces_below_max b"
    using books ord by (intro mined_below_max [OF rdy ok, where k = "length es"]) (simp_all add: books_balance_def orderly_def)
  ultimately show ?thesis
    using grows books_mined [OF books ord ok] inv by (auto simp: chain_grows_def)
qed

interpretation grows: run_invariant "node_step E" "empty_chain d" "linear_history E d" "chain_grows E d" for E d
proof unfold_locales
  fix es e s t
  show "linear_history E d es" if "linear_history E d (es @ [e])" using that by (rule linear_prefix)
  show "chain_grows E d [] (empty_chain d)" by (rule chain_grows_start)
  show "chain_grows E d (es @ [e]) t"
    if "chain_grows E d es s" and "node_step E s e t" and lin: "linear_history E d (es @ [e])"
    using that(2)
  proof cases
    case (added addr c i)
    with chain_grows_added that(1) show ?thesis by simp
  next
    case (submitted tx)
    from lin submitted(1) have "sums_fit E tx" "tx_from tx \<noteq> COINBASE_ADDR" "length es < 2 ^ 63"
      by (auto simp: linear_history_def orderly_def)
    with chain_grows_submitted that(1) submitted show ?thesis by simp
  next
    case (dropped sender nonce)
    with chain_grows_dropped that(1) lin show ?thesis by (simp add: linear_history_def)
  next
    case (mined miner b)
    with chain_grows_mined that(1) lin show ?thesis by simp
  qed
qed

section \<open>Synchronisation\<close>

definition coinbase_c :: "block list \<Rightarrow> nat" where
  "coinbase_c bs = sum_list (map (\<lambda>b. unat (tok (blk_coinbase_consumer b))) bs)"

definition coinbase_i :: "block list \<Rightarrow> nat" where
  "coinbase_i bs = sum_list (map (\<lambda>b. unat (tok (blk_coinbase_industrial b))) bs)"

definition chain_fees_c :: "block list \<Rightarrow> nat" where
  "chain_fees_c bs = sum_list (map (\<lambda>b. fees_c (drop 1 (blk_transactions b))) bs)"

definition chain_fees_i :: "block list \<Rightarrow> nat" where
  "chain_fees_i bs = sum_list (map (\<lambda>b. fees_i (drop 1 (blk_transactions b))) bs)"

lemma chain_sums_snoc [simp]:
  "coinbase_c [] = 0" "coinbase_i [] = 0" "chain_fees_c [] = 0" "chain_fees_i [] = 0"
  "coinbase_c (bs @ [b]) = coinbase_c bs + unat (tok (blk_coinbase_consumer b))"
  "coinbase_i (bs @ [b]) = coinbase_i bs + unat (tok (blk_coinbase_industrial b))"
  "chain_fees_c (bs @ [b]) = chain_fees_c bs + fees_c (drop 1 (blk_transactions b))"
  "chain_fees_i (bs @ [b]) = chain_fees_i bs + fees_i (drop 1 (blk_transactions b))"
  by (simp_all add: coinbase_c_def coinbase_i_def chain_fees_c_def chain_fees_i_def)

text \<open>
  Histories that a chain records completely: no account was opened outside the chain, and
  the emission counters of the importer, which add whole coinbases, stay within 64 bits.
\<close>

definition on_chain_history :: "env \<Rightarrow> u64 \<Rightarrow> event list \<Rightarrow> bool" where
  "on_chain_history E d es \<longleftrightarrow>
     linear_history E d es \<and> (\<forall>addr c i. Added addr c i \<notin> set es) \<and>
     coinbase_c (mined_blocks es) < 2 ^ 64 \<and> coinbase_i (mined_blocks es) < 2 ^ 64"

text \<open>The state \<open>u\<close> of a node that replayed the chain of \<open>s\<close> from the state \<open>v\<close>.\<close>

definition mirrors :: "blockchain \<Rightarrow> blockchain \<Rightarrow> blockchain \<Rightarrow> bool" where
  "mirrors v s u \<longleftrightarrow>
     bc_chain u = bc_chain s \<and> bc_accounts u = strip_pending (bc_accounts s) \<and>
     bc_block_reward_consumer u = bc_block_reward_consumer s \<and>
     bc_block_reward_industrial u = bc_block_reward_industrial s \<and>
     unat (bc_emission_consumer u) = coinbase_c (bc_chain s) \<and>
     unat (bc_emission_industrial u) = coinbase_i (bc_chain s) \<and>
     unat (bc_block_height u) = length (bc_chain s) \<and> bc_mempool u = bc_mempool v \<and>
     bc_difficulty u = bc_difficulty v"

text \<open>The chain of \<open>s\<close> can be replayed from \<open>v\<close>, and the replay reproduces \<open>s\<close>.\<close>

definition replays :: "env \<Rightarrow> blockchain \<Rightarrow> blockchain \<Rightarrow> bool" where
  "replays E v s \<longleftrightarrow>
     (\<exists>u. import_blocks E (bc_chain s) (reset_chain v) = (Inr (), u) \<and> mirrors v s u)"

definition replayable :: "env \<Rightarrow> u64 \<Rightarrow> blockchain \<Rightarrow> event list \<Rightarrow> blockchain \<Rightarrow> bool" where
  "replayable E d v es s \<longleftrightarrow>
     chain_grows E d es s \<and> replays E v s \<and>
     unat (bc_emission_consumer s) + chain_fees_c (bc_chain s) = coinbase_c (bc_chain s) \<and>
     unat (bc_emission_industrial s) + chain_fees_i (bc_chain s) = coinbase_i (bc_chain s)"

lemma import_blocks_snoc:
  "import_blocks E (bs @ [b]) s = and_then (import_blocks E bs s) (\<lambda>_. import_block E b)"
  by (induction bs arbitrary: s) (auto simp: and_then_def split: prod.split sum.split)

lemma on_chain_prefix:
  assumes "on_chain_history E d (es @ [e])"
  shows "on_chain_history E d es"
proof -
  have "linear_history E d es" using assms linear_prefix by (auto simp: on_chain_history_def)
  with assms show ?thesis
    by (cases e) (auto simp: on_chain_history_def mined_blocks_def)
qed

lemma replays_admit:
  assumes "bc_accounts s (tx_from tx) = Some a" and "replays E v s"
  shows "replays E v (admit tx s)"
proof -
  have "no_pending (reserved tx (fee_c tx) (fee_i tx) a) = no_pending a"
    by (simp add: no_pending_def reserved_def)
  with assms show ?thesis by (simp add: replays_def mirrors_def admit_def fun_upd_idem)
qed

lemma replays_evict:
  assumes "bc_accounts s (tx_from tx) = Some a" and "replays E v s"
  shows "replays E v (evict tx s)"
proof -
  have "no_pending (released tx a) = no_pending a" by (simp add: no_pending_def released_def)
  with assms show ?thesis by (simp add: replays_def mirrors_def evict_def fun_upd_idem)
qed

lemma replays_mined:
  assumes rdy: "mining_ready s" and ok: "mine_block E miner s = (Inr b, t)"
    and sgn: "\<forall>tx\<in>set (pool_txs s). verify_signed_tx E tx" and rep: "replays E v s"
    and em: "coinbase_c (bc_chain t) < 2 ^ 64" "coinbase_i (bc_chain t) < 2 ^ 64"
    and len: "length (bc_chain s) + 1 < 2 ^ 64"
  shows "replays E v t"
proof -
  from rep obtain u where imp: "import_blocks E (bc_chain s) (reset_chain v) = (Inr (), u)"
    and mir: "mirrors v s u" by (auto simp: replays_def)
  note inv = mined_invariant [OF rdy ok]
  have em': "unat (bc_emission_consumer u) + unat (tok (blk_coinbase_consumer b)) < 2 ^ 64"
    "unat (bc_emission_industrial u) + unat (tok (blk_coinbase_industrial b)) < 2 ^ 64"
    using em inv mir by (simp_all add: mirrors_def)
  have h: "unat (bc_block_height u) + 1 < 2 ^ 64" using mir len by (simp add: mirrors_def)
  let ?u = "u\<lparr>bc_accounts := bc_accounts t, bc_block_reward_consumer := bc_block_reward_consumer t,
      bc_block_reward_industrial := bc_block_reward_industrial t,
      bc_emission_consumer := bc_emission_consumer u + tok (blk_coinbase_consumer b),
      bc_emission_industrial := bc_emission_industrial u + tok (blk_coinbase_industrial b),
      bc_chain := bc_chain u @ [b], bc_block_height := bc_block_height u + 1\<rparr>"
  have "import_block E b u = (Inr (), ?u)"
    by (rule import_mined_block [OF rdy ok sgn _ _ _ em' h]) (use mir in \<open>simp_all add: mirrors_def\<close>)
  then have "import_blocks E (bc_chain t) (reset_chain v) = (Inr (), ?u)"
    using inv imp by (simp add: import_blocks_snoc)
  moreover have "mirrors v t ?u"
  proof -
    have "ledger_inv (bc_accounts t) []" using inv by (auto simp: mempool_inv_def)
    then have "strip_pending (bc_accounts t) = bc_accounts t" by (rule strip_pending_id)
    with mir inv em' h show ?thesis by (simp add: mirrors_def unat_add_exact)
  qed
  ultimately show ?thesis by (auto simp: replays_def)
qed

lemma replayable_start: "replayable E d v [] (empty_chain d)"
  using chain_grows_start [of E d]
  by (simp add: replayable_def replays_def mirrors_def empty_chain_def reset_chain_def)

lemma replayable_submitted:
  assumes rep: "replayable E d v es s" and ok: "submit_transaction E tx s = (Inr (), t)"
    and fit: "sums_fit E tx" and nz: "tx_from tx \<noteq> COINBASE_ADDR" and len: "length es < 2 ^ 63"
  shows "replayable E d v (es @ [Submitted tx]) t"
proof (cases rule: submit_cases [of E tx s])
  case (accepted a)
  with ok have t: "t = admit tx s" by simp
  with rep have "chain_grows E d (es @ [Submitted tx]) t"
    using chain_grows_submitted [OF _ ok fit nz len] by (simp add: replayable_def)
  with rep accepted(3) replays_admit [OF accepted(3), of E v] show ?thesis
    unfolding t by (simp add: replayable_def admit_def)
qed (use ok in simp)

lemma replayable_dropped:
  assumes rep: "replayable E d v es s" and ok: "drop_transaction E sender nonce s = (Inr (), t)"
    and gap: "leaves_no_gap (es @ [Dropped sender nonce])"
  shows "replayable E d v (es @ [Dropped sender nonce]) t"
proof -
  from rep have grows: "chain_grows E d es s" by (simp add: replayable_def)
  then have inv: "mempool_inv s" by (simp add: chain_grows_def books_balance_def)
  show ?thesis
  proof (rule drop_cases [OF inv, of sender nonce E], goal_cases absent dropped)
    case absent
    with ok show ?case by simp
  next
    case (dropped tx a)
    with ok have t: "t = evict tx s" by simp
    have a: "bc_accounts s (tx_from tx) = Some a" using dropped(2,3) by auto
    with replays_evict [OF a, of E v] chain_grows_dropped [OF grows ok gap] rep show ?thesis
      unfolding t by (simp add: replayable_def evict_def)
  qed
qed

lemma replayable_mined:
  assumes rep: "replayable E d v es s" and hist: "on_chain_history E d (es @ [Mined miner b])"
    and ok: "mine_block E miner s = (Inr b, t)"
  shows "replayable E d v (es @ [Mined miner b]) t"
proof -
  from rep have grows: "chain_grows E d es s" by (simp add: replayable_def)
  then have sgn: "\<forall>tx\<in>set (pool_txs s). verify_signed_tx E tx" by (simp add: chain_grows_def)
  from hist have lin: "linear_history E d (es @ [Mined miner b])" by (simp add: on_chain_history_def)
  then have ord: "orderly E es" by (auto simp: linear_history_def dest: orderly_prefix)
  have rdy: "mining_ready s" using books_ready [OF _ ord] grows by (simp add: chain_grows_def)
  have ch: "bc_chain s = mined_blocks es" using grows by (simp add: chain_grows_def)
  note grows' = chain_grows_mined [OF grows lin ok]
  then have "bc_chain t = mined_blocks (es @ [Mined miner b])" by (simp add: chain_grows_def)
  then have "coinbase_c (bc_chain t) < 2 ^ 64" "coinbase_i (bc_chain t) < 2 ^ 64"
    using hist by (simp_all add: on_chain_history_def)
  moreover have "length (bc_chain s) + 1 < 2 ^ 64"
    using ch length_mined_blocks [of es] ord by (simp add: orderly_def)
  ultimately have "replays E v t"
    using rep by (intro replays_mined [OF rdy ok sgn]) (simp_all add: replayable_def)
  with grows' rep mined_supply [OF rdy ok] mined_invariant [OF rdy ok] show ?thesis
    by (simp add: replayable_def)
qed

interpretation replay: run_invariant "node_step E" "empty_chain d" "on_chain_history E d" "replayable E d v" for E d v
proof unfold_locales
  fix es e s t
  show "on_chain_history E d es" if "on_chain_history E d (es @ [e])" using that by (rule on_chain_prefix)
  show "replayable E d v [] (empty_chain d)" by (rule replayable_start)
  show "replayable E d v (es @ [e]) t"
    if "replayable E d v es s" and "node_step E s e t" and hist: "on_chain_history E d (es @ [e])"
    using that(2)
  proof cases
    case (added addr c i)
    with hist show ?thesis by (auto simp: on_chain_history_def)
  next
    case (submitted tx)
    from hist submitted(1) have "sums_fit E tx" "tx_from tx \<noteq> COINBASE_ADDR" "length es < 2 ^ 63"
      by (auto simp: on_chain_history_def linear_history_def orderly_def)
    with replayable_submitted that(1) submitted show ?thesis by simp
  next
    case (dropped sender nonce)
    with replayable_dropped that(1) hist show ?thesis by (simp add: on_chain_history_def linear_history_def)
  next
    case (mined miner b)
    with replayable_mined that(1) hist show ?thesis by simp
  qed
qed

section \<open>Properties\<close>

text \<open>
  C9: Books balance. After any orderly run of successful account creations, submissions,
  evictions and mined blocks from an empty chain (no transaction from the coinbase address,
  in a release build none with sums that wrap, allocations of at most \<open>18 * 10^18\<close> on each
  side, fewer than \<open>2^63\<close> calls), the sum of all balances is what was allocated plus what was
  emitted, on each side; the emission is within the maximum supply, and the reservations of
  every account match the mempool.
\<close>

theorem node_run_conserves:
  assumes "run (node_step E) (empty_chain d) es s" and "orderly E es"
  shows "supply_c (bc_accounts s) = alloc_c es + unat (fst (circulating_supply s)) \<and>
    supply_i (bc_accounts s) = alloc_i es + unat (snd (circulating_supply s)) \<and>
    unat (fst (circulating_supply s)) \<le> unat MAX_SUPPLY_CONSUMER \<and>
    unat (snd (circulating_supply s)) \<le> unat MAX_SUPPLY_INDUSTRIAL \<and> mempool_inv s"
  using books.inv_run [OF assms] by (simp add: books_balance_def circulating_supply_def)

text \<open>
  C16: Every state that an orderly run reaches is ready to mine: there mining cannot panic or
  fail on fees, rewards or balances, provided hexadecimal decoding inverts encoding and the
  serialization of the chain succeeds.
\<close>

theorem node_run_ready:
  assumes "run (node_step E) (empty_chain d) es s" and "orderly E es"
    and "hex_roundtrip E" and "\<forall>d. bincode_disk E d \<noteq> None"
  shows "mining_ready s \<and>
    (\<exists>r. fst (mine_block E miner s) = r \<and>
      (r = Inl (ValueError ''Nonce overflow'') \<or> (\<exists>b. r = Inr b)))"
proof -
  have rdy: "mining_ready s" by (rule books_ready [OF books.inv_run [OF assms(1,2)] assms(2)])
  from mine_block_decided [OF rdy assms(3,4), of miner] rdy show ?thesis
    by (auto split: if_splits)
qed

text \<open>
  C8: The chain that a node mines is valid for every other node of the same difficulty:
  \<open>is_valid_chain_rust\<close> accepts it, in either build, after every orderly run at a
  difficulty of 32 bits whose evictions take the last pending transaction of a sender and
  whose blocks have distinct transaction ids, if hexadecimal decoding inverts encoding.
\<close>

theorem node_chain_is_valid:
  assumes "run (node_step E) (empty_chain d) es s" and "linear_history E d es"
  shows "is_valid_chain_rust E (bc_chain s) (ucast d) = Inr True"
proof -
  note grows = grows.inv_run [OF assms]
  from assms(2) grows have "\<forall>b\<in>set (bc_chain s). nonces_below_max b" and hex: "hex_roundtrip E"
    by (simp_all add: linear_history_def chain_grows_def)
  from valid_chain_from_eq [OF hex this(1), of "ucast d" zero_prev_hash] grows show ?thesis
    by (simp add: is_valid_chain_rust_def chain_grows_def)
qed

text \<open>
  C5: Synchronisation with a node whose history is \<open>on_chain_history\<close>: it never opened an
  account with \<open>add_account\<close>, so all its funds come from mined blocks, every eviction took
  the last pending transaction of its sender, no transaction came from the coinbase address
  or had sums that wrap, the ids within a block are distinct, the coinbases of its chain sum
  below \<open>2^64\<close>, its difficulty has 32 bits, hexadecimal decoding inverts encoding,
  and it made fewer than \<open>2^63\<close> calls. Then any node
  with a shorter chain and the same difficulty can import that chain: the import succeeds
  and reaches the same accounts, balances and nonces (with no reservations), the same
  rewards and the same chain. Two things differ: its mempool stays as it was, and its
  emission counters also contain the fees, which the counters of the miner do not.
\<close>

theorem node_sync:
  assumes run: "run (node_step E) (empty_chain d) es s" and hist: "on_chain_history E d es"
    and "length (bc_chain v) < length (bc_chain s)" and "bc_difficulty v = d"
  shows "\<exists>u. import_chain E (bc_chain s) v = (Inr (), u) \<and>
    bc_chain u = bc_chain s \<and> bc_accounts u = strip_pending (bc_accounts s) \<and>
    bc_block_reward_consumer u = bc_block_reward_consumer s \<and>
    bc_block_reward_industrial u = bc_block_reward_industrial s \<and>
    bc_mempool u = bc_mempool v \<and>
    unat (bc_emission_consumer u) = unat (bc_emission_consumer s) + chain_fees_c (bc_chain s) \<and>
    unat (bc_emission_industrial u) = unat (bc_emission_industrial s) + chain_fees_i (bc_chain s)"
proof -
  note rep = replay.inv_run [OF run hist, of v]
  from rep obtain u where imp: "import_blocks E (bc_chain s) (reset_chain v) = (Inr (), u)"
    and mir: "mirrors v s u" by (auto simp: replayable_def replays_def)
  from rep have grows: "chain_grows E d es s" by (simp add: replayable_def)
  from hist grows have "\<forall>b\<in>set (bc_chain s). nonces_below_max b" and hex: "hex_roundtrip E"
    by (simp_all add: on_chain_history_def linear_history_def chain_grows_def)
  from import_gate [OF hex this(1), of v] grows assms(3,4) imp
  have "import_chain E (bc_chain s) v = (Inr (), u)" by (simp add: chain_grows_def)
  with mir rep show ?thesis by (auto simp: mirrors_def replayable_def)
qed

section \<open>The properties on a concrete run\<close>

lemma sample_mines:
  assumes "mining_ready s" and "bc_difficulty s = 0"
  shows "\<exists>b t. mine_block (sample_env p) miner s = (Inr b, t)"
proof -
  from mine_block_decided [OF assms(1) sample_laws(2) sample_disk, of p miner]
  obtain tmpl where "blk_difficulty tmpl = 0" and
    "(\<exists>n. meets_target (sample_env p) tmpl n) \<Longrightarrow>
       \<exists>b t. mine_block (sample_env p) miner s = (Inr b, t)"
    by (simp only: assms(2)) metis
  with sample_meets show ?thesis by blast
qed

lemma mined_transactions:
  assumes "mining_ready s" and "mine_block E miner s = (Inr b, t)"
  shows "\<exists>c i. blk_transactions b = coinbase_tx miner c i # pending_sorted s \<and> bc_difficulty t = bc_difficulty s"
  by (rule mine_block_success [OF assms]) (auto simp: template_amounts)

text \<open>Alice mines, pays Bob with the sample transaction, and Carol mines that.\<close>

lemma sample_run:
  "\<exists>b1 b2 s. run (node_step (sample_env p)) (empty_chain 0)
       [Mined ''alice'' b1, Submitted sample_tx, Mined ''carol'' b2] s \<and>
     on_chain_history (sample_env p) 0 [Mined ''alice'' b1, Submitted sample_tx, Mined ''carol'' b2] \<and>
     bc_chain s = [b1, b2] \<and> coinbase_c [b1, b2] \<le> 120000 \<and> coinbase_i [b1, b2] \<le> 120000"
proof -
  let ?E = "sample_env p" and ?s0 = "empty_chain 0"
  have o0: "orderly ?E []" by (simp add: orderly_def)
  note r0 = books_ready [OF books_start o0]
  obtain b1 s1 where m1: "mine_block ?E ''alice'' ?s0 = (Inr b1, s1)"
    using sample_mines [OF r0, of 0 p "''alice''"] by (auto simp: empty_chain_def)
  have p0: "pending_sorted ?s0 = []" by (simp add: pending_sorted_def empty_chain_def)
  obtain c1 i1 where t1: "blk_transactions b1 = [coinbase_tx ''alice'' c1 i1]" and d1: "bc_difficulty s1 = 0"
    using mined_transactions [OF r0 m1] p0 by (auto simp: empty_chain_def)
  have o1: "orderly ?E [Mined ''alice'' b1]" by (simp add: orderly_def alloc_c_def alloc_i_def)
  have B1: "books_balance [Mined ''alice'' b1] s1" using books_mined [OF books_start _ m1] o1 by simp
  note set1 = mined_settlement [OF r0 m1] and sup1 = mined_supply [OF r0 m1] and inv1 = mined_invariant [OF r0 m1]
  have nr: "next_reward_c ?s0 = 59997" "next_reward_i ?s0 = 29998"
    by (simp_all add: next_reward_c_def next_reward_i_def empty_chain_def unat_decay
        INITIAL_BLOCK_REWARD_CONSUMER_def INITIAL_BLOCK_REWARD_INDUSTRIAL_def)
  have bal: "bal_c (bc_accounts s1) ''alice'' = 59997" "bal_i (bc_accounts s1) ''alice'' = 29998"
    "nonce_of (bc_accounts s1) ''alice'' = 0"
    using set1 sup1 nr t1 by (simp_all add: empty_chain_def bal_c_def bal_i_def nonce_of_def)
  then obtain a where a: "bc_accounts s1 ''alice'' = Some a" by (auto simp: bal_c_def split: option.splits)
  have "admissible ?E sample_tx s1"
    using sample_tx_verifies [of p] a bal inv1
    by (simp add: admissible_def sample_payload_def tx_total_c_def tx_total_i_def sample_fees
        bal_c_def bal_i_def nonce_of_def)
  then have sub: "submit_transaction ?E sample_tx s1 = (Inr (), admit sample_tx s1)"
    by (rule admissible_accepted)
  let ?s2 = "admit sample_tx s1"
  have nz: "tx_from sample_tx \<noteq> COINBASE_ADDR" by (simp add: sample_payload_def)
  have fit: "sums_fit ?E sample_tx"
    by (simp add: sums_fit_def tx_total_c_def tx_total_i_def sample_fees) (simp add: sample_payload_def)
  have o2: "orderly ?E [Mined ''alice'' b1, Submitted sample_tx]"
    using nz fit by (simp add: orderly_def alloc_c_def alloc_i_def)
  have B2: "books_balance [Mined ''alice'' b1, Submitted sample_tx] ?s2"
    using books_submitted [OF B1 sub fit nz] by simp
  note r2 = books_ready [OF B2 o2]
  have ad: "bc_difficulty ?s2 = 0" "pool_txs ?s2 = [sample_tx]"
    "bc_block_reward_consumer ?s2 = bc_block_reward_consumer s1"
    using a d1 inv1 by (simp_all add: admit_def sample_payload_def)
  obtain b2 s where m2: "mine_block ?E ''carol'' ?s2 = (Inr b2, s)"
    using sample_mines [OF r2 ad(1)] by blast
  have p2: "pending_sorted ?s2 = [sample_tx]" by (simp add: pending_sorted_def ad(2))
  obtain c2 i2 where t2: "blk_transactions b2 = [coinbase_tx ''carol'' c2 i2, sample_tx]"
    using mined_transactions [OF r2 m2] p2 by auto
  note sup2 = mined_supply [OF r2 m2] and inv2 = mined_invariant [OF r2 m2]
  let ?es = "[Mined ''alice'' b1, Submitted sample_tx, Mined ''carol'' b2]"
  note snoc = run.snoc [where step = "node_step ?E" and ?s0.0 = ?s0]
  have "run (node_step ?E) ?s0 ((([] @ [Mined ''alice'' b1]) @ [Submitted sample_tx]) @ [Mined ''carol'' b2]) s"
    by (rule snoc [OF snoc [OF snoc [OF run.start]]]) (simp only: node_step_simps, (rule m1 sub m2))+
  moreover have "bc_chain s = [b1, b2]"
    using inv1 inv2 a by (simp add: admit_def sample_payload_def empty_chain_def)
  moreover have "on_chain_history ?E 0 ?es \<and> coinbase_c [b1, b2] \<le> 120000 \<and> coinbase_i [b1, b2] \<le> 120000"
  proof -
    have mb: "mined_blocks ?es = [b1, b2]" by (simp add: mined_blocks_def)
    have le: "next_reward_c ?s2 \<le> 60000" "next_reward_i ?s2 \<le> 60000"
      using next_reward_le [of ?s2] r2 by (simp_all add: mining_ready_def)
    have fees: "fees_c [] = 0" "fees_c [sample_tx] = 2" "fees_i [] = 0" "fees_i [sample_tx] = 1"
      by (simp_all add: sample_fees)
    have "unat (tok (blk_coinbase_consumer b1)) = 59997" "unat (tok (blk_coinbase_industrial b1)) = 29998"
      using sup1 nr t1 fees by simp_all
    moreover have "unat (tok (blk_coinbase_consumer b2)) \<le> 60002" "unat (tok (blk_coinbase_industrial b2)) \<le> 60001"
      using sup2 le t2 fees by simp_all
    moreover have "orderly ?E ?es" using o2 by (auto simp: orderly_def alloc_c_def alloc_i_def)
    ultimately show ?thesis
      using sample_laws(2) sample_ids leaves_no_gapI [of ?es]
      by (auto simp: on_chain_history_def linear_history_def mb t1 t2 coinbase_c_def coinbase_i_def)
  qed
  ultimately show ?thesis by auto
qed
theorem node_run_conserves_witness:
  "\<exists>es s. run (node_step (sample_env Debug)) (empty_chain 0) es s \<and> length es = 3 \<and>
     supply_c (bc_accounts s) = unat (fst (circulating_supply s))"
proof -
  obtain b1 b2 s where r: "run (node_step (sample_env Debug)) (empty_chain 0)
      [Mined ''alice'' b1, Submitted sample_tx, Mined ''carol'' b2] s"
    and h: "on_chain_history (sample_env Debug) 0 [Mined ''alice'' b1, Submitted sample_tx, Mined ''carol'' b2]"
    using sample_run by blast
  then have "orderly (sample_env Debug) [Mined ''alice'' b1, Submitted sample_tx, Mined ''carol'' b2]"
    by (simp add: on_chain_history_def linear_history_def)
  from node_run_conserves [OF r this] have "supply_c (bc_accounts s) = unat (fst (circulating_supply s))"
    by (simp add: alloc_c_def)
  then show ?thesis by - (intro exI conjI, rule r, simp_all)
qed

theorem node_run_ready_witness:
  "\<exists>es s. run (node_step (sample_env Debug)) (empty_chain 0) es s \<and> length es = 3 \<and> mining_ready s"
proof -
  obtain b1 b2 s where r: "run (node_step (sample_env Debug)) (empty_chain 0)
      [Mined ''alice'' b1, Submitted sample_tx, Mined ''carol'' b2] s"
    and h: "on_chain_history (sample_env Debug) 0 [Mined ''alice'' b1, Submitted sample_tx, Mined ''carol'' b2]"
    using sample_run by blast
  then have "orderly (sample_env Debug) [Mined ''alice'' b1, Submitted sample_tx, Mined ''carol'' b2]"
    by (simp add: on_chain_history_def linear_history_def)
  from node_run_ready [OF r this sample_laws(2) sample_disk] have "mining_ready s" by simp
  then show ?thesis by - (intro exI conjI, rule r, simp_all)
qed

theorem node_chain_is_valid_witness:
  "\<exists>es s. run (node_step (sample_env Debug)) (empty_chain 0) es s \<and> length (bc_chain s) = 2 \<and>
     is_valid_chain_rust (sample_env Debug) (bc_chain s) 0 = Inr True"
proof -
  obtain b1 b2 s where r: "run (node_step (sample_env Debug)) (empty_chain 0)
      [Mined ''alice'' b1, Submitted sample_tx, Mined ''carol'' b2] s"
    and h: "on_chain_history (sample_env Debug) 0 [Mined ''alice'' b1, Submitted sample_tx, Mined ''carol'' b2]"
    and c: "bc_chain s = [b1, b2]"
    using sample_run by blast
  then have "linear_history (sample_env Debug) 0 [Mined ''alice'' b1, Submitted sample_tx, Mined ''carol'' b2]"
    by (simp add: on_chain_history_def)
  from node_chain_is_valid [OF r this] c show ?thesis by - (intro exI conjI, rule r, simp_all)
qed

theorem node_sync_witness:
  "\<exists>es s u. run (node_step (sample_env Debug)) (empty_chain 0) es s \<and> length (bc_chain s) = 2 \<and>
     import_chain (sample_env Debug) (bc_chain s) sample_pool = (Inr (), u) \<and>
     bc_accounts u = strip_pending (bc_accounts s) \<and> bc_mempool u = [((''alice'', 1), sample_tx)]"
proof -
  obtain b1 b2 s where r: "run (node_step (sample_env Debug)) (empty_chain 0)
      [Mined ''alice'' b1, Submitted sample_tx, Mined ''carol'' b2] s"
    and h: "on_chain_history (sample_env Debug) 0 [Mined ''alice'' b1, Submitted sample_tx, Mined ''carol'' b2]"
    and c: "bc_chain s = [b1, b2]"
    using sample_run by blast
  from node_sync [OF r h, of sample_pool] c obtain u where
    "import_chain (sample_env Debug) (bc_chain s) sample_pool = (Inr (), u)"
    "bc_accounts u = strip_pending (bc_accounts s)" "bc_mempool u = [((''alice'', 1), sample_tx)]" by auto
  with c show ?thesis by - (intro exI conjI, rule r, simp_all)
qed

end
