(* ===== verification/Network.thy ===== *)
theory Network
  imports Node
begin

text \<open>
  A network of nodes that run \<open>src/lib.rs\<close>. Every node makes its own calls, and a node may
  adopt the chain of another with \<open>import_chain\<close> while nothing is pending at it. The
  invariant \<open>synced\<close> says what each node keeps, whatever the interleaving: its chain is
  valid at every node of the same difficulty, and the chain alone reproduces its ledger.
\<close>

section \<open>Runs of a network\<close>

datatype net_event =
    Local string event
  | Synced string string

text \<open>\<open>Synced n m\<close>: node \<open>n\<close> imports the chain of node \<open>m\<close>.\<close>

inductive net_step :: "env \<Rightarrow> (string \<Rightarrow> blockchain) \<Rightarrow> net_event \<Rightarrow> (string \<Rightarrow> blockchain) \<Rightarrow> bool" for E where
  local: "node_step E (S n) e t \<Longrightarrow> net_step E S (Local n e) (S(n := t))"
| synced: "import_chain E (bc_chain (S m)) (S n) = (Inr (), t) \<Longrightarrow> bc_mempool (S n) = [] \<Longrightarrow>
    net_step E S (Synced n m) (S(n := t))"

inductive_simps net_step_simps: "net_step E S (Local n e) T" "net_step E S (Synced n m) T"

text \<open>The chain of every node, read off the history.\<close>

fun chain_after :: "(string \<Rightarrow> block list) \<Rightarrow> net_event \<Rightarrow> (string \<Rightarrow> block list)" where
  "chain_after C (Local n (Mined miner b)) = C(n := C n @ [b])"
| "chain_after C (Local n e) = C"
| "chain_after C (Synced n m) = C(n := C m)"

definition chains :: "net_event list \<Rightarrow> string \<Rightarrow> block list" where
  "chains es = foldl chain_after (\<lambda>_. []) es"

text \<open>The calls that a node makes itself.\<close>

primrec own_call :: "string \<Rightarrow> net_event \<Rightarrow> event list" where
  "own_call n (Local m e) = (if m = n then [e] else [])"
| "own_call n (Synced m k) = []"

definition own_calls :: "string \<Rightarrow> net_event list \<Rightarrow> event list" where
  "own_calls n es = concat (map (own_call n) es)"

lemma own_calls_snoc [simp]:
  "own_calls n [] = []" "own_calls n (es @ [e]) = own_calls n es @ own_call n e"
  by (simp_all add: own_calls_def)

text \<open>
  The calls considered: no account is opened outside the chain, no transaction comes from
  the coinbase address or has sums that wrap, an eviction takes the last pending transaction
  of its sender, and the transaction ids of a block are distinct.
\<close>

fun fair :: "env \<Rightarrow> net_event \<Rightarrow> bool" where
  "fair E (Local n (Submitted tx)) = (tx_from tx \<noteq> COINBASE_ADDR \<and> sums_fit E tx)"
| "fair E (Local n (Mined miner b)) = distinct (map (tx_id E) (blk_transactions b))"
| "fair E (Local n (Added addr c i)) = False"
| "fair E (Local n (Dropped sender nonce)) = True"
| "fair E (Synced n m) = True"

text \<open>
  The emission counters of an importing node add whole coinbases, fees included; \<open>within_cap\<close>
  says that they still have not reached the maximum supply.
\<close>

definition within_cap :: "block list \<Rightarrow> bool" where
  "within_cap bs \<longleftrightarrow> coinbase_c bs \<le> 20000000000000 \<and> coinbase_i bs \<le> 20000000000000"

definition fair_history :: "env \<Rightarrow> u64 \<Rightarrow> net_event list \<Rightarrow> bool" where
  "fair_history E d es \<longleftrightarrow>
     hex_roundtrip E \<and> unat d < 2 ^ 32 \<and> length es < 2 ^ 63 \<and>
     (\<forall>e\<in>set es. fair E e) \<and> (\<forall>n. leaves_no_gap (own_calls n es)) \<and>
     (\<forall>k n. within_cap (chains (take k es) n))"

lemma chains_snoc [simp]:
  "chains [] = (\<lambda>_. [])" "chains (es @ [e]) = chain_after (chains es) e"
  by (simp_all add: chains_def)

lemma length_chains: "length (chains es n) \<le> length es"
proof (induction es arbitrary: n rule: rev_induct)
  case (snoc e es)
  have "length (chain_after C e n) \<le> Suc k" if "\<And>n. length (C n) \<le> k" for C k
    using that by (cases "(C, e)" rule: chain_after.cases) (auto intro: le_SucI)
  with snoc show ?case by simp
qed simp

lemma fair_prefix:
  assumes "fair_history E d (es @ [e])"
  shows "fair_history E d es"
proof -
  have "within_cap (chains (take k es) n)" for k n
  proof (cases "k \<le> length es")
    case True
    then have "take k (es @ [e]) = take k es" by simp
    with assms show ?thesis unfolding fair_history_def by metis
  next
    case False
    then have "take (length es) (es @ [e]) = take k es" by simp
    with assms show ?thesis unfolding fair_history_def by metis
  qed
  moreover have "leaves_no_gap (own_calls n es)" for n
  proof -
    have "leaves_no_gap (own_calls n es @ own_call n e)" using assms by (simp add: fair_history_def)
    then show ?thesis by (cases e) (auto dest: leaves_no_gap_prefix split: if_splits)
  qed
  ultimately show ?thesis using assms by (simp add: fair_history_def)
qed

lemma fair_cap: "fair_history E d es \<Longrightarrow> within_cap (chains es n)"
  unfolding fair_history_def by (metis take_all_iff le_refl)

section \<open>The invariant of a node\<close>

definition synced :: "env \<Rightarrow> u64 \<Rightarrow> nat \<Rightarrow> block list \<Rightarrow> blockchain \<Rightarrow> bool" where
  "synced E d k bs s \<longleftrightarrow>
     mempool_inv s \<and> contig s \<and> nonces_within k s \<and>
     (\<forall>tx\<in>set (pool_txs s). tx_from tx \<noteq> COINBASE_ADDR \<and> verify_signed_tx E tx) \<and>
     bc_difficulty s = d \<and> bc_chain s = bs \<and> unat (bc_block_height s) = length bs \<and>
     chain_ok E (ucast d) zero_prev_hash bs \<and> (\<forall>b\<in>set bs. nonces_below_max b) \<and>
     unat (tok (bc_block_reward_consumer s)) \<le> 60000 \<and>
     unat (tok (bc_block_reward_industrial s)) \<le> 60000 \<and>
     supply_c (bc_accounts s) + chain_fees_c bs = coinbase_c bs \<and>
     supply_i (bc_accounts s) + chain_fees_i bs = coinbase_i bs \<and>
     unat (bc_emission_consumer s) \<le> coinbase_c bs \<and>
     unat (bc_emission_industrial s) \<le> coinbase_i bs \<and>
     (\<forall>v. replays E v s)"

lemma synced_start: "synced E d 0 [] (empty_chain d)"
  using chain_grows_start [of E d]
  by (simp add: synced_def chain_grows_def books_balance_def nonces_within_def replays_def mirrors_def reset_chain_def
      empty_chain_def)

lemma synced_mono: "synced E d k bs s \<Longrightarrow> k \<le> l \<Longrightarrow> synced E d l bs s"
  using nonces_within_mono [of k s l] by (simp add: synced_def)

lemma synced_ready:
  assumes "synced E d k bs s" and "within_cap bs" and "length bs + 1 < 2 ^ 64"
  shows "mining_ready s"
  using assms by (auto simp: synced_def within_cap_def mining_ready_def)

lemma synced_submitted:
  assumes syn: "synced E d k bs s" and ok: "submit_transaction E tx s = (Inr (), t)"
    and fit: "sums_fit E tx" and nz: "tx_from tx \<noteq> COINBASE_ADDR" and k: "k < 2 ^ 63"
  shows "synced E d (Suc k) bs t"
proof (cases rule: submit_cases [of E tx s])
  case (accepted a)
  with ok have t: "t = admit tx s" by simp
  from syn have inv: "mempool_inv s" and cg: "contig s" and nw: "nonces_within k s"
    by (simp_all add: synced_def)
  note ex = fit_exact [OF nw k fit]
  have "mempool_inv t" "contig t" "nonces_within (Suc k) t"
    using submit_mempool_inv [OF inv, of tx E] submit_contig [OF inv cg, of tx E] ex ok
      nonces_within_admit [OF nw ex [OF accepted(3)] accepted(3,5,6)] t by simp_all
  moreover have "\<forall>v. replays E v t"
    using syn replays_admit [OF accepted(3)] unfolding t by (simp add: synced_def)
  ultimately show ?thesis
    using syn nz accepted supply_same_balance [OF finite_accounts [OF inv] accepted(3),
        of "reserved tx (fee_c tx) (fee_i tx) a"]
    unfolding t by (simp add: synced_def admit_def)
qed (use ok in simp)

lemma synced_dropped:
  assumes syn: "synced E d k bs s" and ok: "drop_transaction E sender nonce s = (Inr (), t)"
    and top: "\<And>n. (sender, n) \<in> dom (map_of (bc_mempool s)) \<Longrightarrow> n \<le> nonce"
  shows "synced E d k bs t"
proof -
  from syn have inv: "mempool_inv s" and cg: "contig s" and nw: "nonces_within k s"
    by (simp_all add: synced_def)
  show ?thesis
  proof (rule drop_cases [OF inv, of sender nonce E], goal_cases absent dropped)
    case absent
    with ok show ?case by simp
  next
    case (dropped tx a)
    with ok have t: "t = evict tx s" by simp
    have a: "bc_accounts s (tx_from tx) = Some a" using dropped(2,3) by auto
    have "contig t"
      using drop_last_contig [OF inv cg, of sender nonce E] top_is_last [OF inv cg dropped(1) top] ok by simp
    moreover have "mempool_inv t" using drop_mempool_inv [OF inv, of E sender nonce] ok by simp
    moreover have "\<forall>tx\<in>set (pool_txs t). tx_from tx \<noteq> COINBASE_ADDR \<and> verify_signed_tx E tx"
      using a syn by (auto simp: t evict_def AList.delete_eq synced_def)
    moreover have "acc_c (released tx a) = acc_c a" "acc_i (released tx a) = acc_i a"
      by (simp_all add: released_def acc_c_def acc_i_def)
    then have "supply_c (bc_accounts t) = supply_c (bc_accounts s)" "supply_i (bc_accounts t) = supply_i (bc_accounts s)"
      using supply_same_balance [OF finite_accounts [OF inv] a] a by (simp_all add: t evict_def)
    moreover have "\<forall>v. replays E v t"
      using syn replays_evict [OF a] unfolding t by (simp add: synced_def)
    moreover have "nonces_within k t" unfolding t by (rule nonces_within_evict [OF nw a])
    moreover have "bc_chain t = bc_chain s" "bc_difficulty t = bc_difficulty s" "bc_block_height t = bc_block_height s"
      "bc_block_reward_consumer t = bc_block_reward_consumer s" "bc_emission_consumer t = bc_emission_consumer s"
      "bc_block_reward_industrial t = bc_block_reward_industrial s" "bc_emission_industrial t = bc_emission_industrial s"
      using a by (simp_all add: t evict_def)
    ultimately show ?thesis using syn by (simp add: synced_def)
  qed
qed

lemma synced_mined:
  assumes syn: "synced E d k bs s" and ok: "mine_block E miner s = (Inr b, t)"
    and hex: "hex_roundtrip E" and d: "unat d < 2 ^ 32"
    and ids: "distinct (map (tx_id E) (blk_transactions b))" and k: "k < 2 ^ 63"
    and cap: "within_cap bs" "within_cap (bs @ [b])" and len: "length bs + 1 < 2 ^ 64"
  shows "synced E d k (bs @ [b]) t"
proof -
  have rdy: "mining_ready s" by (rule synced_ready [OF syn cap(1) len])
  note sup = mined_supply [OF rdy ok] and inv = mined_invariant [OF rdy ok]
  have max: "nonces_below_max b"
    using syn k by (intro mined_below_max [OF rdy ok]) (simp_all add: synced_def)
  from syn have sgn: "\<forall>tx\<in>set (pool_txs s). verify_signed_tx E tx" and ch: "bc_chain s = bs"
    and cg: "contig s" and dd: "bc_difficulty s = d" by (simp_all add: synced_def)
  have h: "unat (bc_block_height t) = unat (bc_block_height s) + 1"
    by (rule mine_block_success [OF rdy ok]) (use rdy in \<open>simp add: mining_ready_def unat_add_exact\<close>)
  have dec: "unat (tok (decay r)) \<le> unat (tok r)" for r
    using decay_le [of r] by (simp add: less_eq_token_amount_def word_le_nat_alt)
  have "chain_ok E (ucast (bc_difficulty t)) zero_prev_hash (bc_chain t) \<and>
      bc_difficulty t = bc_difficulty s"
    using syn len d by (intro mined_chain_ok [OF rdy cg _ hex _ sgn _ ok ids]) (simp_all add: synced_def)
  moreover have "\<forall>v. replays E v t"
    using syn cap(2) len inv ch
    by (auto intro!: replays_mined [OF rdy ok sgn] simp: synced_def within_cap_def)
  moreover have "contig t" using inv by (intro contig_no_pending) auto
  moreover have "nonces_within k t"
    using nonces_within_mined [OF rdy ok] syn by (simp add: synced_def)
  ultimately show ?thesis
    using syn sup inv max h dec [of "bc_block_reward_consumer s"] dec [of "bc_block_reward_industrial s"]
    by (auto simp: synced_def)
qed

text \<open>What an import leaves of the accounts it copies.\<close>

lemma ledger_inv_strip:
  assumes "ledger_inv A txs"
  shows "ledger_inv (strip_pending A) []"
proof -
  have "dom (strip_pending A) = dom A" by (auto simp: strip_pending_def)
  moreover have "acc_ok [] x (no_pending a)" if "A x = Some a" for x a
    using ledger_invD(2) [OF assms that] by (simp add: acc_ok_def no_pending_def)
  ultimately show ?thesis
    using assms by (auto simp: ledger_inv_def strip_pending_def)
qed

lemma supply_strip [simp]:
  "supply_c (strip_pending A) = supply_c A" "supply_i (strip_pending A) = supply_i A"
proof -
  have d: "dom (strip_pending A) = dom A" by (auto simp: strip_pending_def)
  have "acc_c (no_pending a) = acc_c a" "acc_i (no_pending a) = acc_i a" for a
    by (simp_all add: acc_c_def acc_i_def)
  then show "supply_c (strip_pending A) = supply_c A" "supply_i (strip_pending A) = supply_i A"
    unfolding supply_c_def supply_i_def msum_def d by (auto intro!: sum.cong)
qed

lemma strip_strip [simp]: "strip_pending (strip_pending A) = strip_pending A"
proof -
  have "no_pending (no_pending a) = no_pending a" for a by (simp add: no_pending_def)
  then show ?thesis by (simp add: strip_pending_def option.map_comp comp_def)
qed

lemma replays_mirror:
  assumes "mirrors v s t" and "replays E w s"
  shows "replays E w t"
  using assms by (auto simp: replays_def mirrors_def)

lemma synced_imported:
  assumes src: "synced E d k bs s" and own: "synced E d k cs v" and idle: "bc_mempool v = []"
    and ok: "import_chain E bs v = (Inr (), t)"
  shows "synced E d k bs t"
proof -
  from src have "replays E v s" and ch: "bc_chain s = bs" by (simp_all add: synced_def)
  with import_chain_replay [OF ok] have mir: "mirrors v s t" by (auto simp: replays_def)
  from src have led: "ledger_inv (bc_accounts t) []"
    using ledger_inv_strip mir by (auto simp: synced_def mempool_inv_def mirrors_def)
  have none: "bc_mempool t = []" using mir idle by (simp add: mirrors_def)
  have "contig t"
    using acc_no_pending [OF ledger_invD(2) [OF led]] none by (intro contig_no_pending) auto
  moreover have "mempool_inv t" using led none by (simp add: mempool_inv_def)
  moreover have "nonces_within k t"
  proof -
    have "unat (acc_nonce a) + unat (acc_pending_nonce a) \<le> k" if "bc_accounts t x = Some a" for x a
    proof -
      from that mir obtain a' where "bc_accounts s x = Some a'" "a = no_pending a'"
        by (auto simp: mirrors_def strip_pending_def)
      then show ?thesis using src by (auto simp: synced_def nonces_within_def no_pending_def dest!: spec)
    qed
    then show ?thesis using none by (simp add: nonces_within_def)
  qed
  moreover have "\<forall>w. replays E w t" using src replays_mirror [OF mir] by (simp add: synced_def)
  ultimately show ?thesis
    using src own mir none ch by (auto simp: synced_def mirrors_def)
qed

section \<open>The invariant of the network\<close>

text \<open>The state of node \<open>n\<close> after a history: synced, with the mempool that its own calls say.\<close>

definition node_ok :: "env \<Rightarrow> u64 \<Rightarrow> net_event list \<Rightarrow> string \<Rightarrow> blockchain \<Rightarrow> bool" where
  "node_ok E d es n s \<longleftrightarrow>
     synced E d (length es) (chains es n) s \<and>
     dom (map_of (bc_mempool s)) = pending_keys (own_calls n es)"

definition all_synced :: "env \<Rightarrow> u64 \<Rightarrow> net_event list \<Rightarrow> (string \<Rightarrow> blockchain) \<Rightarrow> bool" where
  "all_synced E d es S \<longleftrightarrow> (\<forall>n. node_ok E d es n (S n))"

lemma all_syncedD: "all_synced E d es S \<Longrightarrow> synced E d (length es) (chains es n) (S n)"
  by (simp add: all_synced_def node_ok_def)

lemma submit_keys:
  assumes "submit_transaction E tx s = (Inr (), t)"
  shows "dom (map_of (bc_mempool t)) = insert (tx_key tx) (dom (map_of (bc_mempool s)))"
  by (cases rule: submit_cases [of E tx s]) (use assms in \<open>auto simp: admit_def\<close>)

lemma drop_keys:
  assumes "mempool_inv s" and "drop_transaction E sender nonce s = (Inr (), t)"
  shows "dom (map_of (bc_mempool t)) = dom (map_of (bc_mempool s)) - {(sender, nonce)}"
  by (rule drop_cases [OF assms(1), of sender nonce E]) (use assms(2) in \<open>auto simp: evict_def delete_conv'\<close>)

lemma node_ok_local:
  assumes ok: "node_ok E d es n s" and step: "node_step E s e t"
    and fair: "fair_history E d (es @ [Local n e])"
  shows "node_ok E d (es @ [Local n e]) n t"
  using step
proof cases
  case (added addr c i)
  with fair show ?thesis by (auto simp: fair_history_def)
next
  case (submitted tx)
  from fair submitted(1) have "sums_fit E tx" "tx_from tx \<noteq> COINBASE_ADDR" "length es < 2 ^ 63"
    by (auto simp: fair_history_def)
  with synced_submitted [of E d "length es" "chains es n" s tx t] submitted ok submit_keys [OF submitted(2)]
  show ?thesis by (simp add: node_ok_def)
next
  case (dropped sender nonce)
  from ok have syn: "synced E d (length es) (chains es n) s"
    and keys: "dom (map_of (bc_mempool s)) = pending_keys (own_calls n es)" by (simp_all add: node_ok_def)
  have inv: "mempool_inv s" using syn by (simp add: synced_def)
  have "leaves_no_gap (own_calls n (es @ [Local n e]))" using fair unfolding fair_history_def by blast
  then have "k \<le> nonce" if "(sender, k) \<in> dom (map_of (bc_mempool s))" for k
    using leaves_no_gap_last that dropped(1) keys by auto
  with synced_mono [OF synced_dropped [OF syn dropped(2)], of "Suc (length es)"] drop_keys [OF inv dropped(2)]
    dropped(1) keys
  show ?thesis by (simp add: node_ok_def)
next
  case (mined miner b)
  from ok have syn: "synced E d (length es) (chains es n) s" by (simp add: node_ok_def)
  from fair mined(1) have "hex_roundtrip E" "unat d < 2 ^ 32" and short: "length es < 2 ^ 63"
    and "distinct (map (tx_id E) (blk_transactions b))"
    by (auto simp: fair_history_def)
  moreover have len: "length (chains es n) + 1 < 2 ^ 64" using length_chains [of es n] short by simp
  moreover have cap: "within_cap (chains es n)" by (rule fair_cap [OF fair_prefix [OF fair]])
  moreover have "within_cap (chains es n @ [b])" using fair_cap [OF fair, of n] mined(1) by simp
  ultimately have "synced E d (length es) (chains es n @ [b]) t"
    using synced_mined [OF syn mined(2)] by simp
  moreover have "bc_mempool t = []" using mined_invariant [OF synced_ready [OF syn cap len] mined(2)] by simp
  ultimately show ?thesis using synced_mono mined(1) by (auto simp: node_ok_def)
qed

lemma node_ok_idle:
  assumes "node_ok E d es n s" and "chains (es @ [e]) n = chains es n" and "own_call n e = []"
  shows "node_ok E d (es @ [e]) n s"
  using assms synced_mono [of E d "length es" "chains es n" s "Suc (length es)"]
  by (simp add: node_ok_def)

lemma node_ok_synced:
  assumes "node_ok E d es m s" and "node_ok E d es n v" and "bc_mempool v = []"
    and "import_chain E (bc_chain s) v = (Inr (), t)"
  shows "node_ok E d (es @ [Synced n m]) n t"
proof -
  from assms(1,2) have syn: "synced E d (length es) (chains es m) s" "synced E d (length es) (chains es n) v"
    by (simp_all add: node_ok_def)
  have "bc_chain s = chains es m" using syn(1) by (simp add: synced_def)
  with synced_imported [OF syn assms(3)] assms(4) have t: "synced E d (length es) (chains es m) t" by simp
  have "bc_mempool t = []"
    using import_chain_replay [OF assms(4)] syn(1) assms(3)
    by (auto simp: synced_def replays_def mirrors_def dest!: spec [of _ v])
  with synced_mono [OF t, of "Suc (length es)"] assms(2,3) show ?thesis by (simp add: node_ok_def)
qed

interpretation network: run_invariant "net_step E" "\<lambda>_. empty_chain d" "fair_history E d" "all_synced E d" for E d
proof unfold_locales
  fix es e S T
  show "fair_history E d es" if "fair_history E d (es @ [e])" using that by (rule fair_prefix)
  have "bc_mempool (empty_chain d) = []" by (simp add: empty_chain_def)
  then show "all_synced E d [] (\<lambda>_. empty_chain d)" by (simp add: all_synced_def node_ok_def synced_start)
  show "all_synced E d (es @ [e]) T"
    if syn: "all_synced E d es S" and "net_step E S e T" and fair: "fair_history E d (es @ [e])"
    using that(2)
  proof cases
    case (local n e' t)
    have "chains (es @ [Local n e']) k = chains es k" if "k \<noteq> n" for k
      using that by (cases e') simp_all
    then show ?thesis
      using syn local fair node_ok_local [of E d es n "S n" e' t] node_ok_idle [of E d es _ _ e]
      by (auto simp: all_synced_def simp del: chains_snoc)
  next
    case (synced m n t)
    then show ?thesis
      using syn node_ok_synced [of E d es m "S m" n "S n" t] node_ok_idle [of E d es _ _ e]
      by (auto simp: all_synced_def)
  qed
qed

section \<open>Properties\<close>

text \<open>
  C4: Agreement, on histories that are \<open>fair_history\<close>: no node opens an account with
  \<open>add_account\<close>, every eviction takes the last pending transaction of its sender, no
  transaction comes from the coinbase address or has sums that wrap, the ids within a block
  are distinct, imports happen at nodes with an empty mempool, the coinbases of no chain
  exceed the maximum supply, the difficulty has 32 bits, hexadecimal decoding inverts
  encoding, and there are fewer than \<open>2^63\<close> calls. Then in every reachable state the chain of every node is valid at all nodes, its
  coinbases pay exactly the coins that exist and the fees, and two nodes with the same chain
  have the same accounts, balances, nonces and rewards up to their own reservations, however
  they came to the chain. (An eviction from the middle and an \<open>add_account\<close> each break it,
  see \<open>Eviction\<close> and \<open>ChainImport\<close>.)
\<close>

theorem network_agreement:
  assumes "run (net_step E) (\<lambda>_. empty_chain d) es S" and "fair_history E d es"
  shows "is_valid_chain_rust E (bc_chain (S n)) (ucast d) = Inr True \<and>
    supply_c (bc_accounts (S n)) + chain_fees_c (bc_chain (S n)) = coinbase_c (bc_chain (S n)) \<and>
    supply_i (bc_accounts (S n)) + chain_fees_i (bc_chain (S n)) = coinbase_i (bc_chain (S n)) \<and>
    (bc_chain (S m) = bc_chain (S n) \<longrightarrow>
       strip_pending (bc_accounts (S m)) = strip_pending (bc_accounts (S n)) \<and>
       bc_block_reward_consumer (S m) = bc_block_reward_consumer (S n) \<and>
       bc_block_reward_industrial (S m) = bc_block_reward_industrial (S n) \<and>
       bc_block_height (S m) = bc_block_height (S n))"
proof -
  from network.inv_run [OF assms] have n: "synced E d (length es) (chains es n) (S n)" and m: "synced E d (length es) (chains es m) (S m)"
    by (rule all_syncedD)+
  from n m obtain u w where "import_blocks E (bc_chain (S n)) (reset_chain (S n)) = (Inr (), u)" "mirrors (S n) (S n) u"
    "import_blocks E (bc_chain (S m)) (reset_chain (S n)) = (Inr (), w)" "mirrors (S n) (S m) w"
    unfolding synced_def replays_def by blast
  then have same: "bc_chain (S m) = bc_chain (S n) \<Longrightarrow>
      strip_pending (bc_accounts (S m)) = strip_pending (bc_accounts (S n)) \<and>
      bc_block_reward_consumer (S m) = bc_block_reward_consumer (S n) \<and>
      bc_block_reward_industrial (S m) = bc_block_reward_industrial (S n)"
    by (auto simp: mirrors_def)
  have "is_valid_chain_rust E (bc_chain (S n)) (ucast d) = Inr True"
    using valid_chain_from_eq [of E "bc_chain (S n)" "ucast d" zero_prev_hash] n assms(2)
    by (simp add: is_valid_chain_rust_def synced_def fair_history_def)
  with n m same show ?thesis by (simp add: synced_def word_unat_eq_iff)
qed

text \<open>
  C6: Synchronisation in the network, on the same \<open>fair_history\<close> (no \<open>add_account\<close>,
  evictions from the end, no transaction from the coinbase address or with sums that wrap,
  distinct ids within a block, imports at nodes with an empty mempool, coinbases within the
  maximum supply, a difficulty of 32 bits, hexadecimal decoding that inverts encoding,
  fewer than \<open>2^63\<close> calls). In every reachable
  state a node with nothing pending can adopt the chain of any node whose chain is longer:
  the import succeeds, never failing half way, and leaves the chain and the ledger of the
  other node, ready to mine. A chain that is not longer is refused and changes nothing.
\<close>

theorem network_sync:
  assumes "run (net_step E) (\<lambda>_. empty_chain d) es S" and "fair_history E d es"
    and "bc_mempool (S n) = []"
  shows "if length (bc_chain (S n)) < length (bc_chain (S m))
    then \<exists>t. net_step E S (Synced n m) (S(n := t)) \<and> bc_chain t = bc_chain (S m) \<and>
           bc_accounts t = strip_pending (bc_accounts (S m)) \<and> mining_ready t
    else import_chain E (bc_chain (S m)) (S n) = (Inl (ValueError ''Incoming chain not longer''), S n)"
proof (cases "length (bc_chain (S n)) < length (bc_chain (S m))")
  case True
  from network.inv_run [OF assms(1,2)] have n: "synced E d (length es) (chains es n) (S n)" and m: "synced E d (length es) (chains es m) (S m)"
    by (rule all_syncedD)+
  from m obtain t where imp: "import_blocks E (bc_chain (S m)) (reset_chain (S n)) = (Inr (), t)"
    and mir: "mirrors (S n) (S m) t"
    unfolding synced_def replays_def by blast
  from m assms(2) have "\<forall>b\<in>set (bc_chain (S m)). nonces_below_max b" and hex: "hex_roundtrip E"
    by (simp_all add: synced_def fair_history_def)
  from import_gate [OF hex this(1), of "S n"] True n m imp
  have ok: "import_chain E (bc_chain (S m)) (S n) = (Inr (), t)" by (simp add: synced_def)
  have ch: "chains es m = bc_chain (S m)" using m by (simp add: synced_def)
  have "length (chains es m) + 1 < 2 ^ 64"
    using length_chains [of es m] assms(2) by (simp add: fair_history_def)
  then have "mining_ready t"
    using synced_ready [OF synced_imported [OF m n assms(3)] fair_cap [OF assms(2)]] ok ch by metis
  with True ok assms(3) mir show ?thesis by (auto simp: mirrors_def net_step_simps)
qed (simp add: import_chain_def)

section \<open>The properties on a concrete network\<close>

text \<open>Every run of a single node is a run of the network in which only that node acts.\<close>

lemma run_lift:
  assumes "run (node_step E) (empty_chain d) es s"
  shows "run (net_step E) (\<lambda>_. empty_chain d) (map (Local n) es) ((\<lambda>_. empty_chain d)(n := s))"
  using assms
proof (induction rule: run.induct)
  case start
  have "(\<lambda>_. empty_chain d)(n := empty_chain d) = (\<lambda>_. empty_chain d)" by auto
  then show ?case by (simp add: run.start)
next
  case (snoc es s e t)
  let ?S = "(\<lambda>_. empty_chain d)(n := s)"
  have "net_step E ?S (Local n e) (?S(n := t))" using snoc.hyps(2) by (intro net_step.local) simp
  from run.snoc [where step = "net_step E", OF snoc.IH this] show ?case
    by (simp only: fun_upd_upd map_append list.map)
qed

text \<open>One node works through the sample run while another stays idle.\<close>

lemma sample_network:
  "\<exists>es S. run (net_step (sample_env Release)) (\<lambda>_. empty_chain 0) es S \<and>
     fair_history (sample_env Release) 0 es \<and> length (bc_chain (S ''n1'')) = 2 \<and> S ''n2'' = empty_chain 0"
proof -
  let ?E = "sample_env Release"
  obtain b1 b2 s where r: "run (node_step ?E) (empty_chain 0)
      [Mined ''alice'' b1, Submitted sample_tx, Mined ''carol'' b2] s"
    and h: "on_chain_history ?E 0 [Mined ''alice'' b1, Submitted sample_tx, Mined ''carol'' b2]"
    and c: "bc_chain s = [b1, b2]" "coinbase_c [b1, b2] \<le> 120000" "coinbase_i [b1, b2] \<le> 120000"
    using sample_run by blast
  let ?es = "map (Local ''n1'') [Mined ''alice'' b1, Submitted sample_tx, Mined ''carol'' b2]"
  have cap: "within_cap []" "within_cap [b1]" "within_cap [b1, b2]"
    using c(2,3) by (simp_all add: within_cap_def coinbase_c_def coinbase_i_def)
  have "within_cap (chains (take k ?es) n)" for k n
  proof -
    consider "k = 0" | "k = 1" | "k = 2" | "take k ?es = ?es" by fastforce
    then show ?thesis using cap by cases (simp_all add: chains_def numeral_2_eq_2)
  qed
  moreover have "leaves_no_gap (own_calls n ?es)" for n
    by (rule leaves_no_gapI) (auto simp: own_calls_def)
  ultimately have "fair_history ?E 0 ?es"
    using h by (auto simp: fair_history_def on_chain_history_def linear_history_def orderly_def mined_blocks_def)
  with run_lift [OF r, of "''n1''"] c(1) show ?thesis
    by (intro exI [of _ ?es] exI [of _ "(\<lambda>_. empty_chain 0)(''n1'' := s)"]) simp
qed

theorem network_agreement_witness:
  "\<exists>es S. run (net_step (sample_env Release)) (\<lambda>_. empty_chain 0) es S \<and> length (bc_chain (S ''n1'')) = 2 \<and>
     is_valid_chain_rust (sample_env Release) (bc_chain (S ''n1'')) 0 = Inr True"
proof -
  obtain es S where r: "run (net_step (sample_env Release)) (\<lambda>_. empty_chain 0) es S"
    and h: "fair_history (sample_env Release) 0 es" and len: "length (bc_chain (S ''n1'')) = 2"
    using sample_network by blast
  from network_agreement [OF r h, of "''n1''" "''n1''"] have
    "is_valid_chain_rust (sample_env Release) (bc_chain (S ''n1'')) 0 = Inr True" by simp
  with r len show ?thesis by blast
qed

theorem network_sync_witness:
  "\<exists>S t. net_step (sample_env Release) S (Synced ''n2'' ''n1'') (S(''n2'' := t)) \<and>
     length (bc_chain t) = 2 \<and> mining_ready t"
proof -
  obtain es S where r: "run (net_step (sample_env Release)) (\<lambda>_. empty_chain 0) es S"
    and h: "fair_history (sample_env Release) 0 es" and len: "length (bc_chain (S ''n1'')) = 2"
    and n2: "S ''n2'' = empty_chain 0"
    using sample_network by blast
  have "bc_mempool (S ''n2'') = []" "bc_chain (S ''n2'') = []" using n2 by (simp_all add: empty_chain_def)
  with network_sync [OF r h, of "''n2''" "''n1''"] len show ?thesis by (metis zero_less_numeral list.size(3))
qed

end
