(* ===== verification/Xtask.thy ===== *)
theory Xtask
  imports Prelude "HOL-Library.Sublist"
begin

text \<open>
  The pull-request check of \<open>xtask/src/main.rs\<close>: it scans the lines of a diff for changes to
  balances and reservations and compares the title with them. Git and the JSON writer are
  parameters; the diff is a list of lines (\<open>None\<close> for a line that is not UTF-8).
\<close>

record summary =
  sum_balance_changed :: bool
  sum_pending_changed :: bool
  sum_title_ok :: bool

definition summary_default :: summary where
  "summary_default = \<lparr>sum_balance_changed = False, sum_pending_changed = False, sum_title_ok = False\<rparr>"

text \<open>\<open>str::contains\<close>.\<close>

fun contains :: "string \<Rightarrow> string \<Rightarrow> bool" where
  "contains [] pat = (pat = [])"
| "contains (c # cs) pat = (prefix pat (c # cs) \<or> contains cs pat)"

definition scan_line :: "summary \<Rightarrow> string option \<Rightarrow> summary" where
  "scan_line s line =
     (case line of
        None \<Rightarrow> s
      | Some content \<Rightarrow>
          (let s = (if contains content ''balance'' then s\<lparr>sum_balance_changed := True\<rparr> else s)
           in if contains content ''pending_'' then s\<lparr>sum_pending_changed := True\<rparr> else s))"

definition judge_title :: "summary \<Rightarrow> string option \<Rightarrow> summary" where
  "judge_title s title =
     (case title of
        None \<Rightarrow> s
      | Some t \<Rightarrow>
          if sum_balance_changed s \<or> sum_pending_changed s
          then s\<lparr>sum_title_ok := prefix ''[core]'' t\<rparr>
          else s\<lparr>sum_title_ok := True\<rparr>)"

text \<open>The command line: \<open>--base\<close> with its default, and an optional \<open>--title\<close>.\<close>

record args =
  arg_base :: string
  arg_title :: "string option"

definition parsed_args :: "string option \<Rightarrow> string option \<Rightarrow> args" where
  "parsed_args base title =
     \<lparr>arg_base = (case base of None \<Rightarrow> ''origin/main'' | Some b \<Rightarrow> b), arg_title = title\<rparr>"

text \<open>
  \<open>diff_from\<close> is what \<open>git2\<close> delivers: the lines of the diff from a base revision to \<open>HEAD\<close>, or
  an error of one of its steps; \<open>to_json\<close> is \<open>serde_json\<close>. The result is the exit status and
  the text on standard output.
\<close>

definition xtask_main ::
  "(string \<Rightarrow> error + string option list) \<Rightarrow> (summary \<Rightarrow> error + string) \<Rightarrow> args \<Rightarrow> (error + unit) \<times> string" where
  "xtask_main diff_from to_json a =
     (case diff_from (arg_base a) of
        Inl e \<Rightarrow> (Inl e, '''')
      | Inr diff \<Rightarrow>
          (let s = judge_title (foldl scan_line summary_default diff) (arg_title a)
           in case to_json s of
                Inl e \<Rightarrow> (Inl e, '''')
              | Inr out \<Rightarrow>
                  (if \<not> sum_title_ok s
                   then Inl (ValueError ''PR title does not match modified areas'') else Inr (), out)))"

lemma contains_sublist: "contains s pat \<longleftrightarrow> sublist pat s"
  by (induction s) (simp_all add: sublist_Cons_right)

lemma scan_line_fields:
  "sum_balance_changed (scan_line s x) \<longleftrightarrow> sum_balance_changed s \<or> (\<exists>l. x = Some l \<and> sublist ''balance'' l)"
  "sum_pending_changed (scan_line s x) \<longleftrightarrow> sum_pending_changed s \<or> (\<exists>l. x = Some l \<and> sublist ''pending_'' l)"
  "sum_title_ok (scan_line s x) = sum_title_ok s"
  by (auto simp: scan_line_def Let_def contains_sublist split: option.split)

lemma scan_lines:
  "sum_balance_changed (foldl scan_line s diff) \<longleftrightarrow>
     sum_balance_changed s \<or> (\<exists>l. Some l \<in> set diff \<and> sublist ''balance'' l)"
  "sum_pending_changed (foldl scan_line s diff) \<longleftrightarrow>
     sum_pending_changed s \<or> (\<exists>l. Some l \<in> set diff \<and> sublist ''pending_'' l)"
  "sum_title_ok (foldl scan_line s diff) = sum_title_ok s"
  by (induction diff arbitrary: s) (auto simp: scan_line_fields)

section \<open>Properties\<close>

text \<open>
  C40: The tool succeeds exactly when the diff can be read, a title is given and, if some line of
  the diff mentions a balance or a reservation, the title starts with \<open>[core]\<close>. So without
  \<open>--title\<close> it always fails, even for a diff that touches nothing of the kind.
\<close>

theorem xtask_passes_iff:
  assumes "\<And>s. \<exists>out. to_json s = Inr out"
  shows "fst (xtask_main diff_from to_json a) = Inr () \<longleftrightarrow>
    (\<exists>diff t. diff_from (arg_base a) = Inr diff \<and> arg_title a = Some t \<and>
       ((\<exists>l. Some l \<in> set diff \<and> (sublist ''balance'' l \<or> sublist ''pending_'' l)) \<longrightarrow>
          prefix ''[core]'' t))"
proof (cases "diff_from (arg_base a)")
  case (Inl e)
  then show ?thesis by (simp add: xtask_main_def)
next
  case (Inr diff)
  let ?s = "judge_title (foldl scan_line summary_default diff) (arg_title a)"
  obtain out where "to_json ?s = Inr out" using assms by blast
  with Inr show ?thesis
    by (cases "arg_title a") (auto simp: xtask_main_def Let_def judge_title_def scan_lines summary_default_def)
qed

theorem xtask_passes_iff_witness:
  "fst (xtask_main (\<lambda>_. Inr [Some ''+balance = 1'']) (\<lambda>_. Inr ''{}'') (parsed_args None (Some ''[core] fix''))) = Inr () \<and>
   fst (xtask_main (\<lambda>_. Inr []) (\<lambda>_. Inr ''{}'') (parsed_args None None)) \<noteq> Inr ()"
  using xtask_passes_iff [of "\<lambda>_. Inr ''{}''" "\<lambda>_. Inr [Some ''+balance = 1'']" "parsed_args None (Some ''[core] fix'')"]
    xtask_passes_iff [of "\<lambda>_. Inr ''{}''" "\<lambda>_. Inr []" "parsed_args None None"]
  by (simp add: parsed_args_def)

end
