(* ===== verification/Backing.thy ===== *)
theory Backing
  imports Mining
begin

text \<open>
  What \<open>mine_block\<close> does to the supply in an arbitrary state, whether or not reservations
  back the mempool. A sender that cannot pay is debited what it has (\<open>saturating_sub\<close>), a
  sender without an account not at all, and the recipient and the miner are credited in
  full: the shortfall of the pending transactions is created from nothing. With the
  reservation invariant the shortfall is 0 and mining conserves the supply.
\<close>

section \<open>The shortfall of a list of transactions\<close>

definition paid_c :: "signed_transaction \<Rightarrow> accounts \<Rightarrow> nat" where
  "paid_c tx A =
     (if tx_from tx = COINBASE_ADDR then 0 else min (tx_total_c tx) (bal_c A (tx_from tx)))"

definition paid_i :: "signed_transaction \<Rightarrow> accounts \<Rightarrow> nat" where
  "paid_i tx A =
     (if tx_from tx = COINBASE_ADDR then 0 else min (tx_total_i tx) (bal_i A (tx_from tx)))"

primrec shortfall_c :: "env \<Rightarrow> signed_transaction list \<Rightarrow> accounts \<Rightarrow> nat" where
  "shortfall_c E [] A = 0"
| "shortfall_c E (tx # txs) A =
     (tx_total_c tx - paid_c tx A) + shortfall_c E txs (snd (apply_mined_tx E tx A))"

primrec shortfall_i :: "env \<Rightarrow> signed_transaction list \<Rightarrow> accounts \<Rightarrow> nat" where
  "shortfall_i E [] A = 0"
| "shortfall_i E (tx # txs) A =
     (tx_total_i tx - paid_i tx A) + shortfall_i E txs (snd (apply_mined_tx E tx A))"

section \<open>Successful steps of an overflow-checked build\<close>

lemma credit_with_room:
  assumes "credit_with add_c add_i addr c i A = (Inr (), B)"
    and "\<And>a b v. add_c a b = Inr v \<Longrightarrow> unat a + unat b < 2 ^ 64 \<and> v = a + b"
    and "\<And>a b v. add_i a b = Inr v \<Longrightarrow> unat a + unat b < 2 ^ 64 \<and> v = a + b"
  shows "room A addr c i" and "B = A(addr \<mapsto> credited c i (or_insert A addr))"
proof -
  from assms(1) obtain v w where v: "add_c (tb_consumer (acc_balance (or_insert A addr))) c = Inr v"
    and w: "add_i (tb_industrial (acc_balance (or_insert A addr))) i = Inr w"
    and B: "B = A(addr \<mapsto> set_industrial w (set_consumer v (or_insert A addr)))"
    by (auto simp: credit_with_def Let_def elim!: and_then_InrE)
  from assms(2) [OF v] assms(3) [OF w] show "room A addr c i"
    unfolding room_def acc_or_insert [symmetric] by (simp add: acc_c_def acc_i_def)
  from assms(2) [OF v] assms(3) [OF w] B show "B = A(addr \<mapsto> credited c i (or_insert A addr))"
    by (simp add: credited_def)
qed

lemma u_add_Debug_room:
  fixes a b v :: u64
  assumes "build E = Debug" and "u_add (build E) a b = Inr v"
  shows "unat a + unat b < 2 ^ 64 \<and> v = a + b"
  using assms u_add_Debug_iff [of a b v] by simp

lemma checked_add_expect_room:
  fixes a b v :: u64
  assumes "checked_add_expect msg a b = Inr v"
  shows "unat a + unat b < 2 ^ 64 \<and> v = a + b"
  using assms by (simp add: checked_add_expect_def checked_add_def split: if_splits)

lemma credit_room:
  assumes "build E = Debug" and "credit E addr c i A = (Inr (), B)"
  shows "room A addr c i" and "B = A(addr \<mapsto> credited c i (or_insert A addr))"
  by (rule credit_with_room [OF assms(2) [unfolded credit_def] u_add_Debug_room [OF assms(1)]
        u_add_Debug_room [OF assms(1)]], assumption+)+

lemma credit_miner_room:
  assumes "credit_miner addr c i A = (Inr (), B)"
  shows "room A addr c i" and "B = A(addr \<mapsto> credited c i (or_insert A addr))"
  by (rule credit_with_room [OF assms [unfolded credit_miner_def] checked_add_expect_room
        checked_add_expect_room], assumption+)+

lemma debit_mined_Debug:
  assumes "build E = Debug" and "debit_mined E tx s = Inr s'"
  shows "acc_c s' = acc_c s - tx_total_c tx" and "acc_i s' = acc_i s - tx_total_i tx"
proof -
  from assms have c: "unat (pl_amount_consumer (tx_payload tx)) + unat (fee_c tx) < 2 ^ LENGTH(64)"
    and i: "unat (pl_amount_industrial (tx_payload tx)) + unat (fee_i tx) < 2 ^ LENGTH(64)"
    and s': "s' = debited tx s"
    by (auto simp: debit_mined_def debited_def u_add_Debug_iff Let_def elim!: bind_res_InrE)
  from c i show "acc_c s' = acc_c s - tx_total_c tx" "acc_i s' = acc_i s - tx_total_i tx"
    unfolding s' by (simp_all add: debited_def Let_def acc_c_def acc_i_def set_consumer_def
        set_industrial_def tx_total_c_def tx_total_i_def unat_add_exact)
qed

lemma debit_sender_supply:
  assumes E: "build E = Debug" and fin: "finite (dom A)" and ok: "debit_sender E tx A = (Inr (), D)"
  shows "finite (dom D)"
    and "supply_c D + paid_c tx A = supply_c A" and "supply_i D + paid_i tx A = supply_i A"
proof -
  consider (skip) "tx_from tx = COINBASE_ADDR \<or> A (tx_from tx) = None" "D = A"
    | (debit) s s' where "tx_from tx \<noteq> COINBASE_ADDR" "A (tx_from tx) = Some s"
        "debit_mined E tx s = Inr s'" "D = A(tx_from tx \<mapsto> s')"
    using ok by (auto simp: debit_sender_def elim!: and_then_InrE split: if_splits option.splits)
  then have "finite (dom D) \<and> supply_c D + paid_c tx A = supply_c A \<and> supply_i D + paid_i tx A = supply_i A"
  proof cases
    case skip
    then show ?thesis using fin by (auto simp: paid_c_def paid_i_def bal_c_def bal_i_def)
  next
    case debit
    have "bal_c A (tx_from tx) = acc_c s" "bal_i A (tx_from tx) = acc_i s"
      using debit(2) by (simp_all add: bal_c_def bal_i_def)
    then show ?thesis
      using supply_point [OF fin, of "tx_from tx" s'] debit_mined_Debug [OF E debit(3)] debit(1) fin
        bal_le_supply [OF fin, of "tx_from tx"]
      by (auto simp: debit(4) paid_c_def paid_i_def min_def)
  qed
  then show "finite (dom D)" "supply_c D + paid_c tx A = supply_c A" "supply_i D + paid_i tx A = supply_i A"
    by simp_all
qed

lemma apply_mined_tx_supply:
  assumes E: "build E = Debug" and fin: "finite (dom A)" and ok: "apply_mined_tx E tx A = (Inr (), B)"
  shows "finite (dom B)"
    and "supply_c B + unat (fee_c tx) = supply_c A + (tx_total_c tx - paid_c tx A)"
    and "supply_i B + unat (fee_i tx) = supply_i A + (tx_total_i tx - paid_i tx A)"
proof -
  from ok obtain D where D: "debit_sender E tx A = (Inr (), D)"
    and cr: "credit E (tx_to tx) (pl_amount_consumer (tx_payload tx)) (pl_amount_industrial (tx_payload tx)) D = (Inr (), B)"
    by (auto simp: apply_mined_tx_def elim!: and_then_InrE)
  note d = debit_sender_supply [OF E fin D] and room = credit_room [OF E cr]
  have "paid_c tx A \<le> tx_total_c tx" "paid_i tx A \<le> tx_total_i tx"
    by (simp_all add: paid_c_def paid_i_def)
  with d(2,3) supply_credited [OF d(1) room(1)] d(1)
  show "finite (dom B)"
    "supply_c B + unat (fee_c tx) = supply_c A + (tx_total_c tx - paid_c tx A)"
    "supply_i B + unat (fee_i tx) = supply_i A + (tx_total_i tx - paid_i tx A)"
    unfolding room(2) tx_total_c_def tx_total_i_def by auto
qed

lemma apply_mined_txs_supply:
  assumes "build E = Debug" and "finite (dom A)" and "apply_mined_txs E txs A = (Inr (), B)"
  shows "finite (dom B) \<and> supply_c B + fees_c txs = supply_c A + shortfall_c E txs A \<and>
    supply_i B + fees_i txs = supply_i A + shortfall_i E txs A"
  using assms(2,3)
proof (induction txs arbitrary: A)
  case Nil
  then show ?case by (simp add: fees_c_def fees_i_def)
next
  case (Cons tx txs)
  from Cons.prems(2) obtain D where D: "apply_mined_tx E tx A = (Inr (), D)"
    and rest: "apply_mined_txs E txs D = (Inr (), B)"
    by (auto elim!: and_then_InrE)
  note d = apply_mined_tx_supply [OF assms(1) Cons.prems(1) D]
  from Cons.IH [OF d(1) rest] d(2,3) D show ?case by (simp add: fees_c_def fees_i_def)
qed

section \<open>A successful mine_block in any state\<close>

lemma on_accounts_iff:
  "on_accounts f s = (r, t) \<longleftrightarrow>
     (\<exists>A. f (bc_accounts s) = (r, A) \<and> t = s\<lparr>bc_accounts := A\<rparr>)"
  by (auto simp: on_accounts_def split: prod.split)

lemma commit_txs_frame:
  assumes "commit_txs E txs s = (r, t)"
  shows "\<exists>B mp. apply_mined_txs E txs (bc_accounts s) = (r, B) \<and>
    t = s\<lparr>bc_accounts := B, bc_mempool := mp\<rparr>"
  using assms
proof (induction txs arbitrary: s)
  case Nil
  then show ?case by (auto intro!: exI [of _ "bc_mempool s"])
next
  case (Cons tx txs)
  obtain q A where A: "apply_mined_tx E tx (bc_accounts s) = (q, A)" by fastforce
  show ?case
  proof (cases q)
    case (Inl e)
    with A Cons.prems show ?thesis
      by (auto simp: on_accounts_def intro!: exI [of _ "bc_mempool s"])
  next
    case (Inr u)
    let ?s = "s\<lparr>bc_accounts := A, bc_mempool := AList.delete (tx_from tx, tx_nonce tx) (bc_mempool s)\<rparr>"
    from Cons.prems A Inr have "commit_txs E txs ?s = (r, t)" by (simp add: on_accounts_def)
    from Cons.IH [OF this] A Inr show ?thesis by auto
  qed
qed

lemma u_add_Debug_unat:
  fixes a b v :: u64
  assumes "build E = Debug" and "u_add (build E) a b = Inr v"
  shows "unat v = unat a + unat b"
  using u_add_Inr_cases(2) [OF assms(2,1)] .

lemma mine_block_steps:
  assumes E: "build E = Debug" and ok: "mine_block E miner s = (Inr b, t)"
  obtains rc ri fc fi cb_c cb_i B where
    "coinbase_amounts rc ri (pending_sorted s) = Inr (fc, fi, cb_c, cb_i)"
    and "blk_transactions b = coinbase_tx miner cb_c cb_i # pending_sorted s"
    and "apply_mined_txs E (pending_sorted s) (bc_accounts s) = (Inr (), B)"
    and "room B miner cb_c cb_i" and "bc_accounts t = B(miner \<mapsto> credited cb_c cb_i (or_insert B miner))"
    and "unat (bc_emission_consumer t) = unat (bc_emission_consumer s) + unat (tok rc)"
    and "unat (bc_emission_industrial t) = unat (bc_emission_industrial s) + unat (tok ri)"
    and "bc_chain t = bc_chain s @ [b]"
proof -
  let ?s1 = "s\<lparr>bc_block_reward_consumer := decay (bc_block_reward_consumer s),
      bc_block_reward_industrial := decay (bc_block_reward_industrial s), bc_mempool := []\<rparr>"
  from ok obtain rc ri am n h where
    am: "coinbase_amounts rc ri (pending_sorted s) = Inr am" and
    cm: "commit_block E miner rc ri
      ((block_template E (prev_hash_of (bc_chain s)) miner s am)\<lparr>blk_nonce := n, blk_hash := h\<rparr>) ?s1 = (Inr b, t)"
    by (auto simp: mine_block_def Let_def prev_hash_of_def block_template_def pending_sorted_def
        elim!: and_then_InrE)
  obtain fc fi cb_c cb_i where q: "am = (fc, fi, cb_c, cb_i)" by (cases am)
  let ?b = "(block_template E (prev_hash_of (bc_chain s)) miner s am)\<lparr>blk_nonce := n, blk_hash := h\<rparr>"
  from cm obtain s2 s3 v w z where
    c2: "commit_txs E (pending_sorted s) (?s1\<lparr>bc_chain := bc_chain s @ [?b]\<rparr>) = (Inr (), s2)" and
    c3: "on_accounts (credit_miner miner cb_c cb_i) s2 = (Inr (), s3)" and
    v: "u_add (build E) (bc_emission_consumer s3) (tok rc) = Inr v" and
    w: "u_add (build E) (bc_emission_industrial s3) (tok ri) = Inr w" and
    p: "persist_chain E (s3\<lparr>bc_emission_consumer := v, bc_emission_industrial := w, bc_block_height := z\<rparr>) = (Inr (), t)"
    and b: "b = ?b"
    by (auto simp: commit_block_def Let_def q template_amounts elim!: and_then_InrE)
  from p have t: "\<exists>d. t = s3\<lparr>bc_emission_consumer := v, bc_emission_industrial := w,
      bc_block_height := z, bc_db := d\<rparr>"
    by (auto simp: persist_chain_eq split: option.splits)
  from commit_txs_frame [OF c2] obtain B mp where
    B: "apply_mined_txs E (pending_sorted s) (bc_accounts s) = (Inr (), B)" and
    s2: "s2 = ?s1\<lparr>bc_chain := bc_chain s @ [?b], bc_accounts := B, bc_mempool := mp\<rparr>" by auto
  from c3 obtain C where C: "credit_miner miner cb_c cb_i B = (Inr (), C)" and
    s3: "s3 = s2\<lparr>bc_accounts := C\<rparr>" by (auto simp: on_accounts_iff s2)
  note cr = credit_miner_room [OF C]
  show ?thesis
  proof (rule that [of rc ri fc fi cb_c cb_i B])
    show "coinbase_amounts rc ri (pending_sorted s) = Inr (fc, fi, cb_c, cb_i)" using am q by simp
    show "blk_transactions b = coinbase_tx miner cb_c cb_i # pending_sorted s"
      unfolding b q by (simp add: template_amounts)
    show "apply_mined_txs E (pending_sorted s) (bc_accounts s) = (Inr (), B)" by (rule B)
    show "room B miner cb_c cb_i" by (rule cr(1))
    show "bc_accounts t = B(miner \<mapsto> credited cb_c cb_i (or_insert B miner))"
      using t cr(2) s3 by auto
    show "unat (bc_emission_consumer t) = unat (bc_emission_consumer s) + unat (tok rc)"
      using t u_add_Debug_unat [OF E v] by (auto simp: s3 s2)
    show "unat (bc_emission_industrial t) = unat (bc_emission_industrial s) + unat (tok ri)"
      using t u_add_Debug_unat [OF E w] by (auto simp: s3 s2)
    show "bc_chain t = bc_chain s @ [b]" using t by (auto simp: s3 s2 b)
  qed
qed

lemma coinbase_amounts_exact:
  assumes "coinbase_amounts rc ri txs = Inr (fc, fi, cb_c, cb_i)"
  shows "unat cb_c = unat (tok rc) + fees_c txs" and "unat cb_i = unat (tok ri) + fees_i txs"
proof -
  from assms have f: "u64_try_from (fees_c txs) = Some fc" "u64_try_from (fees_i txs) = Some fi"
    and a: "checked_add (tok rc) fc = Some cb_c" "checked_add (tok ri) fi = Some cb_i"
    by (auto simp: coinbase_amounts_def checked_fee_def fee_totals_eq elim!: bind_res_InrE
        split: option.splits)
  from checked_add_SomeD(1) [OF a(1)] checked_add_SomeD(1) [OF a(2)] u64_try_from_SomeD [OF f(1)]
    u64_try_from_SomeD [OF f(2)]
  show "unat cb_c = unat (tok rc) + fees_c txs" "unat cb_i = unat (tok ri) + fees_i txs" by simp_all
qed

lemma mined_supply_any:
  assumes E: "build E = Debug" and fin: "finite (dom (bc_accounts s))"
    and ok: "mine_block E miner s = (Inr b, t)"
  shows "supply_c (bc_accounts t) + unat (bc_emission_consumer s) =
      supply_c (bc_accounts s) + unat (bc_emission_consumer t) +
      shortfall_c E (pending_sorted s) (bc_accounts s)"
    and "supply_i (bc_accounts t) + unat (bc_emission_industrial s) =
      supply_i (bc_accounts s) + unat (bc_emission_industrial t) +
      shortfall_i E (pending_sorted s) (bc_accounts s)"
proof -
  obtain rc ri fc fi cb_c cb_i B where
    am: "coinbase_amounts rc ri (pending_sorted s) = Inr (fc, fi, cb_c, cb_i)" and
    B: "apply_mined_txs E (pending_sorted s) (bc_accounts s) = (Inr (), B)" and
    room: "room B miner cb_c cb_i" and
    t: "bc_accounts t = B(miner \<mapsto> credited cb_c cb_i (or_insert B miner))" and
    em: "unat (bc_emission_consumer t) = unat (bc_emission_consumer s) + unat (tok rc)"
      "unat (bc_emission_industrial t) = unat (bc_emission_industrial s) + unat (tok ri)"
    by (rule mine_block_steps [OF E ok])
  from apply_mined_txs_supply [OF E fin B] have
    sup: "supply_c B + fees_c (pending_sorted s) = supply_c (bc_accounts s) + shortfall_c E (pending_sorted s) (bc_accounts s)"
      "supply_i B + fees_i (pending_sorted s) = supply_i (bc_accounts s) + shortfall_i E (pending_sorted s) (bc_accounts s)"
    and finB: "finite (dom B)" by simp_all
  from sup supply_credited [OF finB room] coinbase_amounts_exact [OF am] em
  show "supply_c (bc_accounts t) + unat (bc_emission_consumer s) =
      supply_c (bc_accounts s) + unat (bc_emission_consumer t) +
      shortfall_c E (pending_sorted s) (bc_accounts s)"
    "supply_i (bc_accounts t) + unat (bc_emission_industrial s) =
      supply_i (bc_accounts s) + unat (bc_emission_industrial t) +
      shortfall_i E (pending_sorted s) (bc_accounts s)"
    unfolding t by simp_all
qed

text \<open>Transactions whose senders have no account, as a mempool may hold after an import.\<close>

lemma shortfall_single:
  assumes "A (tx_from tx) = None"
  shows "shortfall_c E [tx] A = tx_total_c tx" and "shortfall_i E [tx] A = tx_total_i tx"
  using assms by (simp_all add: paid_c_def paid_i_def bal_c_def bal_i_def)

section \<open>Properties\<close>

text \<open>
  C17: The supply equation of \<open>mine_block\<close> in an arbitrary state of an overflow-checked build:
  every success adds to the sum of all balances exactly what the emission counter gained
  plus the shortfall of the pending transactions, the part of amounts and fees that their
  senders did not have. So mining is conservative precisely when nothing falls short.
\<close>

theorem mine_block_supply_equation:
  assumes "build E = Debug" and "finite (dom (bc_accounts s))" and "mine_block E miner s = (Inr b, t)"
  shows "supply_c (bc_accounts t) + unat (bc_emission_consumer s) =
      supply_c (bc_accounts s) + unat (bc_emission_consumer t) +
      shortfall_c E (pending_sorted s) (bc_accounts s) \<and>
    supply_i (bc_accounts t) + unat (bc_emission_industrial s) =
      supply_i (bc_accounts s) + unat (bc_emission_industrial t) +
      shortfall_i E (pending_sorted s) (bc_accounts s)"
  using mined_supply_any [OF assms] by simp

theorem mine_block_supply_equation_witness:
  "\<exists>b t. mine_block (sample_env Debug) ''carol'' sample_pool = (Inr b, t) \<and>
     supply_c (bc_accounts t) = 100 + unat (bc_emission_consumer t)"
proof -
  obtain b t where m: "mine_block (sample_env Debug) ''carol'' sample_pool = (Inr b, t)"
    using sample_mine by blast
  have A: "bc_accounts sample_pool = [''alice'' \<mapsto> reserved sample_tx 2 1 (credited 100 100 (zero_account ''alice''))]"
    and e: "bc_emission_consumer sample_pool = 0"
    by (simp_all add: sample_pool_def admit_def sample_fees sample_payload_def)
  have r: "acc_c (reserved sample_tx 2 1 (credited 100 100 (zero_account ''alice''))) = 100"
    by (simp add: reserved_def acc_c_def credited_def)
  have sup: "supply_c (bc_accounts sample_pool) = 100"
    unfolding A using r by (simp add: supply_c_def msum_def)
  have "pending_sorted sample_pool = [sample_tx]" by (simp add: pending_sorted_def)
  moreover have "paid_c sample_tx (bc_accounts sample_pool) = tx_total_c sample_tx"
    using r alice_not_coinbase unfolding A by (simp add: paid_c_def bal_c_def tx_total_c_def sample_fees sample_payload_def)
  ultimately have "shortfall_c (sample_env Debug) (pending_sorted sample_pool) (bc_accounts sample_pool) = 0"
    by simp
  moreover have "finite (dom (bc_accounts sample_pool))" unfolding A by simp
  ultimately show ?thesis
    using mine_block_supply_equation [OF _ _ m] m sup e sample_env_fields by auto
qed

end
