(* ===== verification/Calls.thy ===== *)
theory Calls
  imports ChainImport
begin

text \<open>
  Every method of \<open>Blockchain\<close> that changes it, with every outcome: success, error or panic,
  in a debug or a release build, and the attributes that Python may assign. The state type
  is kept by all of them: accounts are stored under their own address, pending
  transactions under their own key.
\<close>

section \<open>What an outcome leaves behind\<close>

definition leaves :: "('s \<Rightarrow> bool) \<Rightarrow> ('s, 'a) outcome \<Rightarrow> bool" where
  "leaves P r \<longleftrightarrow> P (snd r)"

lemma leaves_Pair [simp]: "leaves P (r, s) = P s"
  by (simp add: leaves_def)

lemma leaves_and_then [intro]:
  assumes "leaves P r" and "\<And>x s. P s \<Longrightarrow> leaves P (k x s)"
  shows "leaves P (and_then r k)"
  using assms by (auto simp: leaves_def and_then_def split: prod.split sum.split)

section \<open>The account table\<close>

definition keyed :: "accounts \<Rightarrow> bool" where
  "keyed A \<longleftrightarrow> finite (dom A) \<and> (\<forall>x a. A x = Some a \<longrightarrow> acc_address a = x)"

lemma keyed_simps [simp]: "keyed Map.empty"
  by (simp add: keyed_def)

lemma keyed_upd [intro]: "keyed A \<Longrightarrow> acc_address a = x \<Longrightarrow> keyed (A(x \<mapsto> a))"
  by (auto simp: keyed_def)

lemma keyed_address: "keyed A \<Longrightarrow> A x = Some a \<Longrightarrow> acc_address a = x"
  by (simp add: keyed_def)

lemma keyed_or_insert [simp]: "keyed A \<Longrightarrow> acc_address (or_insert A x) = x"
  by (simp add: keyed_def or_insert_def split: option.split)

lemma credit_with_keyed:
  assumes "keyed A"
  shows "leaves keyed (credit_with add_c add_i addr c i A)"
  using assms unfolding credit_with_def Let_def
  by (intro leaves_and_then) (auto simp del: fun_upd_upd)

lemma debit_sender_keyed:
  assumes "keyed A"
  shows "leaves keyed (debit_sender E tx A)"
proof (cases "A (tx_from tx)")
  case (Some s)
  have "acc_address s' = tx_from tx" if "debit_mined E tx s = Inr s'" for s'
    using that keyed_address [OF assms Some] by (auto simp: debit_mined_def Let_def elim!: bind_res_InrE)
  with Some assms show ?thesis
    by (cases "debit_mined E tx s") (auto simp: debit_sender_def)
qed (use assms in \<open>simp add: debit_sender_def\<close>)

lemma apply_mined_tx_keyed:
  assumes "keyed A"
  shows "leaves keyed (apply_mined_tx E tx A)"
  unfolding apply_mined_tx_def credit_def
  using debit_sender_keyed [OF assms] credit_with_keyed by (intro leaves_and_then) auto

lemma replay_sender_keyed:
  assumes "keyed A"
  shows "leaves keyed (replay_sender E tx A)"
proof (cases "A (tx_from tx)")
  case (Some s)
  have "acc_address (snd (replay_debit E tx s)) = tx_from tx"
    using keyed_address [OF assms Some]
    by (auto simp: replay_debit_def and_then_def Let_def split: prod.split sum.split)
  with Some assms show ?thesis
    by (auto simp: replay_sender_def split: prod.split sum.split)
qed (use assms in \<open>auto simp: replay_sender_def split: sum.split\<close>)

lemma replay_txs_keyed: "keyed A \<Longrightarrow> leaves keyed (replay_txs E txs fc fi A)"
proof (induction txs arbitrary: fc fi A)
  case (Cons tx txs)
  show ?case
    unfolding replay_txs.simps credit_def split_def
    by (intro leaves_and_then replay_sender_keyed credit_with_keyed Cons)
qed simp

section \<open>The state\<close>

definition well_formed :: "blockchain \<Rightarrow> bool" where
  "well_formed s \<longleftrightarrow> keyed (bc_accounts s) \<and> pool_keys_ok (bc_mempool s)"

lemma well_formed_upd [simp]:
  "well_formed (s\<lparr>bc_chain := c\<rparr>) = well_formed s" "well_formed (s\<lparr>bc_db := d\<rparr>) = well_formed s"
  "well_formed (s\<lparr>bc_difficulty := n\<rparr>) = well_formed s"
  "well_formed (s\<lparr>bc_emission_consumer := n\<rparr>) = well_formed s"
  "well_formed (s\<lparr>bc_emission_industrial := n\<rparr>) = well_formed s"
  "well_formed (s\<lparr>bc_block_reward_consumer := r\<rparr>) = well_formed s"
  "well_formed (s\<lparr>bc_block_reward_industrial := r\<rparr>) = well_formed s"
  "well_formed (s\<lparr>bc_block_height := n\<rparr>) = well_formed s"
  by (simp_all add: well_formed_def)

lemma on_accounts_well_formed:
  assumes "\<And>A. keyed A \<Longrightarrow> leaves keyed (f A)" and "well_formed s"
  shows "leaves well_formed (on_accounts f s)"
  using assms by (simp add: on_accounts_def well_formed_def leaves_def split_def)

lemma add_account_well_formed: "well_formed s \<Longrightarrow> well_formed (snd (add_account addr c i s))"
  by (auto simp: add_account_def well_formed_def Let_def)

lemma submit_well_formed:
  assumes "well_formed s"
  shows "well_formed (snd (submit_transaction E tx s))"
proof (cases rule: submit_cases [of E tx s])
  case (accepted a)
  have "acc_address (reserved tx (fee_c tx) (fee_i tx) a) = tx_from tx"
    using assms accepted(3) by (simp add: well_formed_def keyed_def reserved_def)
  with assms accepted pool_keys_ok_snoc [of "bc_mempool s" tx] show ?thesis
    by (auto simp: well_formed_def admit_def)
qed (use assms in simp)

lemma drop_well_formed:
  assumes "well_formed s"
  shows "leaves well_formed (drop_transaction E sender nonce s)"
proof -
  have "well_formed (s\<lparr>bc_mempool := AList.delete (sender, nonce) (bc_mempool s)\<rparr>)"
    using assms pool_keys_ok_delete by (simp add: well_formed_def)
  then show ?thesis
    using assms unfolding drop_transaction_def Let_def
    by (auto split: option.split sum.split intro!: leaves_and_then simp: well_formed_def keyed_def)
qed

lemma commit_txs_well_formed: "well_formed s \<Longrightarrow> leaves well_formed (commit_txs E txs s)"
proof (induction txs arbitrary: s)
  case (Cons tx txs)
  show ?case
    unfolding commit_txs.simps Let_def
  proof (intro leaves_and_then on_accounts_well_formed apply_mined_tx_keyed Cons)
    show "well_formed (s\<lparr>bc_mempool := AList.delete (tx_key tx) (bc_mempool s)\<rparr>)"
      if "well_formed s" for s
      using that pool_keys_ok_delete by (simp add: well_formed_def)
  qed
qed simp

lemma persist_well_formed: "well_formed s \<Longrightarrow> leaves well_formed (persist_chain E s)"
  by (simp add: persist_chain_eq split: option.split)

lemma mine_well_formed:
  assumes "well_formed s"
  shows "leaves well_formed (mine_block E miner s)"
proof -
  have pool: "well_formed (s\<lparr>bc_mempool := []\<rparr>)" if "well_formed s" for s
    using that by (simp add: well_formed_def)
  show ?thesis
    unfolding mine_block_def commit_block_def credit_miner_def Let_def split_def
    by (intro leaves_and_then on_accounts_well_formed credit_with_keyed commit_txs_well_formed
        persist_well_formed) (simp_all add: assms pool)
qed

lemma on_accounts_keyed:
  assumes "\<And>A. keyed A \<Longrightarrow> leaves keyed (f A)" and "keyed (bc_accounts s)"
  shows "leaves (\<lambda>s. keyed (bc_accounts s)) (on_accounts f s)"
  using assms by (simp add: on_accounts_def leaves_def split_def)

lemma import_block_keyed:
  assumes "keyed (bc_accounts s)"
  shows "leaves (\<lambda>s. keyed (bc_accounts s)) (import_block E b s)"
  unfolding import_block_def credit_miner_def Let_def
  by (intro leaves_and_then on_accounts_keyed replay_txs_keyed credit_with_keyed) (simp_all add: assms)

lemma import_blocks_keyed:
  "keyed (bc_accounts s) \<Longrightarrow> leaves (\<lambda>s. keyed (bc_accounts s)) (import_blocks E bs s)"
proof (induction bs arbitrary: s)
  case (Cons b bs)
  show ?case
    unfolding import_blocks.simps by (intro leaves_and_then import_block_keyed Cons)
qed simp

text \<open>An import never touches the mempool, the store or the difficulty.\<close>

definition same_pool :: "blockchain \<Rightarrow> blockchain \<Rightarrow> bool" where
  "same_pool s t \<longleftrightarrow> bc_mempool t = bc_mempool s \<and> bc_difficulty t = bc_difficulty s \<and> bc_db t = bc_db s"

lemma same_pool_refl [simp]: "same_pool s s"
  by (simp add: same_pool_def)

lemma same_pool_upd [simp]:
  "same_pool s (t\<lparr>bc_chain := c\<rparr>) = same_pool s t"
  "same_pool s (t\<lparr>bc_accounts := A\<rparr>) = same_pool s t"
  "same_pool s (t\<lparr>bc_emission_consumer := n\<rparr>) = same_pool s t"
  "same_pool s (t\<lparr>bc_emission_industrial := n\<rparr>) = same_pool s t"
  "same_pool s (t\<lparr>bc_block_reward_consumer := r\<rparr>) = same_pool s t"
  "same_pool s (t\<lparr>bc_block_reward_industrial := r\<rparr>) = same_pool s t"
  "same_pool s (t\<lparr>bc_block_height := n\<rparr>) = same_pool s t"
  by (simp_all add: same_pool_def)

lemma on_accounts_same_pool: "same_pool s t \<Longrightarrow> leaves (same_pool s) (on_accounts f t)"
  by (simp add: on_accounts_def leaves_def split_def)

lemma import_block_same_pool: "same_pool s t \<Longrightarrow> leaves (same_pool s) (import_block E b t)"
  unfolding import_block_def Let_def
  by (intro leaves_and_then on_accounts_same_pool) simp_all

lemma import_blocks_same_pool: "same_pool s t \<Longrightarrow> leaves (same_pool s) (import_blocks E bs t)"
proof (induction bs arbitrary: t)
  case (Cons b bs)
  show ?case
    unfolding import_blocks.simps by (intro leaves_and_then import_block_same_pool Cons)
qed simp

lemma import_chain_same_pool: "leaves (same_pool s) (import_chain E bs s)"
proof -
  have "same_pool s (reset_chain t) = same_pool s t" for t
    by (simp add: reset_chain_def)
  then show ?thesis
    using import_blocks_same_pool unfolding import_chain_def by (auto intro!: leaves_and_then)
qed

lemma import_chain_well_formed:
  assumes "well_formed s"
  shows "leaves well_formed (import_chain E bs s)"
proof -
  have "leaves (\<lambda>t. keyed (bc_accounts t)) (import_chain E bs s)"
    unfolding import_chain_def using assms import_blocks_keyed [of "reset_chain _"]
    by (cases "is_valid_chain_rust E bs (ucast (bc_difficulty s))")
      (simp_all add: well_formed_def reset_chain_def)
  with import_chain_same_pool [of s E bs] assms show ?thesis
    by (simp add: leaves_def same_pool_def well_formed_def)
qed

lemma genesis_well_formed: "well_formed s \<Longrightarrow> leaves well_formed (genesis_block E s)"
  unfolding genesis_block_def Let_def split_def by (intro leaves_and_then) simp_all

section \<open>Calls\<close>

text \<open>
  The methods of \<open>Blockchain\<close> with \<open>&mut self\<close>, and the assignments to its \<open>#[pyo3(set)]\<close>
  fields, which Python makes without any check.
\<close>

datatype call =
    Add_account string u64 u64
  | Submit signed_transaction
  | Drop string u64
  | Mine string
  | Import "block list"
  | Persist
  | Genesis
  | Set_difficulty u64
  | Set_emission_consumer u64
  | Set_emission_industrial u64
  | Set_block_reward_consumer token_amount
  | Set_block_reward_industrial token_amount
  | Set_block_height u64

text \<open>The state after a call, whatever its result.\<close>

primrec after_call :: "env \<Rightarrow> call \<Rightarrow> blockchain \<Rightarrow> blockchain" where
  "after_call E (Add_account addr c i) s = snd (add_account addr c i s)"
| "after_call E (Submit tx) s = snd (submit_transaction E tx s)"
| "after_call E (Drop sender nonce) s = snd (drop_transaction E sender nonce s)"
| "after_call E (Mine miner) s = snd (mine_block E miner s)"
| "after_call E (Import bs) s = snd (import_chain E bs s)"
| "after_call E Persist s = snd (persist_chain E s)"
| "after_call E Genesis s = snd (genesis_block E s)"
| "after_call E (Set_difficulty n) s = s\<lparr>bc_difficulty := n\<rparr>"
| "after_call E (Set_emission_consumer n) s = s\<lparr>bc_emission_consumer := n\<rparr>"
| "after_call E (Set_emission_industrial n) s = s\<lparr>bc_emission_industrial := n\<rparr>"
| "after_call E (Set_block_reward_consumer r) s = s\<lparr>bc_block_reward_consumer := r\<rparr>"
| "after_call E (Set_block_reward_industrial r) s = s\<lparr>bc_block_reward_industrial := r\<rparr>"
| "after_call E (Set_block_height n) s = s\<lparr>bc_block_height := n\<rparr>"

lemma after_call_well_formed: "well_formed s \<Longrightarrow> well_formed (after_call E c s)"
  using add_account_well_formed submit_well_formed drop_well_formed mine_well_formed
    import_chain_well_formed persist_well_formed genesis_well_formed
  by (cases c) (simp_all add: leaves_def)

lemma well_formed_empty: "well_formed (empty_chain d)"
  by (simp add: well_formed_def empty_chain_def)

section \<open>Properties\<close>

text \<open>
  C21: The state type is kept by every sequence of calls, failed and panicking ones and the
  assignments of Python included, in every build: each account is stored under its own
  address, the table is finite, and each pending transaction is stored once, under its own
  sender and nonce.
\<close>

theorem calls_keep_state_type:
  shows "well_formed (fold (after_call E) calls (empty_chain d))"
proof -
  have "well_formed s \<Longrightarrow> well_formed (fold (after_call E) calls s)" for s
    by (induction calls arbitrary: s) (simp_all add: after_call_well_formed)
  then show ?thesis using well_formed_empty by blast
qed

end
