(* ===== verification/Reorg.thy ===== *)
theory Reorg
  imports Backing Calls
begin

text \<open>
  A reorganisation with transactions pending. \<open>import_chain\<close> replaces the accounts and drops
  every reservation, but it keeps the mempool; the next \<open>mine_block\<close> then commits
  transactions that nothing backs.
\<close>

section \<open>Accounts without reservations\<close>

text \<open>After an import no account has a reservation.\<close>

definition unreserved :: "accounts \<Rightarrow> bool" where
  "unreserved A \<longleftrightarrow> strip_pending A = A"

lemma unreserved_iff:
  "unreserved A \<longleftrightarrow> (\<forall>x a. A x = Some a \<longrightarrow> no_pending a = a)"
proof
  assume "unreserved A"
  then have "map_option no_pending (A x) = A x" for x
    by (simp add: unreserved_def strip_pending_def fun_eq_iff)
  then show "\<forall>x a. A x = Some a \<longrightarrow> no_pending a = a" by (metis option.map(2) option.inject)
next
  assume "\<forall>x a. A x = Some a \<longrightarrow> no_pending a = a"
  then have "map_option no_pending (A x) = A x" for x by (cases "A x") auto
  then show "unreserved A" by (simp add: unreserved_def strip_pending_def fun_eq_iff)
qed

lemma unreserved_upd: "unreserved A \<Longrightarrow> no_pending a = a \<Longrightarrow> unreserved (A(x \<mapsto> a))"
  by (auto simp: unreserved_iff)

lemma unreserved_or_insert: "unreserved A \<Longrightarrow> no_pending (or_insert A x) = or_insert A x"
  by (auto simp: unreserved_iff or_insert_def split: option.split)

lemma credit_with_unreserved:
  assumes "unreserved A"
  shows "leaves unreserved (credit_with add_c add_i addr c i A)"
proof -
  have r: "no_pending (or_insert A addr) = or_insert A addr" using assms by (rule unreserved_or_insert)
  show ?thesis
    using assms unfolding credit_with_def Let_def
    by (intro leaves_and_then) (auto intro!: unreserved_upd simp: r simp flip: no_pending_set simp del: fun_upd_upd)
qed

lemma replay_sender_unreserved:
  assumes "unreserved A"
  shows "leaves unreserved (replay_sender E tx A)"
proof (cases "A (tx_from tx)")
  case (Some s)
  then have s: "no_pending s = s" using assms by (simp add: unreserved_iff)
  then have "acc_pending_consumer s = 0" "acc_pending_industrial s = 0" "acc_pending_nonce s = 0"
    by (metis no_pending_def account.select_convs(4-6) account.surjective account.update_convs(4-6))+
  then have "no_pending (snd (replay_debit E tx s)) = snd (replay_debit E tx s)"
    by (auto simp: replay_debit_def no_pending_def and_then_def set_consumer_def set_industrial_def
        Let_def split: prod.split sum.split)
  with Some assms show ?thesis
    by (auto simp: replay_sender_def split: prod.split sum.split intro!: unreserved_upd)
qed (use assms in \<open>auto simp: replay_sender_def split: sum.split\<close>)

lemma replay_txs_unreserved: "unreserved A \<Longrightarrow> leaves unreserved (replay_txs E txs fc fi A)"
proof (induction txs arbitrary: fc fi A)
  case (Cons tx txs)
  show ?case
    unfolding replay_txs.simps credit_def split_def
    by (intro leaves_and_then replay_sender_unreserved credit_with_unreserved Cons)
qed simp

lemma on_accounts_unreserved:
  assumes "\<And>A. unreserved A \<Longrightarrow> leaves unreserved (f A)" and "unreserved (bc_accounts s)"
  shows "leaves (\<lambda>s. unreserved (bc_accounts s)) (on_accounts f s)"
  using assms by (simp add: on_accounts_def leaves_def split_def)

lemma import_block_unreserved:
  assumes "unreserved (bc_accounts s)"
  shows "leaves (\<lambda>s. unreserved (bc_accounts s)) (import_block E b s)"
  unfolding import_block_def credit_miner_def Let_def
  by (intro leaves_and_then on_accounts_unreserved replay_txs_unreserved credit_with_unreserved)
    (simp_all add: assms)

lemma import_blocks_unreserved:
  "unreserved (bc_accounts s) \<Longrightarrow> leaves (\<lambda>s. unreserved (bc_accounts s)) (import_blocks E bs s)"
proof (induction bs arbitrary: s)
  case (Cons b bs)
  show ?case
    unfolding import_blocks.simps by (intro leaves_and_then import_block_unreserved Cons)
qed simp

text \<open>The state that a successful import leaves.\<close>

lemma import_chain_success:
  assumes "import_chain E bs s = (Inr (), u)"
  shows "bc_mempool u = bc_mempool s" and "unreserved (bc_accounts u)" and "finite (dom (bc_accounts u))"
proof -
  show "bc_mempool u = bc_mempool s"
    using import_chain_same_pool [of s E bs] assms by (simp add: leaves_def same_pool_def)
  have imp: "import_blocks E bs (reset_chain s) = (Inr (), u)"
    by (rule import_chain_replay [OF assms])
  have r: "unreserved (bc_accounts (reset_chain s))" by (simp add: reset_chain_def unreserved_iff)
  show "unreserved (bc_accounts u)"
    using import_blocks_unreserved [OF r, of E bs] imp by (simp add: leaves_def)
  have "keyed (bc_accounts (reset_chain s))" by (simp add: reset_chain_def)
  from import_blocks_keyed [OF this, of E bs] imp show "finite (dom (bc_accounts u))"
    by (simp add: leaves_def keyed_def)
qed

lemma stale_breaks_inv:
  assumes "unreserved (bc_accounts u)" and "bc_mempool u \<noteq> []"
  shows "\<not> mempool_inv u"
proof
  assume "mempool_inv u"
  then have led: "ledger_inv (bc_accounts u) (pool_txs u)" by (simp add: mempool_inv_def)
  from assms(2) obtain tx where tx: "tx \<in> set (pool_txs u)" by (cases "bc_mempool u") auto
  from ledger_invD(4) [OF led tx] obtain a where a: "bc_accounts u (tx_from tx) = Some a" by blast
  with assms(1) have "no_pending a = a" by (simp add: unreserved_iff)
  then have "acc_pending_nonce a = 0" by (metis no_pending_def account.select_convs(6) account.surjective
      account.update_convs(6))
  moreover have "unat (acc_pending_nonce a) = load (\<lambda>_. 1) (tx_from tx) (pool_txs u)"
    using ledger_invD(2) [OF led a] by (simp add: acc_ok_def)
  moreover have "1 \<le> load (\<lambda>_. 1) (tx_from tx) (pool_txs u)"
    using load_member [OF tx, of "\<lambda>_. 1"] by simp
  ultimately show False by simp
qed

section \<open>Properties\<close>

text \<open>
  A successful import throws every reservation away and keeps every pending transaction:
  whenever something was pending, the mempool invariant is broken after the import.
\<close>

lemma import_breaks_reservations:
  assumes "import_chain E bs s = (Inr (), u)" and "bc_mempool s \<noteq> []"
  shows "bc_mempool u = bc_mempool s \<and>
    (\<forall>x a. bc_accounts u x = Some a \<longrightarrow> acc_pending_consumer a = 0 \<and>
       acc_pending_industrial a = 0 \<and> acc_pending_nonce a = 0) \<and> \<not> mempool_inv u"
proof -
  note im = import_chain_success [OF assms(1)]
  have "acc_pending_consumer a = 0 \<and> acc_pending_industrial a = 0 \<and> acc_pending_nonce a = 0"
    if "bc_accounts u x = Some a" for x a
  proof -
    from im(2) that have "no_pending a = a" by (auto simp: unreserved_iff)
    then show ?thesis
      by (metis no_pending_def account.select_convs(4-6) account.surjective account.update_convs(4-6))
  qed
  with im(1) stale_breaks_inv [OF im(2)] assms(2) show ?thesis by metis
qed

text \<open>
  C19: Mining after an import can create money. When the sender of the pending transaction
  has no account in the imported ledger, the next block still carries the transaction, and
  the sum of all balances grows by the emission plus its whole amount and fee.
\<close>

theorem import_then_mine_mints:
  assumes "build E = Debug" and "bc_mempool s = [(tx_key tx, tx)]"
    and "import_chain E bs s = (Inr (), u)" and "bc_accounts u (tx_from tx) = None"
    and "mine_block E miner u = (Inr b, t)"
  shows "tx \<in> set (blk_transactions b) \<and>
    supply_c (bc_accounts t) + unat (bc_emission_consumer u) =
      supply_c (bc_accounts u) + unat (bc_emission_consumer t) + tx_total_c tx \<and>
    supply_i (bc_accounts t) + unat (bc_emission_industrial u) =
      supply_i (bc_accounts u) + unat (bc_emission_industrial t) + tx_total_i tx"
proof -
  note im = import_chain_success [OF assms(3)]
  have p: "pending_sorted u = [tx]" using im(1) assms(2) by (simp add: pending_sorted_def)
  have "tx \<in> set (blk_transactions b)"
    by (rule mine_block_steps [OF assms(1,5)]) (simp add: p)
  with mined_supply_any [OF assms(1) im(3) assms(5)] shortfall_single [of "bc_accounts u" tx, OF assms(4)]
  show ?thesis unfolding p by simp
qed

text \<open>
  A node whose emission counter is above the maximum supply cannot mine in an
  overflow-checked build: \<open>cap_reward\<close> subtracts the counter from the maximum.
\<close>

lemma cap_reward_over:
  assumes "build E = Debug" and "emission > max_supply"
  shows "\<exists>msg. cap_reward E max_supply emission reward = Inl (Panic msg)"
proof -
  have "max_supply < emission + tok reward" if "unat emission + unat (tok reward) < 2 ^ 64"
    using assms(2) that by (simp add: word_less_nat_alt unat_add_exact)
  with assms show ?thesis by (auto simp: cap_reward_def u_add_def u_sub_def)
qed

lemma mine_block_over_cap:
  assumes "build E = Debug" and "bc_emission_consumer s > MAX_SUPPLY_CONSUMER"
  shows "\<exists>msg. mine_block E miner s = (Inl (Panic msg),
    s\<lparr>bc_block_reward_consumer := decay (bc_block_reward_consumer s),
      bc_block_reward_industrial := decay (bc_block_reward_industrial s)\<rparr>)"
  using cap_reward_over [OF assms, of "decay (bc_block_reward_consumer s)"]
  by (auto simp: mine_block_def Let_def)

text \<open>
  C20: One forged block stops a fresh node. Neither the chain test nor the import bounds the
  reward, so the node adopts a block whose coinbase pays any amounts; its emission counter is
  then above the maximum supply, and each later \<open>mine_block\<close> of an overflow-checked build
  panics and leaves the counter, the chain and the accounts as they are.
\<close>

theorem forged_coinbase_halts_mining:
  assumes "hex_roundtrip E" and "bc_chain s = []" and "unat (bc_difficulty s) < 2 ^ 32"
    and "\<forall>b. blk_difficulty b = bc_difficulty s \<longrightarrow> (\<exists>n. meets_target E b n)"
    and "build E = Debug" and "c > MAX_SUPPLY_CONSUMER"
  shows "\<exists>b t. import_chain E [b] s = (Inr (), t) \<and>
    get_account_balance t miner = Inr \<lparr>tb_consumer = c, tb_industrial = i\<rparr> \<and>
    circulating_supply t = (c, i) \<and>
    (\<forall>t' m. circulating_supply t' = circulating_supply t \<longrightarrow>
       (\<exists>msg u. mine_block E m t' = (Inl (Panic msg), u) \<and>
          circulating_supply u = (c, i) \<and> bc_chain u = bc_chain t' \<and> bc_accounts u = bc_accounts t'))"
proof -
  from import_accepts_any_coinbase [OF assms(1-4), of miner c i] obtain b t where
    t: "import_chain E [b] s = (Inr (), t)"
      "get_account_balance t miner = Inr \<lparr>tb_consumer = c, tb_industrial = i\<rparr>"
      "circulating_supply t = (c, i)" by blast
  have "\<exists>msg u. mine_block E m t' = (Inl (Panic msg), u) \<and> circulating_supply u = (c, i) \<and>
      bc_chain u = bc_chain t' \<and> bc_accounts u = bc_accounts t'"
    if "circulating_supply t' = circulating_supply t" for t' m
  proof -
    have e: "bc_emission_consumer t' = c" "bc_emission_industrial t' = i"
      using that t(3) by (simp_all add: circulating_supply_def)
    obtain msg where "mine_block E m t' = (Inl (Panic msg),
        t'\<lparr>bc_block_reward_consumer := decay (bc_block_reward_consumer t'),
          bc_block_reward_industrial := decay (bc_block_reward_industrial t')\<rparr>)"
      using mine_block_over_cap [OF assms(5), of t' m] e assms(6) by auto
    then show ?thesis using e by (simp add: circulating_supply_def)
  qed
  with t show ?thesis by blast
qed

theorem forged_coinbase_halts_mining_witness:
  "\<exists>b t msg u. import_chain (sample_env Debug) [b] (empty_chain 0) = (Inr (), t) \<and>
     circulating_supply t = (- 1, - 1) \<and> mine_block (sample_env Debug) ''alice'' t = (Inl (Panic msg), u)"
proof -
  have "MAX_SUPPLY_CONSUMER < - 1" "bc_chain (empty_chain 0) = []" "bc_difficulty (empty_chain 0) = 0"
    by (simp_all add: MAX_SUPPLY_CONSUMER_def empty_chain_def)
  with forged_coinbase_halts_mining [OF sample_laws(2) [of Debug], of "empty_chain 0" "- 1" "''mallory''" "- 1"]
  show ?thesis using sample_meets sample_env_fields(1) [of Debug] by auto metis
qed

lemma sample_import:
  "\<exists>b. import_chain (sample_env Debug) [b] sample_pool = (Inr (),
     (reset_chain sample_pool)\<lparr>bc_accounts := [''mallory'' \<mapsto> credited 7 7 (zero_account ''mallory'')],
        bc_block_reward_consumer := decay (TokenAmount INITIAL_BLOCK_REWARD_CONSUMER),
        bc_block_reward_industrial := decay (TokenAmount INITIAL_BLOCK_REWARD_INDUSTRIAL),
        bc_emission_consumer := 7, bc_emission_industrial := 7,
        bc_chain := [b], bc_block_height := 1\<rparr>)"
proof -
  have "bc_chain sample_pool = []" "bc_difficulty sample_pool = 0"
    by (simp_all add: sample_pool_def admit_def sample_payload_def)
  moreover have "or_insert Map.empty ''mallory'' = zero_account ''mallory''" by (simp add: or_insert_def)
  ultimately show ?thesis
    using import_forged [OF sample_laws(2) [of Debug], of sample_pool, where miner = "''mallory''" and c = 7 and i = 7]
      sample_meets by auto
qed

lemma sample_mints:
  assumes A: "bc_accounts u = [''mallory'' \<mapsto> credited 7 7 (zero_account ''mallory'')]"
    and mp: "bc_mempool u = [((''alice'', 1), sample_tx)]" and d: "bc_difficulty u = 0"
    and r: "bc_block_reward_consumer u = decay (TokenAmount INITIAL_BLOCK_REWARD_CONSUMER)"
      "bc_block_reward_industrial u = decay (TokenAmount INITIAL_BLOCK_REWARD_INDUSTRIAL)"
    and e: "bc_emission_consumer u = 7" "bc_emission_industrial u = 7" "bc_block_height u = 1"
  shows "\<exists>b t. mine_block (sample_env Debug) ''carol'' u = (Inr b, t)"
proof -
  let ?E = "sample_env Debug" and ?dc = "decay (bc_block_reward_consumer u)" and ?di = "decay (bc_block_reward_industrial u)"
  have p: "pending_sorted u = [sample_tx]" using mp by (simp add: pending_sorted_def)
  have dec: "unat (tok (decay (decay x))) \<le> unat (tok x)" for x
    using decay_le [of "decay x"] decay_le [of x] by (simp add: less_eq_token_amount_def word_le_nat_alt)
  have le: "unat (tok ?dc) \<le> 60000" "unat (tok ?di) \<le> 60000"
    using dec [of "TokenAmount INITIAL_BLOCK_REWARD_CONSUMER"] dec [of "TokenAmount INITIAL_BLOCK_REWARD_INDUSTRIAL"]
    unfolding r by (simp_all add: INITIAL_BLOCK_REWARD_CONSUMER_def INITIAL_BLOCK_REWARD_INDUSTRIAL_def)
  from cap_reward_ok [of "bc_emission_consumer u" MAX_SUPPLY_CONSUMER ?dc ?E] le e obtain rc where
    rc: "cap_reward ?E MAX_SUPPLY_CONSUMER (bc_emission_consumer u) ?dc = Inr rc" "unat (tok rc) \<le> 60000" by auto
  from cap_reward_ok [of "bc_emission_industrial u" MAX_SUPPLY_INDUSTRIAL ?di ?E] le e obtain ri where
    ri: "cap_reward ?E MAX_SUPPLY_INDUSTRIAL (bc_emission_industrial u) ?di = Inr ri" "unat (tok ri) \<le> 60000" by auto
  have fees: "fees_c [sample_tx] = 2" "fees_i [sample_tx] = 1" by (simp_all add: sample_fees)
  obtain fc fi cb_c cb_i where
    cb: "coinbase_amounts rc ri (pending_sorted u) = Inr (fc, fi, cb_c, cb_i)"
    and am: "unat cb_c \<le> 60002" "unat cb_i \<le> 60001"
    by (rule coinbase_amounts_ok [of rc "pending_sorted u" ri]) (use rc(2) ri(2) fees p in auto)
  let ?B = "(bc_accounts u)(''bob'' \<mapsto> credited 10 5 (or_insert (bc_accounts u) ''bob''))"
  have "room (bc_accounts u) ''bob'' 10 5" by (simp add: room_def A bal_c_def bal_i_def)
  then have B: "apply_mined_txs ?E (pending_sorted u) (bc_accounts u) = (Inr (), ?B)"
    unfolding p by (simp add: apply_mined_tx_def debit_sender_def A credit_eq) (simp add: sample_payload_def A credit_eq)
  have room: "room ?B ''carol'' cb_c cb_i" using am by (simp add: room_def A bal_c_def bal_i_def)
  have em: "unat (bc_emission_consumer u) + unat (tok rc) < 2 ^ 64"
    "unat (bc_emission_industrial u) + unat (tok ri) < 2 ^ 64" "unat (bc_block_height u) + 1 < 2 ^ 64"
    using e rc(2) ri(2) by simp_all
  let ?b0 = "block_template ?E (prev_hash_of (bc_chain u)) ''carol'' u (fc, fi, cb_c, cb_i)"
  have "\<exists>k. meets_target ?E ?b0 k" using sample_meets [of ?b0] d by simp
  then obtain m h where "pow_search ?E ?b0 0 = Inr (m, h)"
    using pow_search_eval [OF sample_laws(2), of 0 Debug ?b0] by auto
  with mine_block_reduce [OF rc(1) ri(1) cb B room em] show ?thesis
    by (simp add: mined_outcome_def Let_def)
qed

theorem import_then_mine_mints_witness:
  "\<exists>bs u b t. import_chain (sample_env Debug) bs sample_pool = (Inr (), u) \<and>
     mine_block (sample_env Debug) ''carol'' u = (Inr b, t) \<and>
     supply_c (bc_accounts t) + unat (bc_emission_consumer u) =
       supply_c (bc_accounts u) + unat (bc_emission_consumer t) + 12"
proof -
  obtain b0 u where im: "import_chain (sample_env Debug) [b0] sample_pool = (Inr (), u)" and
    u: "u = (reset_chain sample_pool)\<lparr>bc_accounts := [''mallory'' \<mapsto> credited 7 7 (zero_account ''mallory'')],
        bc_block_reward_consumer := decay (TokenAmount INITIAL_BLOCK_REWARD_CONSUMER),
        bc_block_reward_industrial := decay (TokenAmount INITIAL_BLOCK_REWARD_INDUSTRIAL),
        bc_emission_consumer := 7, bc_emission_industrial := 7,
        bc_chain := [b0], bc_block_height := 1\<rparr>"
    using sample_import by blast
  have dz: "bc_difficulty sample_pool = 0" by (simp add: sample_pool_def admit_def sample_payload_def)
  obtain b t where m: "mine_block (sample_env Debug) ''carol'' u = (Inr b, t)"
    using sample_mints [of u] dz by (auto simp: u reset_chain_def)
  have mp: "bc_mempool sample_pool = [(tx_key sample_tx, sample_tx)]" by (simp add: sample_payload_def)
  have none: "bc_accounts u (tx_from sample_tx) = None" by (simp add: u) (simp add: sample_payload_def)
  have "tx_total_c sample_tx = 12" by (simp add: tx_total_c_def sample_fees) (simp add: sample_payload_def)
  with import_then_mine_mints [OF _ mp im none m] im m sample_env_fields(1) [of Debug] show ?thesis by auto
qed

end
