(* ===== verification/LedgerSpec.thy ===== *)
theory LedgerSpec
  imports Prelude
begin

text \<open>
  The abstract ledger that the node has to implement, independent of words, maps,
  reservations and blocks: funds are natural numbers, a payment is possible when the payer
  has the amount and the fee on both sides and when its number is larger than that of the
  payer's payments before. The section on runs says what this promises: no payer is ever
  overdrawn, and no payment is executed twice.
\<close>

section \<open>The machine\<close>

record book =
  funds_c :: "string \<Rightarrow> nat"
  funds_i :: "string \<Rightarrow> nat"
  last_no :: "string \<Rightarrow> nat"

record payment =
  payer :: string
  payee :: string
  sum_c :: nat
  sum_i :: nat
  cost_c :: nat
  cost_i :: nat
  pay_no :: nat

datatype entry =
    Open string nat nat
  | Pay payment
  | Reward string nat nat

definition add_funds :: "string \<Rightarrow> nat \<Rightarrow> nat \<Rightarrow> book \<Rightarrow> book" where
  "add_funds x c i L =
     L\<lparr>funds_c := (funds_c L)(x := funds_c L x + c), funds_i := (funds_i L)(x := funds_i L x + i)\<rparr>"

definition charge :: "payment \<Rightarrow> book \<Rightarrow> book option" where
  "charge p L =
     (let c = sum_c p + cost_c p; i = sum_i p + cost_i p in
      if c \<le> funds_c L (payer p) \<and> i \<le> funds_i L (payer p) \<and> last_no L (payer p) < pay_no p
      then Some (L\<lparr>funds_c := (funds_c L)(payer p := funds_c L (payer p) - c),
                   funds_i := (funds_i L)(payer p := funds_i L (payer p) - i),
                   last_no := (last_no L)(payer p := pay_no p)\<rparr>)
      else None)"

fun exec :: "entry \<Rightarrow> book \<Rightarrow> book option" where
  "exec (Open x c i) L = Some (add_funds x c i L)"
| "exec (Reward x c i) L = Some (add_funds x c i L)"
| "exec (Pay p) L = map_option (add_funds (payee p) (sum_c p) (sum_i p)) (charge p L)"

fun exec_all :: "entry list \<Rightarrow> book \<Rightarrow> book option" where
  "exec_all [] L = Some L"
| "exec_all (e # es) L = Option.bind (exec e L) (exec_all es)"

definition empty_book :: book where
  "empty_book = \<lparr>funds_c = (\<lambda>_. 0), funds_i = (\<lambda>_. 0), last_no = (\<lambda>_. 0)\<rparr>"

lemma exec_all_append: "exec_all (es @ fs) L = Option.bind (exec_all es L) (exec_all fs)"
proof (induction es arbitrary: L)
  case (Cons e es)
  then show ?case by (cases "exec e L") simp_all
qed simp

section \<open>What a run promises\<close>

definition payments :: "entry list \<Rightarrow> payment list" where
  "payments es = concat (map (\<lambda>e. case e of Pay p \<Rightarrow> [p] | _ \<Rightarrow> []) es)"

abbreviation pay_key :: "payment \<Rightarrow> string \<times> nat" where
  "pay_key p \<equiv> (payer p, pay_no p)"

lemma payments_simps [simp]:
  "payments [] = []" "payments (Open x c i # es) = payments es"
  "payments (Reward x c i # es) = payments es" "payments (Pay p # es) = p # payments es"
  "payments (es @ fs) = payments es @ payments fs"
  by (simp_all add: payments_def)

lemma exec_last_no:
  assumes "exec e L = Some L'"
  shows "last_no L x \<le> last_no L' x"
  using assms by (cases e) (auto simp: add_funds_def charge_def Let_def split: if_splits)

text \<open>From a book on, the numbers of a payer only grow; so a payment never comes back.\<close>

lemma exec_all_numbers:
  assumes "exec_all es L = Some L'"
  shows "distinct (map pay_key (payments es)) \<and>
    (\<forall>p\<in>set (payments es). last_no L (payer p) < pay_no p \<and> pay_no p \<le> last_no L' (payer p)) \<and>
    (\<forall>x. last_no L x \<le> last_no L' x)"
  using assms
proof (induction es arbitrary: L)
  case Nil
  then show ?case by simp
next
  case (Cons e es)
  from Cons.prems obtain M where M: "exec e L = Some M" and rest: "exec_all es M = Some L'"
    by (auto split: bind_splits)
  note mono = exec_last_no [OF M] and IH = Cons.IH [OF rest]
  show ?case
  proof (cases e)
    case (Pay p)
    with M have p: "last_no L (payer p) < pay_no p" "last_no M (payer p) = pay_no p"
      by (auto simp: charge_def add_funds_def Let_def split: if_splits)
    with IH have new: "pay_key p \<notin> pay_key ` set (payments es)" by force
    have le: "last_no M x \<le> last_no L' x" for x using IH by blast
    have "pay_no p \<le> last_no L' (payer p)" using le [of "payer p"] p by simp
    moreover have "last_no L x \<le> last_no L' x" for x using mono [of x] le [of x] by simp
    moreover have "last_no L (payer q) < pay_no q" if "q \<in> set (payments es)" for q
      using IH that mono [of "payer q"] by force
    ultimately show ?thesis using IH p new unfolding Pay by auto
  qed (use IH mono in \<open>auto intro: order.strict_trans1 order.trans\<close>)
qed

lemma no_payment_twice:
  "exec_all es L = Some L' \<Longrightarrow> distinct (map pay_key (payments es))"
  using exec_all_numbers by blast

text \<open>The funds of an address are what it received less what it spent.\<close>

primrec received_c :: "string \<Rightarrow> entry \<Rightarrow> nat" where
  "received_c x (Open y c i) = (if x = y then c else 0)"
| "received_c x (Reward y c i) = (if x = y then c else 0)"
| "received_c x (Pay p) = (if x = payee p then sum_c p else 0)"

primrec spent_c :: "string \<Rightarrow> entry \<Rightarrow> nat" where
  "spent_c x (Open y c i) = 0"
| "spent_c x (Reward y c i) = 0"
| "spent_c x (Pay p) = (if x = payer p then sum_c p + cost_c p else 0)"

lemma exec_funds_c:
  assumes "exec e L = Some M"
  shows "funds_c M x + spent_c x e = funds_c L x + received_c x e"
  using assms by (cases e) (auto simp: add_funds_def charge_def Let_def split: if_splits)

lemma exec_all_funds_c:
  assumes "exec_all es L = Some M"
  shows "funds_c M x + sum_list (map (spent_c x) es) = funds_c L x + sum_list (map (received_c x) es)"
  using assms
proof (induction es arbitrary: L)
  case (Cons e es)
  from Cons.prems obtain N where N: "exec e L = Some N" and rest: "exec_all es N = Some M"
    by (auto split: bind_splits)
  from exec_funds_c [OF N, of x] Cons.IH [OF rest] show ?case by simp
qed simp

end
