(* ===== verification/Refinement.thy ===== *)
theory Refinement
  imports Node LedgerSpec
begin

text \<open>
  The node implements the abstract ledger: what its runs do to the accounts is a run of
  \<open>LedgerSpec\<close>, read off the blocks. \<open>ledger_refinement\<close> is the contract (an abstraction of
  the state, the entries of an event, one simulation step), and the node is an instance.
\<close>

section \<open>The contract\<close>

locale ledger_refinement = run_invariant step s0 legal inv
  for step :: "'s \<Rightarrow> 'e \<Rightarrow> 's \<Rightarrow> bool" and s0 legal inv +
  fixes entries :: "'e \<Rightarrow> entry list" and abs :: "'s \<Rightarrow> book"
  assumes abs_start: "abs s0 = empty_book"
    and simulates: "inv es s \<Longrightarrow> step s e t \<Longrightarrow> legal (es @ [e]) \<Longrightarrow>
      exec_all (entries e) (abs s) = Some (abs t)"
begin

lemma refines: "run step s0 es s \<Longrightarrow> legal es \<Longrightarrow>
    exec_all (concat (map entries es)) empty_book = Some (abs s)"
proof (induction rule: run.induct)
  case start
  then show ?case by (simp add: abs_start)
next
  case (snoc es s e t)
  have es: "legal es" using legal_prefix [OF snoc.prems] .
  from simulates [OF inv_run [OF snoc.hyps(1) es] snoc.hyps(2) snoc.prems] snoc.IH [OF es]
  show ?case by (simp add: exec_all_append)
qed

lemma pays_once:
  assumes "run step s0 es s" and "legal es"
  shows "distinct (map pay_key (payments (concat (map entries es))))"
  using no_payment_twice [OF refines [OF assms]] .

end

section \<open>The abstraction\<close>

definition payment_of :: "signed_transaction \<Rightarrow> payment" where
  "payment_of tx =
     \<lparr>payer = tx_from tx, payee = tx_to tx, sum_c = amt_c tx, sum_i = amt_i tx,
      cost_c = unat (fee_c tx), cost_i = unat (fee_i tx), pay_no = unat (tx_nonce tx)\<rparr>"

text \<open>A block says by itself what it does: its payments, then the payment of the miner.\<close>

definition block_entries :: "block \<Rightarrow> entry list" where
  "block_entries b =
     (case blk_transactions b of
        [] \<Rightarrow> []
      | cb # txs \<Rightarrow> map (\<lambda>tx. Pay (payment_of tx)) txs @ [Reward (tx_to cb) (amt_c cb) (amt_i cb)])"

primrec event_entries :: "event \<Rightarrow> entry list" where
  "event_entries (Added addr c i) = [Open addr (unat c) (unat i)]"
| "event_entries (Submitted tx) = []"
| "event_entries (Dropped sender nonce) = []"
| "event_entries (Mined miner b) = block_entries b"

definition book_of :: "accounts \<Rightarrow> book" where
  "book_of A = \<lparr>funds_c = bal_c A, funds_i = bal_i A, last_no = (\<lambda>x. unat (nonce_of A x))\<rparr>"

lemma book_of_simps [simp]:
  "funds_c (book_of A) = bal_c A" "funds_i (book_of A) = bal_i A"
  "last_no (book_of A) x = unat (nonce_of A x)"
  by (simp_all add: book_of_def)

lemma book_eqI:
  assumes "\<And>x. funds_c L x = funds_c M x" and "\<And>x. funds_i L x = funds_i M x"
    and "\<And>x. last_no L x = last_no M x"
  shows "(L :: book) = M"
proof -
  have "funds_c L = funds_c M" "funds_i L = funds_i M" "last_no L = last_no M"
    using assms by auto
  then show ?thesis by (intro book.equality) auto
qed

lemma pay_simulates:
  assumes led: "ledger_inv A (tx # txs)" and set: "settles A [tx] B"
    and no: "nonce_of A (tx_from tx) < tx_nonce tx"
  shows "exec (Pay (payment_of tx)) (book_of A) = Some (book_of B)"
proof -
  obtain a where a: "A (tx_from tx) = Some a" using ledger_invD(4) [OF led] by auto
  have "acc_ok (tx # txs) (tx_from tx) a" using ledger_invD(2) [OF led a] .
  from acc_ok_backed [OF this] a
  have c: "tx_total_c tx \<le> bal_c A (tx_from tx)" and i: "tx_total_i tx \<le> bal_i A (tx_from tx)"
    by (simp_all add: bal_c_def bal_i_def)
  have tot: "amt_c tx + unat (fee_c tx) = tx_total_c tx" "amt_i tx + unat (fee_i tx) = tx_total_i tx"
    by (simp_all add: tx_total_c_def tx_total_i_def amt_c_def amt_i_def)
  from set have sc: "bal_c B x + (if tx_from tx = x then tx_total_c tx else 0) =
      bal_c A x + (if tx_to tx = x then amt_c tx else 0)"
    and si: "bal_i B x + (if tx_from tx = x then tx_total_i tx else 0) =
      bal_i A x + (if tx_to tx = x then amt_i tx else 0)"
    and sn: "nonce_of B x = (if tx_from tx = x then tx_nonce tx else nonce_of A x)" for x
    by (simp_all add: settles_def)
  let ?L = "(book_of A)\<lparr>funds_c := (bal_c A)(tx_from tx := bal_c A (tx_from tx) - tx_total_c tx),
      funds_i := (bal_i A)(tx_from tx := bal_i A (tx_from tx) - tx_total_i tx),
      last_no := (last_no (book_of A))(tx_from tx := unat (tx_nonce tx))\<rparr>"
  have "charge (payment_of tx) (book_of A) = Some ?L"
    using c i no by (simp add: charge_def payment_of_def tot Let_def word_less_nat_alt)
  moreover have "add_funds (tx_to tx) (amt_c tx) (amt_i tx) ?L = book_of B"
  proof (rule book_eqI)
    fix x
    show "funds_c (add_funds (tx_to tx) (amt_c tx) (amt_i tx) ?L) x = funds_c (book_of B) x"
      using sc [of x] c by (auto simp: add_funds_def split: if_splits)
    show "funds_i (add_funds (tx_to tx) (amt_c tx) (amt_i tx) ?L) x = funds_i (book_of B) x"
      using si [of x] i by (auto simp: add_funds_def split: if_splits)
    show "last_no (add_funds (tx_to tx) (amt_c tx) (amt_i tx) ?L) x = last_no (book_of B) x"
      using sn [of x] by (simp add: add_funds_def)
  qed
  ultimately show ?thesis by (simp add: payment_of_def)
qed

text \<open>The numbers of each sender grow along the list, from its last mined one.\<close>

definition rising :: "accounts \<Rightarrow> signed_transaction list \<Rightarrow> bool" where
  "rising A txs \<longleftrightarrow>
     (\<forall>x. sorted_wrt (<) (nonce_of A x # map (\<lambda>tx. tx_nonce tx) (sent_by x txs)))"

lemma rising_Cons:
  assumes "rising A (tx # txs)" and "settles A [tx] B"
  shows "nonce_of A (tx_from tx) < tx_nonce tx" and "rising B txs"
proof -
  have r: "sorted_wrt (<) (nonce_of A x # map (\<lambda>tx. tx_nonce tx) (sent_by x (tx # txs)))" for x
    using assms(1) by (simp only: rising_def)
  from r [of "tx_from tx"] show "nonce_of A (tx_from tx) < tx_nonce tx" by simp
  have n: "nonce_of B x = (if tx_from tx = x then tx_nonce tx else nonce_of A x)" for x
    using assms(2) by (simp add: settles_def)
  show "rising B txs"
    unfolding rising_def
  proof
    fix x
    show "sorted_wrt (<) (nonce_of B x # map (\<lambda>tx. tx_nonce tx) (sent_by x txs))"
      using r [of x] n [of x] by (auto split: if_splits)
  qed
qed

lemma block_payments_simulate:
  assumes "ledger_inv A txs" and "\<forall>tx\<in>set txs. tx_from tx \<noteq> COINBASE_ADDR"
    and "supply_c A < 2 ^ 64" and "supply_i A < 2 ^ 64" and "rising A txs"
    and "apply_mined_txs E txs A = (Inr (), B)"
  shows "exec_all (map (\<lambda>tx. Pay (payment_of tx)) txs) (book_of A) = Some (book_of B)"
  using assms
proof (induction txs arbitrary: A)
  case Nil
  then show ?case by simp
next
  case (Cons tx txs)
  from apply_mined_tx_ok [OF Cons.prems(1), of E] Cons.prems(2-4)
  obtain D where D: "apply_mined_tx E tx A = (Inr (), D)" "ledger_inv D txs" "settles A [tx] D" by auto
  from rising_Cons [OF Cons.prems(5) D(3)] have no: "nonce_of A (tx_from tx) < tx_nonce tx"
    and rise: "rising D txs" .
  have "supply_c D < 2 ^ 64" "supply_i D < 2 ^ 64" using D(3) Cons.prems(3,4) by (simp_all add: settles_def)
  with Cons.IH [OF D(2)] Cons.prems(2,6) D(1) rise
  have "exec_all (map (\<lambda>tx. Pay (payment_of tx)) txs) (book_of D) = Some (book_of B)" by auto
  with pay_simulates [OF Cons.prems(1) D(3) no] show ?case by (simp del: exec.simps)
qed

section \<open>The invariant\<close>

text \<open>Every pending transaction is above the last mined one of its sender.\<close>

definition above :: "blockchain \<Rightarrow> bool" where
  "above s \<longleftrightarrow> (\<forall>tx\<in>set (pool_txs s). nonce_of (bc_accounts s) (tx_from tx) < tx_nonce tx)"

definition sound :: "event list \<Rightarrow> blockchain \<Rightarrow> bool" where
  "sound es s \<longleftrightarrow> books_balance es s \<and> above s \<and> bc_chain s = mined_blocks es"

lemma pending_rising:
  assumes "mempool_inv s" and "above s"
  shows "rising (bc_accounts s) (pending_sorted s)"
  unfolding rising_def
proof
  fix x
  let ?ns = "map (\<lambda>tx. tx_nonce tx) (sent_by x (pending_sorted s))"
  have "sorted_wrt (<) ?ns" by (rule pending_strict [OF assms(1)])
  moreover have "\<forall>n\<in>set ?ns. nonce_of (bc_accounts s) x < n"
    using assms(2) by (auto simp: above_def set_sent_by set_pending_sorted)
  ultimately show "sorted_wrt (<) (nonce_of (bc_accounts s) x # ?ns)" by simp
qed

lemma sound_start: "sound [] (empty_chain d)"
  using books_start [of d] by (simp add: sound_def above_def) (simp add: empty_chain_def)

lemma book_added:
  assumes new: "A addr = None"
  shows "add_funds addr (unat c) (unat i) (book_of A) = book_of (A(addr \<mapsto> credited c i (zero_account addr)))"
  using new by (intro book_eqI)
    (auto simp: add_funds_def bal_c_def bal_i_def nonce_of_def credited_def)

lemma book_rewarded:
  assumes "room B x c i"
  shows "add_funds x (unat c) (unat i) (book_of B) = book_of (B(x \<mapsto> credited c i (or_insert B x)))"
  using acc_credited [OF assms] by (intro book_eqI)
    (auto simp: add_funds_def nonce_of_def or_insert_def split: option.split)

lemma book_same:
  assumes "A x = Some a" and "acc_balance b = acc_balance a" and "acc_nonce b = acc_nonce a"
  shows "book_of (A(x \<mapsto> b)) = book_of A"
  using assms by (intro book_eqI) (auto simp: acc_c_def acc_i_def bal_c_def bal_i_def nonce_of_def)

text \<open>The four kinds of steps: each keeps \<open>sound\<close> and is the abstract run of its entries.\<close>

definition simulated :: "event list \<Rightarrow> blockchain \<Rightarrow> event \<Rightarrow> blockchain \<Rightarrow> bool" where
  "simulated es s e t \<longleftrightarrow>
     sound (es @ [e]) t \<and>
     exec_all (event_entries e) (book_of (bc_accounts s)) = Some (book_of (bc_accounts t))"

lemma simulated_added:
  assumes "sound es s" and ok: "add_account addr c i s = (Inr (), t)"
  shows "simulated es s (Added addr c i) t"
proof -
  have new: "bc_accounts s addr = None" using ok by (auto simp: add_account_def split: if_splits)
  have t: "t = s\<lparr>bc_accounts := (bc_accounts s)(addr \<mapsto> credited c i (zero_account addr))\<rparr>"
    using ok add_account_fresh [OF new, of c i] by simp
  have "nonce_of (bc_accounts t) x = nonce_of (bc_accounts s) x" for x
    using new by (simp add: t nonce_of_def)
  moreover have "books_balance (es @ [Added addr c i]) t"
    using books_added [OF _ ok] assms(1) by (simp add: sound_def)
  ultimately show ?thesis
    using assms(1) book_added [of "bc_accounts s", OF new, of c i] by (simp add: simulated_def sound_def above_def t)
qed

lemma simulated_submitted:
  assumes "sound es s" and ok: "submit_transaction E tx s = (Inr (), t)"
    and fit: "sums_fit E tx" and nz: "tx_from tx \<noteq> COINBASE_ADDR" and len: "length es < 2 ^ 63"
  shows "simulated es s (Submitted tx) t"
proof (cases rule: submit_cases [of E tx s])
  case (accepted a)
  from ok accepted(1) have t: "t = admit tx s" by simp
  let ?r = "reserved tx (fee_c tx) (fee_i tx) a"
  from assms(1) have nw: "nonces_within (length es) s" by (simp add: sound_def books_balance_def)
  have "unat (tx_nonce tx) = unat (acc_nonce a) + unat (acc_pending_nonce a) + 1"
    by (rule accepted_exact(5) [OF fit_exact [OF nw len fit accepted(3)] accepted(5,6)])
  then have "acc_nonce a < tx_nonce tx" by (simp add: word_less_nat_alt)
  moreover have "nonce_of (bc_accounts t) x = nonce_of (bc_accounts s) x" for x
    using accepted(3) by (simp add: t admit_def nonce_of_def reserved_def)
  moreover have "bc_mempool t = bc_mempool s @ [(tx_key tx, tx)]" "bc_chain t = bc_chain s"
    using accepted(3) by (simp_all add: t admit_def)
  ultimately have "above t"
    using assms(1) accepted(3) by (auto simp: sound_def above_def nonce_of_def)
  moreover have "book_of (bc_accounts t) = book_of (bc_accounts s)"
    using accepted(3) book_same [of "bc_accounts s", OF accepted(3), of ?r] by (simp add: t admit_def reserved_def)
  moreover have "books_balance (es @ [Submitted tx]) t"
    using books_submitted [OF _ ok fit nz len] assms(1) by (simp add: sound_def)
  ultimately show ?thesis
    using assms(1) \<open>bc_chain t = bc_chain s\<close> by (simp add: simulated_def sound_def)
qed (use ok in simp)

lemma simulated_dropped:
  assumes "sound es s" and ok: "drop_transaction E sender nonce s = (Inr (), t)"
  shows "simulated es s (Dropped sender nonce) t"
proof -
  from assms(1) have books: "books_balance es s" and ab: "above s" and inv: "mempool_inv s"
    by (simp_all add: sound_def books_balance_def)
  show ?thesis
  proof (rule drop_cases [OF inv, of sender nonce E], goal_cases absent dropped)
    case absent
    with ok show ?case by simp
  next
    case (dropped tx a)
    with ok have t: "t = evict tx s" by simp
    from dropped(2) have f: "tx_from tx = sender" "tx_nonce tx = nonce" by auto
    have "acc_balance (released tx a) = acc_balance a" "acc_nonce (released tx a) = acc_nonce a"
      by (simp_all add: released_def)
    then have bk: "book_of (bc_accounts t) = book_of (bc_accounts s)"
      using book_same [of "bc_accounts s", OF dropped(3), of "released tx a"] dropped(3) f by (simp add: t evict_def)
    then have "last_no (book_of (bc_accounts t)) x = last_no (book_of (bc_accounts s)) x" for x by simp
    then have no: "nonce_of (bc_accounts t) x = nonce_of (bc_accounts s) x" for x
      by (simp add: word_unat_eq_iff)
    have "set (pool_txs t) \<subseteq> set (pool_txs s)"
      using dropped(3) f by (auto simp: t evict_def AList.delete_eq)
    then have "above t" using ab unfolding above_def no by blast
    with books_dropped [OF books ok] bk dropped(3) f assms(1) show ?case
      by (simp add: simulated_def sound_def t evict_def)
  qed
qed

lemma simulated_mined:
  assumes snd: "sound es s" and ord: "orderly E (es @ [Mined miner b])"
    and ok: "mine_block E miner s = (Inr b, t)"
  shows "simulated es s (Mined miner b) t"
proof -
  from snd have books: "books_balance es s" and ab: "above s" and inv: "mempool_inv s"
    by (simp_all add: sound_def books_balance_def)
  have rdy: "mining_ready s" by (rule books_ready [OF books orderly_prefix [OF ord]])
  have led: "ledger_inv (bc_accounts s) (pending_sorted s)"
    using inv ledger_inv_perm [OF mset_pending_sorted] by (auto simp: mempool_inv_def)
  have nz: "\<forall>tx\<in>set (pending_sorted s). tx_from tx \<noteq> COINBASE_ADDR"
    using rdy by (simp add: mining_ready_def set_pending_sorted)
  have sup: "supply_c (bc_accounts s) < 2 ^ 64" "supply_i (bc_accounts s) < 2 ^ 64"
    using rdy by (auto simp: mining_ready_def)
  obtain cb_c cb_i B where
    txs: "blk_transactions b = coinbase_tx miner cb_c cb_i # pending_sorted s"
    and B: "apply_mined_txs E (pending_sorted s) (bc_accounts s) = (Inr (), B)"
    and room: "room B miner cb_c cb_i"
    and t: "bc_accounts t = B(miner \<mapsto> credited cb_c cb_i (or_insert B miner))"
    by (rule mined_ledger [OF rdy ok])
  have "exec_all (event_entries (Mined miner b)) (book_of (bc_accounts s)) = Some (book_of (bc_accounts t))"
    using block_payments_simulate [OF led nz sup pending_rising [OF inv ab] B] book_rewarded [OF room] t
    by (simp add: block_entries_def txs exec_all_append) (simp add: coinbase_tx_def amt_c_def amt_i_def)
  moreover have "sound (es @ [Mined miner b]) t"
    using snd books_mined [OF books ord ok] mined_invariant [OF rdy ok] by (simp add: sound_def above_def)
  ultimately show ?thesis by (simp add: simulated_def)
qed

lemma node_simulates:
  assumes "sound es s" and "node_step E s e t" and ord: "orderly E (es @ [e])"
  shows "simulated es s e t"
  using assms(2)
proof cases
  case (submitted tx)
  from ord submitted(1) have "sums_fit E tx" "tx_from tx \<noteq> COINBASE_ADDR" "length es < 2 ^ 63"
    by (auto simp: orderly_def)
  with simulated_submitted [OF assms(1)] submitted show ?thesis by simp
qed (use assms(1) ord simulated_added simulated_dropped simulated_mined in auto)

interpretation ledger: ledger_refinement "node_step E" "empty_chain d" "orderly E" sound event_entries
  "\<lambda>s. book_of (bc_accounts s)" for E d
proof unfold_locales
  fix es e s t
  show "orderly E es" if "orderly E (es @ [e])" using that by (rule orderly_prefix)
  show "sound [] (empty_chain d)" by (rule sound_start)
  show "sound (es @ [e]) t" "exec_all (event_entries e) (book_of (bc_accounts s)) = Some (book_of (bc_accounts t))"
    if "sound es s" and "node_step E s e t" and "orderly E (es @ [e])"
    using node_simulates [OF that] by (simp_all add: simulated_def)
  show "book_of (bc_accounts (empty_chain d)) = empty_book"
    by (rule book_eqI) (simp_all add: empty_chain_def empty_book_def bal_c_def bal_i_def nonce_of_def)
qed

section \<open>Properties\<close>

definition chain_txs :: "block list \<Rightarrow> signed_transaction list" where
  "chain_txs bs = concat (map (\<lambda>b. drop 1 (blk_transactions b)) bs)"

lemma block_payments: "payments (block_entries b) = map payment_of (drop 1 (blk_transactions b))"
proof -
  have "payments (map (\<lambda>tx. Pay (payment_of tx)) txs) = map payment_of txs" for txs
    by (induction txs) simp_all
  then show ?thesis by (cases "blk_transactions b") (simp_all add: block_entries_def)
qed

lemma run_payments:
  "payments (concat (map event_entries es)) = map payment_of (chain_txs (mined_blocks es))"
proof (induction es)
  case (Cons e es)
  then show ?case
    by (cases e) (simp_all add: chain_txs_def mined_blocks_def block_payments)
qed (simp add: chain_txs_def mined_blocks_def)

text \<open>
  C3: The node refines the abstract ledger. For every orderly run of either build (no
  transaction from the coinbase address, in a release build none with sums that wrap,
  allocations that leave room for the maximum supply, fewer than \<open>2^63\<close> calls; evictions of
  any kind), the account openings and the blocks of the history, executed by the abstract
  machine from the empty book, never fail (no payer is overdrawn, every payment number is
  new) and end in exactly the balances and nonces of the node.
\<close>

theorem node_refines_ledger:
  assumes "run (node_step E) (empty_chain d) es s" and "orderly E es"
  shows "exec_all (concat (map event_entries es)) empty_book = Some (book_of (bc_accounts s))"
  by (rule ledger.refines [OF assms])

text \<open>
  C14: No replay. In the chain of every orderly run no sender uses a nonce twice, across all
  blocks, and the account of the sender has moved past every nonce on the chain.
\<close>

theorem no_replay_on_chain:
  assumes "run (node_step E) (empty_chain d) es s" and "orderly E es"
  shows "distinct (map (\<lambda>tx. tx_key tx) (chain_txs (bc_chain s))) \<and>
    (\<forall>tx\<in>set (chain_txs (bc_chain s)). tx_nonce tx \<le> nonce_of (bc_accounts s) (tx_from tx))"
proof -
  have ch: "bc_chain s = mined_blocks es" using ledger.inv_run [OF assms] by (simp add: sound_def)
  note nums = exec_all_numbers [OF ledger.refines [OF assms]]
  have "distinct (map pay_key (map payment_of (chain_txs (mined_blocks es))))"
    using ledger.pays_once [OF assms] by (simp only: run_payments)
  then have "distinct (map (\<lambda>tx. tx_key tx) (chain_txs (mined_blocks es)))"
    by (simp add: distinct_map inj_on_def payment_of_def comp_def)
  moreover have "tx_nonce tx \<le> nonce_of (bc_accounts s) (tx_from tx)"
    if "tx \<in> set (chain_txs (mined_blocks es))" for tx
    using nums that unfolding run_payments by (auto simp: payment_of_def word_le_nat_alt)
  ultimately show ?thesis unfolding ch by simp
qed

lemma sample_orderly_run:
  obtains b1 b2 s where "run (node_step (sample_env Release)) (empty_chain 0)
      [Mined ''alice'' b1, Submitted sample_tx, Mined ''carol'' b2] s"
    and "orderly (sample_env Release) [Mined ''alice'' b1, Submitted sample_tx, Mined ''carol'' b2]"
    and "bc_chain s = [b1, b2]"
  using sample_run [of Release] by (auto simp: on_chain_history_def linear_history_def)

theorem node_refines_ledger_witness:
  "\<exists>b1 b2 s. run (node_step (sample_env Release)) (empty_chain 0)
     [Mined ''alice'' b1, Submitted sample_tx, Mined ''carol'' b2] s \<and>
     exec_all (block_entries b1 @ block_entries b2) empty_book = Some (book_of (bc_accounts s))"
proof -
  obtain b1 b2 s where r: "run (node_step (sample_env Release)) (empty_chain 0)
      [Mined ''alice'' b1, Submitted sample_tx, Mined ''carol'' b2] s"
    and o: "orderly (sample_env Release) [Mined ''alice'' b1, Submitted sample_tx, Mined ''carol'' b2]"
    by (rule sample_orderly_run)
  from node_refines_ledger [OF r o] r show ?thesis by - (intro exI conjI, rule r, simp)
qed

theorem no_replay_on_chain_witness:
  "\<exists>es s. run (node_step (sample_env Release)) (empty_chain 0) es s \<and> length (bc_chain s) = 2 \<and>
     distinct (map (\<lambda>tx. tx_key tx) (chain_txs (bc_chain s)))"
proof -
  obtain b1 b2 s where r: "run (node_step (sample_env Release)) (empty_chain 0)
      [Mined ''alice'' b1, Submitted sample_tx, Mined ''carol'' b2] s"
    and o: "orderly (sample_env Release) [Mined ''alice'' b1, Submitted sample_tx, Mined ''carol'' b2]"
    and c: "bc_chain s = [b1, b2]"
    by (rule sample_orderly_run)
  from no_replay_on_chain [OF r o] c show ?thesis by - (intro exI conjI, rule r, simp_all)
qed

end
