(* ===== verification/Eviction.thy ===== *)
theory Eviction
  imports Node
begin

text \<open>
  What \<open>drop_transaction\<close> does to a sender with several pending transactions. Dropping the
  last one keeps the pending nonces contiguous (\<open>drop_last_contig\<close>); dropping an earlier
  one leaves a gap that no later submission of the sender can fill.
\<close>

section \<open>The slot of the next nonce\<close>

lemma contig_last_pending:
  assumes inv: "mempool_inv s" and cg: "contig s" and a: "bc_accounts s sender = Some a"
    and tx: "map_of (bc_mempool s) (sender, n) = Some tx"
  shows "\<exists>l. map_of (bc_mempool s) (sender, acc_nonce a + acc_pending_nonce a) = Some l"
    and "n \<le> acc_nonce a + acc_pending_nonce a" and "0 < unat n"
proof -
  let ?last = "unat (acc_nonce a) + unat (acc_pending_nonce a)"
  from inv have keys: "pool_keys_ok (bc_mempool s)" by (simp add: mempool_inv_def)
  have img: "(\<lambda>tx. unat (tx_nonce tx)) ` set (sent_by sender (pool_txs s)) = {unat (acc_nonce a) <.. ?last}"
    using cg a unfolding contig_def by blast
  have "tx \<in> set (pool_txs s)" using tx by (force dest: map_of_SomeD)
  with pool_lookup_key [OF keys tx] have n: "unat n \<in> {unat (acc_nonce a) <.. ?last}"
    unfolding img [symmetric] by (auto simp: set_sent_by)
  then have "?last \<in> {unat (acc_nonce a) <.. ?last}" by auto
  then obtain l where l': "l \<in> set (sent_by sender (pool_txs s))" "?last = unat (tx_nonce l)"
    unfolding img [symmetric] by (rule imageE) simp
  then have l: "l \<in> set (pool_txs s)" "tx_from l = sender" "unat (tx_nonce l) = ?last"
    by (simp_all add: set_sent_by del: set_map)
  have "?last < 2 ^ LENGTH(64)" using unat_bound [of "tx_nonce l"] l(3) by simp
  then have sum: "unat (acc_nonce a + acc_pending_nonce a) = ?last" by (rule unat_add_exact)
  with l have "tx_key l = (sender, acc_nonce a + acc_pending_nonce a)"
    by (simp add: word_unat_eq_iff)
  moreover from l(1) keys have "map_of (bc_mempool s) (tx_key l) = Some l"
    by (force simp: pool_keys_ok_def intro: map_of_is_SomeI)
  ultimately show "\<exists>l. map_of (bc_mempool s) (sender, acc_nonce a + acc_pending_nonce a) = Some l"
    by auto
  show "n \<le> acc_nonce a + acc_pending_nonce a" "0 < unat n"
    using n sum by (simp_all add: word_le_nat_alt)
qed

lemma released_next:
  assumes "0 < unat (acc_pending_nonce a)"
  shows "acc_nonce (released tx a) + acc_pending_nonce (released tx a) + 1 =
    acc_nonce a + acc_pending_nonce a"
proof -
  have "1 \<le> acc_pending_nonce a" using assms by (simp add: word_le_nat_alt)
  then show ?thesis by (auto simp: released_def saturating_sub_def)
qed

lemma middle_drop_blocks:
  assumes inv: "mempool_inv s" and cg: "contig s"
    and next_in: "map_of (bc_mempool s) (sender, nonce + 1) = Some nx"
    and drop: "drop_transaction E sender nonce s = (Inr (), t)" and tx: "tx_from tx = sender"
  shows "\<exists>e. submit_transaction E tx t = (Inl e, t)"
proof (rule drop_cases [OF inv, of sender nonce E], goal_cases absent dropped)
  case absent
  with drop show ?case by simp
next
  case (dropped old a)
  let ?last = "acc_nonce a + acc_pending_nonce a"
  note at = contig_last_pending [OF inv cg dropped(3)]
  have le: "nonce + 1 \<le> ?last" and nz: "0 < unat (nonce + 1)" using at(2,3) [OF next_in] .
  from nz have "1 + nonce \<noteq> 0" by (metis add.commute less_irrefl unat_0)
  from unatSuc [OF this] le have ne: "?last \<noteq> nonce"
    by (auto simp: word_le_nat_alt add.commute)
  have "old \<in> set (sent_by sender (pool_txs s))"
    using dropped(1,2) by (force simp: set_sent_by dest: map_of_SomeD)
  then have "unat (tx_nonce old) \<in> {unat (acc_nonce a) <.. unat (acc_nonce a) + unat (acc_pending_nonce a)}"
    using cg dropped(3) unfolding contig_def by blast
  then have pos: "0 < unat (acc_pending_nonce a)" by auto
  have t: "t = evict old s" using drop dropped(4) by simp
  have acc: "bc_accounts t sender = Some (released old a)"
    and slot: "map_of (bc_mempool t) (sender, ?last) \<noteq> None"
    using dropped(2,3) at(1) [OF dropped(1)] ne by (auto simp: t evict_def delete_conv')
  show ?case
  proof (cases rule: submit_cases [of E tx t])
    case (accepted b)
    with acc tx next_nonce_Inr(1) [OF accepted(6)] released_next [OF pos, of old] slot
    show ?thesis by simp
  qed blast
qed

section \<open>Blocks with a gap\<close>

text \<open>In a strictly sorted list, two members with nothing between them are neighbours.\<close>

lemma strict_neighbours:
  fixes xs :: "u64 list"
  assumes "sorted_wrt (<) xs" and "x \<in> set xs" and "y \<in> set xs" and "x < y"
    and "\<And>z. z \<in> set xs \<Longrightarrow> x < z \<Longrightarrow> \<not> z < y"
  shows "\<exists>as bs. xs = as @ x # y # bs"
proof -
  from assms(2) obtain as cs where xs: "xs = as @ x # cs" by (auto dest: split_list)
  have "y \<in> set cs"
    using assms(1,3,4) by (auto simp: xs sorted_wrt_append)
  then obtain c ds where cs: "cs = c # ds" by (cases cs) auto
  have "c \<le> y" using assms(1) \<open>y \<in> set cs\<close> by (auto simp: xs cs sorted_wrt_append)
  moreover have "x < c" using assms(1) by (auto simp: xs cs sorted_wrt_append)
  ultimately have "c = y" using assms(5) [of c] by (auto simp: xs cs)
  with xs cs show ?thesis by blast
qed

lemma consec_neighbours: "consec n (as @ x # y # bs) \<Longrightarrow> unat y = unat x + 1"
  by (induction as arbitrary: n) auto

lemma nonce_run_neighbours: "nonce_run e (as @ x # y # bs) \<Longrightarrow> y = x + 1"
  by (induction as arbitrary: e) auto

definition gap :: "string \<Rightarrow> u64 \<Rightarrow> signed_transaction list \<Rightarrow> bool" where
  "gap sender n txs \<longleftrightarrow>
     unat n + 2 < 2 ^ 64 \<and> sender \<noteq> COINBASE_ADDR \<and>
     {n, n + 2} \<subseteq> set (map (\<lambda>tx. tx_nonce tx) (sent_by sender txs)) \<and>
     n + 1 \<notin> set (map (\<lambda>tx. tx_nonce tx) (sent_by sender txs))"

lemma gap_neighbours:
  assumes "gap sender n txs" and "sorted_wrt (<) (map (\<lambda>tx. tx_nonce tx) (sent_by sender txs))"
  shows "\<exists>as bs. map (\<lambda>tx. tx_nonce tx) (sent_by sender txs) = as @ n # (n + 2) # bs"
    and "unat (n + 2) = unat n + 2" and "n + 2 \<noteq> n + 1"
proof -
  have u: "unat (n + 2) = unat n + 2" "unat (n + 1) = unat n + 1"
    using assms(1) by (simp_all add: gap_def unat_add_exact)
  then show "unat (n + 2) = unat n + 2" "n + 2 \<noteq> n + 1" by auto
  show "\<exists>as bs. map (\<lambda>tx. tx_nonce tx) (sent_by sender txs) = as @ n # (n + 2) # bs"
  proof (rule strict_neighbours [OF assms(2)])
    show "n < n + 2" using u by (simp add: word_less_nat_alt)
    show "n \<in> set (map (\<lambda>tx. tx_nonce tx) (sent_by sender txs))"
      "n + 2 \<in> set (map (\<lambda>tx. tx_nonce tx) (sent_by sender txs))"
      using assms(1) by (simp_all add: gap_def)
    show "\<not> z < n + 2" if z: "z \<in> set (map (\<lambda>tx. tx_nonce tx) (sent_by sender txs))" "n < z" for z
    proof
      assume "z < n + 2"
      with z(2) u have "unat z = unat (n + 1)" by (simp add: word_less_nat_alt)
      then have "z = n + 1" by (simp add: word_unat_eq_iff)
      with z(1) assms(1) show False by (simp add: gap_def)
    qed
  qed
qed

lemma gap_refused:
  assumes "gap sender n txs" and "sorted_wrt (<) (map (\<lambda>tx. tx_nonce tx) (sent_by sender txs))"
  shows "\<not> nonces_settled A txs" and "\<not> nonce_runs Map.empty txs"
proof -
  from gap_neighbours [OF assms] obtain as bs where
    n: "map (\<lambda>tx. tx_nonce tx) (sent_by sender txs) = as @ n # (n + 2) # bs"
    and u: "unat (n + 2) = unat n + 2" "n + 2 \<noteq> n + 1" by blast
  have s: "sender \<noteq> COINBASE_ADDR" using assms(1) by (simp add: gap_def)
  show "\<not> nonces_settled A txs"
  proof
    assume "nonces_settled A txs"
    then have "\<exists>k. consec k (as @ n # (n + 2) # bs)" unfolding n [symmetric] nonces_settled_def using s by blast
    with u show False by (auto dest: consec_neighbours)
  qed
  show "\<not> nonce_runs Map.empty txs"
  proof
    assume "nonce_runs Map.empty txs"
    then have "nonce_run (Map.empty sender) (as @ n # (n + 2) # bs)"
      unfolding n [symmetric] nonce_runs_def using s by blast
    with u show False by (auto dest: nonce_run_neighbours)
  qed
qed

text \<open>A block mined from a mempool with a gap.\<close>

lemma gap_mined:
  assumes rdy: "mining_ready s" and ok: "mine_block E miner s = (Inr b, t)"
    and g: "gap sender n (pool_txs s)"
  shows "\<exists>cb. blk_transactions b = cb # pending_sorted s"
    and "\<not> nonces_settled A (pending_sorted s)" and "\<not> nonce_runs Map.empty (pending_sorted s)"
proof -
  show "\<exists>cb. blk_transactions b = cb # pending_sorted s"
    by (rule mine_block_success [OF rdy ok]) (simp add: template_amounts)
  have "mempool_inv s" using rdy by (simp add: mining_ready_def)
  then have "sorted_wrt (<) (map (\<lambda>tx. tx_nonce tx) (sent_by sender (pending_sorted s)))"
    by (rule pending_strict)
  moreover have "gap sender n (pending_sorted s)"
    using g by (simp add: gap_def set_sent_by set_pending_sorted)
  ultimately show "\<not> nonces_settled A (pending_sorted s)" "\<not> nonce_runs Map.empty (pending_sorted s)"
    using gap_refused by blast+
qed

lemma drop_makes_gap:
  assumes inv: "mempool_inv s" and drop: "drop_transaction E sender (n + 1) s = (Inr (), t)"
    and lt: "unat n + 2 < 2 ^ 64" and c: "sender \<noteq> COINBASE_ADDR"
    and n: "(sender, n) \<in> dom (map_of (bc_mempool s))" "(sender, n + 2) \<in> dom (map_of (bc_mempool s))"
  shows "gap sender n (pool_txs t)"
proof (rule drop_cases [OF inv, of sender "n + 1" E], goal_cases absent dropped)
  case absent
  with drop show ?case by simp
next
  case (dropped tx a)
  have t: "bc_mempool t = AList.delete (sender, n + 1) (bc_mempool s)"
    using drop dropped by (auto simp: evict_def)
  from inv have keys: "pool_keys_ok (bc_mempool s)" by (simp add: mempool_inv_def)
  have keys_t: "pool_keys_ok (bc_mempool t)" unfolding t by (rule pool_keys_ok_delete [OF keys])
  have in_t: "m \<in> set (map (\<lambda>tx. tx_nonce tx) (sent_by sender (pool_txs t)))"
    if "(sender, m) \<in> dom (map_of (bc_mempool s))" and "m \<noteq> n + 1" for m
  proof -
    from that obtain x where x: "map_of (bc_mempool t) (sender, m) = Some x"
      by (auto simp: t delete_conv')
    from pool_lookup_key [OF keys_t x] have "tx_from x = sender" "tx_nonce x = m" by simp_all
    moreover have "x \<in> set (pool_txs t)" using x by (force dest: map_of_SomeD)
    ultimately have "x \<in> set (sent_by sender (pool_txs t))" "m = tx_nonce x" by (simp_all only: set_sent_by) simp
    then show ?thesis unfolding set_map by (intro image_eqI)
  qed
  have "unat (n + 1) = unat n + 1" "unat (n + 2) = unat n + 2" using lt by (simp_all add: unat_add_exact)
  then have ne: "n \<noteq> n + 1" "n + 2 \<noteq> n + 1" by auto
  have "n + 1 \<notin> set (map (\<lambda>tx. tx_nonce tx) (sent_by sender (pool_txs t)))"
  proof
    assume "n + 1 \<in> set (map (\<lambda>tx. tx_nonce tx) (sent_by sender (pool_txs t)))"
    then obtain k x where "(k, x) \<in> set (bc_mempool t)" "tx_from x = sender" "tx_nonce x = n + 1"
      by (auto simp: set_sent_by)
    with keys_t have "((sender, n + 1), x) \<in> set (bc_mempool t)" by (auto simp: pool_keys_ok_def)
    then show False by (simp add: t AList.delete_eq)
  qed
  with in_t [OF n(1) ne(1)] in_t [OF n(2) ne(2)] lt c show ?case by (simp add: gap_def)
qed

lemma chain_with_bad_block:
  assumes "valid_chain_from E d prev chain = Inr True" and "b \<in> set chain"
  shows "\<exists>prev. valid_chain_block E d prev b = Inr True"
  using assms
proof (induction chain arbitrary: prev)
  case (Cons c chain)
  from Cons.prems(1) have "valid_chain_block E d prev c = Inr True"
    and "valid_chain_from E d (blk_hash c) chain = Inr True"
    by (auto elim!: bind_res_InrE split: if_splits)
  with Cons show ?case by auto
qed simp

lemma drop_leaves_gap:
  assumes inv: "mempool_inv s" and drop: "drop_transaction E sender (n + 1) s = (Inr (), t)"
    and n: "(sender, n) \<in> dom (map_of (bc_mempool s))" "(sender, n + 2) \<in> dom (map_of (bc_mempool s))"
    and lt: "unat n + 2 < 2 ^ 64" and rdy: "mining_ready t"
  shows "gap sender n (pool_txs t)"
proof -
  have "unat (n + 1) = unat n + 1" using lt by (simp add: unat_add_exact)
  then have ne: "n \<noteq> n + 1" by auto
  have "bc_mempool t = AList.delete (sender, n + 1) (bc_mempool s)"
    using drop by (cases rule: drop_cases [OF inv, of sender "n + 1" E]) (auto simp: evict_def)
  with n(1) ne obtain x where x: "map_of (bc_mempool t) (sender, n) = Some x" by (auto simp: delete_conv')
  from rdy have keys: "pool_keys_ok (bc_mempool t)" by (simp add: mining_ready_def mempool_inv_def)
  have "x \<in> set (pool_txs t)" using x by (force dest: map_of_SomeD)
  with pool_lookup_key [OF keys x] rdy have "sender \<noteq> COINBASE_ADDR" by (force simp: mining_ready_def)
  with drop_makes_gap [OF inv drop lt _ n] show ?thesis by simp
qed

section \<open>Properties\<close>

text \<open>
  Dropping a pending transaction whose successor is still pending always succeeds and
  locks its sender out: in every build, no later submission of that sender is accepted,
  not even the dropped transaction itself, since the expected nonce is the one of the last
  pending transaction and that slot is taken.
\<close>

lemma drop_middle_locks_sender:
  assumes "mempool_inv s" and "contig s"
    and "(sender, nonce) \<in> dom (map_of (bc_mempool s))"
    and "(sender, nonce + 1) \<in> dom (map_of (bc_mempool s))"
  shows "\<exists>t. drop_transaction E sender nonce s = (Inr (), t) \<and>
    (\<forall>tx. tx_from tx = sender \<longrightarrow> (\<exists>e. submit_transaction E tx t = (Inl e, t)))"
proof (rule drop_cases [OF assms(1), of sender nonce E], goal_cases absent dropped)
  case absent
  with assms(3) show ?case by auto
next
  case (dropped old a)
  from assms(4) obtain nx where "map_of (bc_mempool s) (sender, nonce + 1) = Some nx" by auto
  from middle_drop_blocks [OF assms(1,2) this dropped(4)] dropped(4) show ?case by blast
qed

text \<open>
  C18: Evicting from the middle makes the node mine a block that nobody accepts. When a
  transaction is dropped while its sender's neighbours on both sides stay pending, and the
  state after it is ready to mine, the next block carries the gap: the node's own
  \<open>validate_block\<close> rejects it, and \<open>is_valid_chain_rust\<close> rejects every chain that contains
  it, whatever the difficulty.
\<close>

theorem eviction_poisons_block:
  assumes "mempool_inv s" and "drop_transaction E sender (n + 1) s = (Inr (), t)"
    and "(sender, n) \<in> dom (map_of (bc_mempool s))" and "(sender, n + 2) \<in> dom (map_of (bc_mempool s))"
    and "unat n + 2 < 2 ^ 64" and "mining_ready t" and "length (bc_mempool t) < 2 ^ 64"
    and "hex_roundtrip E" and "mine_block E miner t = (Inr b, u)"
  shows "validate_block E u b \<noteq> Inr True \<and>
    (\<forall>chain d. b \<in> set chain \<longrightarrow> is_valid_chain_rust E chain d \<noteq> Inr True)"
proof -
  have g: "gap sender n (pool_txs t)" by (rule drop_leaves_gap [OF assms(1-6)])
  obtain cb where txs: "blk_transactions b = cb # pending_sorted t"
    using gap_mined(1) [OF assms(6,9) g] by blast
  have "length (blk_transactions b) \<le> 2 ^ 64" using assms(7) by (simp add: txs pending_sorted_def)
  note len = this
  have "\<not> block_accepted E u b"
    using gap_mined(2) [OF assms(6,9) g] by (simp add: block_accepted_def txs)
  with len have "validate_block E u b \<noteq> Inr True" using validate_block_True_iff by blast
  moreover have "\<not> chain_block_ok E d prev b" for d prev
    using gap_mined(3) [OF assms(6,9) g] by (simp add: chain_block_ok_def txs)
  then have "valid_chain_block E d prev b \<noteq> Inr True" for d prev
    using valid_chain_block_True [OF assms(8) len] by blast
  then have "is_valid_chain_rust E chain d \<noteq> Inr True" if "b \<in> set chain" for chain d
    using that chain_with_bad_block unfolding is_valid_chain_rust_def by blast
  ultimately show ?thesis by blast
qed

text \<open>Alice with two and three pending transactions.\<close>

definition two_pending :: blockchain where
  "two_pending = admit (nonce_tx 2) sample_pool"

definition three_pending :: blockchain where
  "three_pending = admit (nonce_tx 3) two_pending"

lemma nonce_tx_submitted:
  "submit_transaction (sample_env p) (nonce_tx 2) sample_pool = (Inr (), two_pending)"
  "submit_transaction (sample_env p) (nonce_tx 3) two_pending = (Inr (), three_pending)"
proof -
  note simps = admissible_def sample_payload_def tx_total_c_def tx_total_i_def sample_pool_def
    two_pending_def admit_def reserved_def sample_fees credited_def zero_account_def
    set_consumer_def set_industrial_def acc_c_def acc_i_def
  have "admissible (sample_env p) (nonce_tx 2) sample_pool" by (simp add: simps)
  then show "submit_transaction (sample_env p) (nonce_tx 2) sample_pool = (Inr (), two_pending)"
    unfolding two_pending_def by (rule admissible_accepted)
  have "admissible (sample_env p) (nonce_tx 3) two_pending" by (simp add: simps)
  then show "submit_transaction (sample_env p) (nonce_tx 3) two_pending = (Inr (), three_pending)"
    unfolding three_pending_def by (rule admissible_accepted)
qed

lemma pending_states:
  "mempool_inv two_pending" "contig two_pending"
  "bc_mempool two_pending = [((''alice'', 1), sample_tx), ((''alice'', 2), nonce_tx 2)]"
  "mempool_inv three_pending"
  "bc_mempool three_pending =
     [((''alice'', 1), sample_tx), ((''alice'', 2), nonce_tx 2), ((''alice'', 3), nonce_tx 3)]"
  "bc_difficulty three_pending = 0"
proof -
  note sub = nonce_tx_submitted [of Debug]
  show two: "mempool_inv two_pending"
    using submit_mempool_inv [OF sample_pool_inv, of "nonce_tx 2" "sample_env Debug"] sample_exact sub by simp
  show "contig two_pending"
    using submit_contig [OF sample_pool_inv sample_pool_contig, of "nonce_tx 2" "sample_env Debug"]
      sample_exact sub by simp
  show "mempool_inv three_pending"
    using submit_mempool_inv [OF two, of "nonce_tx 3" "sample_env Debug"] sample_exact sub by simp
  show "bc_mempool two_pending = [((''alice'', 1), sample_tx), ((''alice'', 2), nonce_tx 2)]"
    "bc_mempool three_pending =
      [((''alice'', 1), sample_tx), ((''alice'', 2), nonce_tx 2), ((''alice'', 3), nonce_tx 3)]"
    "bc_difficulty three_pending = 0"
    by (simp_all add: three_pending_def two_pending_def admit_def sample_pool_def sample_payload_def)
qed

text \<open>The run in which Alice submits two transactions.\<close>

lemma two_pending_ready: "mining_ready two_pending"
proof -
  let ?E = "sample_env Debug"
  have "node_step ?E (empty_chain 0) (Added ''alice'' 100 100) sample_chain"
    by (rule node_step.added) (simp add: add_account_fresh sample_chain_def empty_chain_def)
  then have "run (node_step ?E) (empty_chain 0)
      ((([] @ [Added ''alice'' 100 100]) @ [Submitted sample_tx]) @ [Submitted (nonce_tx 2)]) two_pending"
    using node_step.submitted [OF sample_submit [of Debug]] node_step.submitted [OF nonce_tx_submitted(1) [of Debug]]
    by (blast intro: run.start run.snoc)
  moreover have "orderly ?E ((([] @ [Added ''alice'' 100 100]) @ [Submitted sample_tx]) @ [Submitted (nonce_tx 2)])"
    by (auto simp: orderly_def alloc_c_def alloc_i_def) (simp_all add: sample_payload_def)
  ultimately show ?thesis using books_ready books.inv_run by blast
qed

text \<open>Her two transactions, iterated in the other order, give the same block, in nonce order.\<close>

theorem mine_block_order_irrelevant_witness:
  "\<exists>b. fst (mine_block (sample_env Debug) ''carol'' two_pending) = Inr b \<and>
     fst (mine_block (sample_env Debug) ''carol'' (two_pending\<lparr>bc_mempool :=
       [((''alice'', 2), nonce_tx 2), ((''alice'', 1), sample_tx)]\<rparr>)) = Inr b \<and>
     map (\<lambda>tx. tx_nonce tx) (drop 1 (blk_transactions b)) = [1, 2]"
proof -
  let ?E = "sample_env Debug"
  have d: "bc_difficulty two_pending = 0"
    by (simp add: two_pending_def admit_def sample_pool_def sample_payload_def)
  obtain b t where m: "mine_block ?E ''carol'' two_pending = (Inr b, t)"
    using sample_mines [OF two_pending_ready d] by blast
  have "map (\<lambda>tx. tx_nonce tx) (pending_sorted two_pending) = [1, 2]"
    by (simp add: pending_sorted_def pending_states(3)) (simp add: sample_payload_def)
  moreover have "drop 1 (blk_transactions b) = pending_sorted two_pending"
    using mined_transactions [OF two_pending_ready m] by auto
  moreover have keys: "pool_keys_ok (bc_mempool two_pending)" using pending_states(1) by (simp add: mempool_inv_def)
  have "mset [((''alice'', 2), nonce_tx 2), ((''alice'', 1), sample_tx)] = mset (bc_mempool two_pending)"
    by (simp add: pending_states(3))
  from mine_block_order_irrelevant [OF keys this, of ?E "''carol''"] have
    "fst (mine_block ?E ''carol'' (two_pending\<lparr>bc_mempool :=
       [((''alice'', 2), nonce_tx 2), ((''alice'', 1), sample_tx)]\<rparr>)) = Inr b" using m by simp
  ultimately show ?thesis using m by (intro exI [of _ b]) simp
qed

text \<open>The run in which Alice evicts the second of three transactions.\<close>

lemma gap_run:
  obtains t where "drop_transaction (sample_env Debug) ''alice'' 2 three_pending = (Inr (), t)"
    and "mining_ready t" and "bc_mempool t = [((''alice'', 1), sample_tx), ((''alice'', 3), nonce_tx 3)]"
    and "bc_difficulty t = 0"
proof -
  let ?E = "sample_env Debug"
  have "\<exists>t. drop_transaction ?E ''alice'' 2 three_pending = (Inr (), t) \<and>
      bc_mempool t = [((''alice'', 1), sample_tx), ((''alice'', 3), nonce_tx 3)] \<and> bc_difficulty t = 0"
    by (rule drop_cases [OF pending_states(4), of "''alice''" 2 ?E])
      (auto simp: evict_def pending_states(5,6))
  then obtain t where t: "drop_transaction ?E ''alice'' 2 three_pending = (Inr (), t)"
    and mp: "bc_mempool t = [((''alice'', 1), sample_tx), ((''alice'', 3), nonce_tx 3)]"
    and d: "bc_difficulty t = 0" by blast
  have "node_step ?E (empty_chain 0) (Added ''alice'' 100 100) sample_chain"
    by (rule node_step.added) (simp add: add_account_fresh sample_chain_def empty_chain_def)
  then have "run (node_step ?E) (empty_chain 0)
      ((((([] @ [Added ''alice'' 100 100]) @ [Submitted sample_tx]) @ [Submitted (nonce_tx 2)]) @
        [Submitted (nonce_tx 3)]) @ [Dropped ''alice'' 2]) t"
    using node_step.submitted [OF sample_submit [of Debug]] node_step.submitted [OF nonce_tx_submitted(1) [of Debug]]
      node_step.submitted [OF nonce_tx_submitted(2) [of Debug]] node_step.dropped [OF t]
    by (blast intro: run.start run.snoc)
  moreover have o: "orderly ?E ((((([] @ [Added ''alice'' 100 100]) @ [Submitted sample_tx]) @
      [Submitted (nonce_tx 2)]) @ [Submitted (nonce_tx 3)]) @ [Dropped ''alice'' 2])"
    by (auto simp: orderly_def alloc_c_def alloc_i_def) (simp_all add: sample_payload_def)
  ultimately have "mining_ready t" using books_ready books.inv_run by blast
  with that t mp d show ?thesis by blast
qed

theorem eviction_poisons_block_witness:
  "\<exists>t b u. drop_transaction (sample_env Debug) ''alice'' 2 three_pending = (Inr (), t) \<and>
     mine_block (sample_env Debug) ''carol'' t = (Inr b, u) \<and>
     validate_block (sample_env Debug) u b \<noteq> Inr True"
proof -
  obtain t where t: "drop_transaction (sample_env Debug) ''alice'' (1 + 1) three_pending = (Inr (), t)"
    and rdy: "mining_ready t" and mp: "bc_mempool t = [((''alice'', 1), sample_tx), ((''alice'', 3), nonce_tx 3)]"
    and d: "bc_difficulty t = 0"
    by (rule gap_run) simp
  obtain b u where m: "mine_block (sample_env Debug) ''carol'' t = (Inr b, u)"
    using sample_mines [OF rdy d] by blast
  from eviction_poisons_block [OF pending_states(4) t _ _ _ rdy _ sample_laws(2) m] t m mp
  show ?thesis by (auto simp: pending_states(5))
qed

end
