(* ===== verification/Bindings.thy ===== *)
theory Bindings
  imports Persistence
begin

text \<open>
  The Python face of the data types (\<open>src/lib.rs\<close>, \<open>src/transaction.rs\<close>): constructors,
  getters, the textual forms of \<open>__repr__\<close> and \<open>Display\<close>, and the table of the module
  \<open>the_block\<close>. The lemmas say how much of a value its textual form determines.
\<close>

section \<open>Decimal text\<close>

text \<open>\<open>format!("{}", n)\<close> of an unsigned integer.\<close>

definition digit :: "nat \<Rightarrow> char" where
  "digit d = char_of (48 + d)"

fun decimal :: "nat \<Rightarrow> string" where
  "decimal n = (if n < 10 then [digit n] else decimal (n div 10) @ [digit (n mod 10)])"

declare decimal.simps [simp del]

definition is_digit :: "char \<Rightarrow> bool" where
  "is_digit c \<longleftrightarrow> 48 \<le> (of_char c :: nat) \<and> (of_char c :: nat) \<le> 57"

text \<open>The value of a decimal numeral, the inverse of \<open>decimal\<close>.\<close>

definition numeral_value :: "string \<Rightarrow> nat" where
  "numeral_value s = foldl (\<lambda>n c. n * 10 + (of_char c - 48)) 0 s"

lemma of_char_digit: "d < 10 \<Longrightarrow> (of_char (digit d) :: nat) = 48 + d"
  by (simp add: digit_def)

lemma numeral_value_snoc [simp]: "numeral_value (s @ [c]) = numeral_value s * 10 + (of_char c - 48)"
  by (simp add: numeral_value_def)

lemma numeral_value_decimal [simp]: "numeral_value (decimal n) = n"
proof (induction n rule: decimal.induct)
  case (1 n)
  show ?case
  proof (cases "n < 10")
    case True
    then show ?thesis by (simp add: decimal.simps [of n] numeral_value_def of_char_digit)
  next
    case False
    then show ?thesis using 1 by (simp add: decimal.simps [of n] of_char_digit)
  qed
qed

lemma decimal_inject [simp]: "decimal m = decimal n \<longleftrightarrow> m = n"
  by (metis numeral_value_decimal)

lemma decimal_digits: "list_all is_digit (decimal n)"
proof (induction n rule: decimal.induct)
  case (1 n)
  have "is_digit (digit (n mod 10))" and "n < 10 \<Longrightarrow> is_digit (digit n)"
    by (simp_all add: is_digit_def of_char_digit)
  with 1 show ?case by (cases "n < 10") (simp_all add: decimal.simps [of n])
qed

text \<open>A part that cannot contain the character after it can be read back.\<close>

lemma part_unique:
  assumes "list_all P xs" and "list_all P ys" and "\<not> P c"
  shows "xs @ c # r = ys @ c # s \<longleftrightarrow> xs = ys \<and> r = s"
  using assms
proof (induction xs arbitrary: ys)
  case Nil
  then show ?case by (cases ys) auto
next
  case (Cons x xs)
  then show ?case by (cases ys) auto
qed

lemma number_unique:
  assumes "\<not> is_digit c"
  shows "decimal m @ c # r = decimal n @ c # s \<longleftrightarrow> m = n \<and> r = s"
  using part_unique [OF decimal_digits decimal_digits assms] by simp

section \<open>TokenAmount\<close>

definition token_amount_py_new :: "u64 \<Rightarrow> token_amount" where
  "token_amount_py_new v = TokenAmount v"

definition token_amount_new :: "u64 \<Rightarrow> token_amount" where
  "token_amount_new v = TokenAmount v"

definition token_value :: "token_amount \<Rightarrow> u64" where
  "token_value a = tok a"

definition token_int :: "token_amount \<Rightarrow> u64" where
  "token_int a = tok a"

definition token_get :: "token_amount \<Rightarrow> u64" where
  "token_get a = tok a"

definition token_repr :: "token_amount \<Rightarrow> string" where
  "token_repr a = decimal (unat (tok a))"

definition token_str :: "token_amount \<Rightarrow> string" where
  "token_str a = token_repr a"

definition token_display :: "token_amount \<Rightarrow> string" where
  "token_display a = decimal (unat (tok a))"

section \<open>Transactions\<close>

definition raw_tx_payload_new ::
  "string \<Rightarrow> string \<Rightarrow> u64 \<Rightarrow> u64 \<Rightarrow> u64 \<Rightarrow> u8 \<Rightarrow> u64 \<Rightarrow> bytes \<Rightarrow> raw_tx_payload" where
  "raw_tx_payload_new sender to amount_consumer amount_industrial fee fee_selector nonce memo =
     \<lparr>pl_from = sender, pl_to = to, pl_amount_consumer = amount_consumer,
      pl_amount_industrial = amount_industrial, pl_fee = fee, pl_fee_selector = fee_selector,
      pl_nonce = nonce, pl_memo = memo\<rparr>"

definition raw_tx_payload_repr :: "raw_tx_payload \<Rightarrow> string" where
  "raw_tx_payload_repr p =
     ''RawTxPayload(from='' @ CHR 0x27 # pl_from p @ CHR 0x27 # '', to='' @ CHR 0x27 # pl_to p @
     CHR 0x27 # '', amount_consumer='' @ decimal (unat (pl_amount_consumer p)) @
     '', amount_industrial='' @ decimal (unat (pl_amount_industrial p)) @
     '', fee='' @ decimal (unat (pl_fee p)) @
     '', fee_selector='' @ decimal (unat (pl_fee_selector p)) @
     '', nonce='' @ decimal (unat (pl_nonce p)) @
     '', memo_len='' @ decimal (length (pl_memo p)) @ '')''"

definition signed_transaction_new :: "raw_tx_payload \<Rightarrow> bytes \<Rightarrow> bytes \<Rightarrow> signed_transaction" where
  "signed_transaction_new payload public_key signature =
     \<lparr>tx_payload = payload, tx_public_key = public_key, tx_signature = signature\<rparr>"

definition signed_transaction_repr :: "signed_transaction \<Rightarrow> string" where
  "signed_transaction_repr tx =
     ''SignedTransaction(payload='' @ raw_tx_payload_repr (tx_payload tx) @
     '', public_key=<'' @ decimal (length (tx_public_key tx)) @
     '' bytes>, signature=<'' @ decimal (length (tx_signature tx)) @ '' bytes>)''"

text \<open>The addresses that do not contain the quote that \<open>__repr__\<close> puts around them.\<close>

definition quote_free :: "string \<Rightarrow> bool" where
  "quote_free s \<longleftrightarrow> list_all (\<lambda>c. c \<noteq> CHR 0x27) s"

text \<open>What \<open>__repr__\<close> shows of a payload: everything but the bytes of the memo.\<close>

definition shown :: "raw_tx_payload \<Rightarrow> raw_tx_payload \<Rightarrow> bool" where
  "shown p q \<longleftrightarrow>
     p = q\<lparr>pl_memo := pl_memo p\<rparr> \<and> length (pl_memo p) = length (pl_memo q)"

lemma shown_iff:
  "shown p q \<longleftrightarrow>
     pl_from p = pl_from q \<and> pl_to p = pl_to q \<and> pl_amount_consumer p = pl_amount_consumer q \<and>
     pl_amount_industrial p = pl_amount_industrial q \<and> pl_fee p = pl_fee q \<and>
     pl_fee_selector p = pl_fee_selector q \<and> pl_nonce p = pl_nonce q \<and>
     length (pl_memo p) = length (pl_memo q)"
  by (cases p; cases q) (auto simp: shown_def)

lemma quoted_unique:
  assumes "quote_free s" and "quote_free t"
  shows "s @ CHR 0x27 # r = t @ CHR 0x27 # r' \<longleftrightarrow> s = t \<and> r = r'"
  using part_unique [of "\<lambda>c. c \<noteq> CHR 0x27" s t "CHR 0x27"] assms by (simp add: quote_free_def)

lemma payload_repr_append:
  assumes "quote_free (pl_from p)" "quote_free (pl_to p)" "quote_free (pl_from q)" "quote_free (pl_to q)"
  shows "raw_tx_payload_repr p @ r = raw_tx_payload_repr q @ s \<longleftrightarrow> shown p q \<and> r = s"
proof -
  have nd: "\<not> is_digit CHR '',''" "\<not> is_digit CHR '')''" by (simp_all add: is_digit_def)
  show ?thesis
    using assms
    by (simp add: raw_tx_payload_repr_def quoted_unique number_unique nd shown_iff word_unat_eq_iff)
qed

section \<open>Blockchain and the module\<close>

definition blockchain_py_new :: "env \<Rightarrow> error + blockchain" where
  "blockchain_py_new E = open_chain E ''chain_db''"

definition blockchain_default :: "env \<Rightarrow> error + blockchain" where
  "blockchain_default E = new_blockchain E"

text \<open>What \<open>#[pymodule]\<close> registers, in order; a later name replaces an equal earlier one.\<close>

datatype export = Class string | Function string | Exception string

definition module_exports :: "export list" where
  "module_exports =
     [Class ''Blockchain'', Class ''Block'', Class ''Account'', Class ''SignedTransaction'',
      Class ''RawTxPayload'', Class ''TokenBalance'',
      Function ''generate_keypair'', Function ''sign_message'', Function ''verify_signature'',
      Function ''chain_id_py'', Function ''sign_tx'', Function ''verify_signed_tx'',
      Function ''canonical_payload'', Function ''fee_decompose'',
      Exception ''ErrFeeOverflow'', Exception ''ErrInvalidSelector'']"

definition export_name :: "export \<Rightarrow> string" where
  "export_name x = (case x of Class n \<Rightarrow> n | Function n \<Rightarrow> n | Exception n \<Rightarrow> n)"

definition the_block :: "(string \<times> export) list" where
  "the_block = foldl (\<lambda>m x. AList.update (export_name x) x m) [] module_exports"

lemma the_block_complete:
  "map snd the_block = module_exports" "map_of the_block ''TokenAmount'' = None"
  by code_simp+

section \<open>Properties\<close>

text \<open>
  The textual form of a transaction determines it up to what is left out: when no address
  contains a quote, two transactions print the same exactly when they agree on addresses,
  amounts, fee, selector and nonce and on the lengths of memo, key and signature.
\<close>

lemma transaction_repr_determines:
  assumes "quote_free (pl_from (tx_payload a))" and "quote_free (pl_to (tx_payload a))"
    and "quote_free (pl_from (tx_payload b))" and "quote_free (pl_to (tx_payload b))"
  shows "signed_transaction_repr a = signed_transaction_repr b \<longleftrightarrow>
    shown (tx_payload a) (tx_payload b) \<and>
    length (tx_public_key a) = length (tx_public_key b) \<and>
    length (tx_signature a) = length (tx_signature b)"
proof -
  have nd: "\<not> is_digit CHR '' ''" by (simp add: is_digit_def)
  show ?thesis
    using assms by (simp add: signed_transaction_repr_def payload_repr_append number_unique nd)
qed

text \<open>Quotes are not escaped: two different payloads may print the same.\<close>

lemma payload_repr_ambiguous:
  "raw_tx_payload_repr (sample_payload\<lparr>pl_from := ''a'' @ [CHR 0x27] @ '', to='' @ [CHR 0x27] @ ''b'', pl_to := ''c''\<rparr>) =
   raw_tx_payload_repr (sample_payload\<lparr>pl_from := ''a'', pl_to := ''b'' @ [CHR 0x27] @ '', to='' @ [CHR 0x27] @ ''c''\<rparr>)"
  by (simp add: raw_tx_payload_repr_def)

text \<open>
  The decimal text of a \<open>TokenAmount\<close>, from \<open>__repr__\<close>, \<open>__str__\<close> and \<open>Display\<close> alike, reads
  back to its value, and constructors and getters are inverse.
\<close>

lemma token_amount_text_roundtrip:
  "numeral_value (token_str (token_amount_py_new v)) = unat (token_int (token_amount_new v)) \<and>
   token_display a = token_repr a \<and> token_amount_new (token_value a) = a \<and>
   token_get (token_amount_py_new v) = v \<and> (token_repr a = token_repr b \<longleftrightarrow> a = b)"
proof -
  have "tok a = tok b \<longleftrightarrow> a = b" by (auto intro: token_amount.expand)
  then show ?thesis
    by (simp add: token_str_def token_repr_def token_display_def token_amount_py_new_def token_int_def
        token_amount_new_def token_value_def token_get_def word_unat_eq_iff)
qed

end
