(* ===== verification/Spec2Isabelle.thy ===== *)
theory Spec2Isabelle
  imports Network Xtask Reorg Refinement Eviction Bindings
begin

text \<open>
  \<^bold>\<open>the-block: a model of the node and its correctness.\<close>

  The program is a small proof-of-work chain with two tokens (consumer and industrial),
  written in Rust with Python bindings. This development models its own code, file by file,
  and proves what makes it correct.

  \<^item> \<open>Prelude\<close>: machine integers as words, the arithmetic of Rust (plain \<open>+\<close> and \<open>-\<close>, which
    panic in a debug build and wrap in a release build; checked and saturating variants),
    errors as values, the outcome type of a method on \<open>&mut self\<close> (result and state left
    behind, also after an error or panic), little-endian bytes, sums over maps.
  \<^item> \<open>Fee\<close> (\<open>src/fee/mod.rs\<close>): \<open>decompose\<close>, with the contract \<open>fee_policy\<close>.
  \<^item> \<open>Types\<close> (\<open>src/lib.rs\<close>, \<open>src/transaction.rs\<close>): all data types, and the record \<open>env\<close> of
    the external functions (\<open>blake3\<close>, \<open>hex\<close>, \<open>bincode\<close>, \<open>ed25519_dalek\<close>) with the named
    hypotheses on them.
  \<^item> \<open>Codec\<close>: the contract of a prefix-free encoding and its instances.
  \<^item> \<open>HashLayout\<close> (\<open>src/hashlayout.rs\<close>, \<open>src/hash_genesis.rs\<close>, \<open>src/consensus.rs\<close>,
    \<open>build.rs\<close>): header encoding, genesis constant, domain tag.
  \<^item> \<open>Transaction\<close> (\<open>src/transaction.rs\<close> and the signing helpers of \<open>src/lib.rs\<close>): ids,
    signing, verification, and a sample environment that the witnesses evaluate.
  \<^item> \<open>SimpleDb\<close> (\<open>src/simple_db.rs\<close>): the store, with the contract \<open>kv_store\<close>.
  \<^item> \<open>Ledger\<close>: what the commit loop of \<open>mine_block\<close> does to the accounts, and the
    settlement that it implements.
  \<^item> \<open>Chain\<close>: block hash, fee checksum, proof-of-work measure, reward decay, accessors.
  \<^item> \<open>Mempool\<close>: \<open>submit_transaction\<close> and \<open>drop_transaction\<close>, with the reservation
    invariant \<open>mempool_inv\<close> of \<open>docs/ledger_invariants.md\<close>.
  \<^item> \<open>Persistence\<close>: \<open>open\<close>, \<open>new\<close>, \<open>with_difficulty\<close>, \<open>persist_chain\<close>, \<open>genesis_block\<close> and
    the migrations.
  \<^item> \<open>Mining\<close>: \<open>mine_block\<close>.
  \<^item> \<open>Backing\<close>: mining on an arbitrary state, and what it adds to the supply when
    reservations do not back the mempool.
  \<^item> \<open>Validation\<close>: \<open>validate_block\<close> and \<open>is_valid_chain_rust\<close>.
  \<^item> \<open>Selfcheck\<close>: pending nonces are contiguous, and what the node mines its own
    \<open>validate_block\<close> accepts.
  \<^item> \<open>ForeignChain\<close>: the declarative counterpart of \<open>is_valid_chain_rust\<close>.
  \<^item> \<open>ChainImport\<close>: \<open>import_chain\<close>, and its replay compared with mining.
  \<^item> \<open>Calls\<close>: every exported call on the node, setters included, and the well-formedness
    of the state that all of them keep, whatever they return.
  \<^item> \<open>Reorg\<close>: an import while transactions are pending, and the mining that follows it.
  \<^item> \<open>Node\<close>: the successful API calls as a step relation, and three invariants of its runs as
    interpretations of the contract \<open>run_invariant\<close>: the books balance, the chain stays
    valid, the chain reproduces the ledger on another node.
  \<^item> \<open>Network\<close>: nodes that work side by side and import each other's chains, as a step
    relation with a fourth invariant: chains are valid everywhere and determine the ledger.
  \<^item> \<open>LedgerSpec\<close>, \<open>Refinement\<close>: an abstract ledger of payments (no mempool, no blocks, no
    reservations), and the proof that each run of the node refines it.
  \<^item> \<open>Eviction\<close>: dropping a pending transaction that others follow.
  \<^item> \<open>Bindings\<close> (\<open>src/lib.rs\<close>, \<open>src/transaction.rs\<close>): constructors, getters, \<open>__repr__\<close>
    methods and the module table that Python sees.
  \<^item> \<open>Xtask\<close> (\<open>xtask/src/main.rs\<close>): the summary of a pull request and its title check.

  State. A \<open>Blockchain\<close> is the record \<open>blockchain\<close> with the fields of the struct: the chain a
  list, the accounts a map, the mempool (a concurrent \<open>DashMap\<close>) an association list whose
  order stands for its unspecified iteration order. A method is a function from the state
  to a result and a state. Strings are lists of characters, \<open>Vec<u8>\<close> lists of bytes.

  What is proved. Under \<open>mining_ready\<close> (reservations back the mempool, no
  pending transaction claims the coinbase address, emission within its cap, supply plus
  reward below \<open>2^64\<close>) mining settles every account exactly, conserves the
  supply up to the reward, and depends on the proof of work alone. Submission is decided by
  \<open>accepts\<close>, in both builds: the exact sums in an overflow-checked build, the sums modulo
  \<open>2^64\<close> in a release build, and the two agree (\<open>admissible\<close>) where no sum wraps. Submission
  without a wrapping sum, and eviction, keep the reservation invariant; a rejected
  submission changes nothing. Every orderly run (\<open>Node.orderly\<close>: no transaction from the
  coinbase address, in a release build none whose amount plus fee wraps, allocations that
  leave room for the maximum supply, fewer than \<open>2^63\<close> calls) stays ready to mine and keeps
  its books. \<open>validate_block\<close> is equivalent to a declarative predicate, and so is
  \<open>is_valid_chain_rust\<close>, except that an overflow-checked build panics after a transaction
  with the nonce \<open>2^64 - 1\<close>; both accept what a node mines. Hash preimages are injective,
  signing and persistence round-trip. Every orderly run refines the abstract ledger: the
  balances and nonces are those of the payments on the chain in their order, so no payment
  is ever executed twice.

  Chains leave a node under stronger conditions, which the theorems carry as hypotheses.
  \<open>Node.linear_history\<close>: an orderly run at a difficulty of 32 bits whose evictions take the
  last pending transaction of their sender and whose blocks have distinct ids; the chain is
  then valid everywhere. \<open>Node.on_chain_history\<close>: moreover no account was opened with
  \<open>add_account\<close> and the coinbases sum below \<open>2^64\<close>; then importing the chain reproduces the
  ledger. \<open>Network.fair_history\<close>: the same for all nodes of a network, which import only
  while nothing is pending and whose chains pay no more than the maximum supply; then,
  whatever the interleaving, equal chains mean equal ledgers, and a node with nothing
  pending can always adopt a longer chain. \<open>Eviction\<close> and \<open>ChainImport\<close> show what an eviction
  from the middle and an account outside the chain break. Every call, in any order and whatever it returns, keeps the types of the state. The
  supply equation of \<open>Backing\<close> holds for every successful mining call and names the only way
  to mint: a shortfall of the reservations.

  Some properties record defects: the wrap-around of \<open>amount + fee\<close> in a release build, the
  public key that is not tied to the sender, the mempool lost by a failed search, the
  import that fails after the reset, the unbounded coinbase, the emission counters that
  differ after an import, the store that always opens empty, the links a migration breaks,
  the missing signature check of \<open>validate_block\<close>, the truncated difficulty, the eviction
  that leaves a nonce gap and so makes the next mined block invalid, the import that keeps
  the mempool while it forgets the reservations, after which mining mints coins, the
  forged coinbase after which a node can never mine again, the panic of the chain test on
  the last nonce, the maximum supply that submission does not compare amounts with.

  Bounds. No fuel is used: the proof-of-work loop ends because its nonce only grows, the
  byte comparison because its index does. The \<open>u128\<close> fee accumulators are natural numbers,
  justified by \<open>fee.total_fits\<close> for blocks of up to \<open>2^64\<close> transactions.

  Hypotheses. Digests of 32 bytes, hexadecimal and \<open>bincode\<close> round trips, correct signatures
  and the byte layout that \<open>tests/test_interop.py\<close> checks are named definitions of \<open>Types\<close>
  and \<open>Transaction\<close>; a theorem that needs one says so, and its witness instantiates it.

  Not modelled. The Python demo and the tests drive the node and keep no state of their
  own. \<open>git\<close>, the argument parser and the JSON printer of \<open>xtask\<close> and the files that
  \<open>build.rs\<close> reads are parameters. Texts of errors that come from external libraries are
  shortened to their fixed part.
\<close>

end
